(* ===== verification/Prelude.thy ===== *)
theory Prelude
  imports Main "HOL-Library.Word" "HOL-Library.List_Lexorder" "HOL-Library.Monad_Syntax"
begin

text \<open>
  The types and the automation every component of the world-state model shares: byte
  strings and machine integers, the little-endian codec of Rust's \<open>to_le_bytes\<close> and
  \<open>from_le_bytes\<close>, the 32-byte arrays that stand for addresses and hashes, checked
  arithmetic on \<open>u32\<close>, and a few facts on lists and options.  A Rust panic (an
  \<open>unwrap\<close> on \<open>None\<close> or \<open>Err\<close>, an arithmetic overflow) is the value \<open>None\<close> of an
  option; a \<open>Result\<close> is a sum whose \<open>Inl\<close> is the error.
\<close>

unbundle bit_operations_syntax

section \<open>Machine integers and byte strings\<close>

type_synonym u8 = "8 word"
type_synonym u16 = "16 word"
type_synonym u32 = "32 word"
type_synonym u64 = "64 word"
type_synonym bytes = "u8 list"
type_synonym 'v bytemap = "bytes \<Rightarrow> 'v option"

text \<open>Facts that evaluate a key or a codec; each theory adds its own.\<close>

named_theorems key_simps \<open>equations that compare keys built from prefixes\<close>
named_theorems codec_simps \<open>round trips of the encoders and decoders\<close>

subsection \<open>Little-endian bytes\<close>

text \<open>\<open>to_le n w\<close> is the list of the \<open>n\<close> low bytes of \<open>w\<close>, least significant first.\<close>

primrec to_le :: "nat \<Rightarrow> 'a::len word \<Rightarrow> bytes" where
  "to_le 0 w = []"
| "to_le (Suc n) w = ucast w # to_le n (drop_bit 8 w)"

primrec from_le :: "bytes \<Rightarrow> 'a::len word" where
  "from_le [] = 0"
| "from_le (b # bs) = ucast b OR push_bit 8 (from_le bs)"

lemma length_to_le [simp]: "length (to_le n w) = n"
  by (induction n arbitrary: w) auto

lemma from_le_to_le_take: "from_le (to_le n w) = take_bit (8 * n) w"
proof (induction n arbitrary: w)
  case 0
  then show ?case by simp
next
  case (Suc n)
  show ?case
    by (rule bit_word_eqI)
       (auto simp: Suc bit_simps not_le dest: bit_imp_le_length)
qed

lemma from_le_to_le [codec_simps]:
  "LENGTH('a) \<le> 8 * n \<Longrightarrow> from_le (to_le n w) = (w :: 'a::len word)"
  by (simp add: from_le_to_le_take take_bit_word_eq_self)

lemma bit_from_le_bound: "bit (from_le bs :: 'a::len word) n \<Longrightarrow> n < 8 * length bs"
proof (induction bs arbitrary: n)
  case Nil
  then show ?case by simp
next
  case (Cons b bs)
  show ?case
  proof (cases "n < 8")
    case True
    then show ?thesis by simp
  next
    case False
    with Cons.prems have "bit (from_le bs :: 'a word) (n - 8)"
      by (auto simp: bit_simps dest: bit_imp_le_length)
    with Cons.IH [of "n - 8"] False show ?thesis by simp
  qed
qed

lemma to_le_from_le:
  "8 * length bs \<le> LENGTH('a) \<Longrightarrow> to_le (length bs) (from_le bs :: 'a::len word) = bs"
proof (induction bs)
  case Nil
  then show ?case by simp
next
  case (Cons b bs)
  have len: "8 * length bs + 8 \<le> LENGTH('a)" using Cons.prems by simp
  have lt: "n + 8 < LENGTH('a)" if "bit (from_le bs :: 'a word) n" for n
    using bit_from_le_bound [OF that] len by simp
  have head: "(ucast (ucast b OR push_bit 8 (from_le bs) :: 'a word) :: u8) = b"
    by (rule bit_word_eqI) (use len in \<open>auto simp: bit_simps\<close>)
  have tail: "drop_bit 8 (ucast b OR push_bit 8 (from_le bs) :: 'a word) = from_le bs"
    by (rule bit_word_eqI) (auto simp: bit_simps add.commute dest: lt bit_imp_le_length)
  show ?case
    using Cons.IH len by (simp only: list.size to_le.simps from_le.simps head tail add_0_right add_Suc_right)
qed

lemma to_le_inj:
  assumes "LENGTH('a) \<le> 8 * n" and "to_le n (v :: 'a::len word) = to_le n w"
  shows "v = w"
  using assms by (metis from_le_to_le)

text \<open>The widths the program uses: \<open>u8\<close>, \<open>u32\<close> and \<open>u64\<close>.\<close>

abbreviation u8_to_le :: "u8 \<Rightarrow> bytes" where "u8_to_le \<equiv> to_le 1"
abbreviation u32_to_le :: "u32 \<Rightarrow> bytes" where "u32_to_le \<equiv> to_le 4"
abbreviation u64_to_le :: "u64 \<Rightarrow> bytes" where "u64_to_le \<equiv> to_le 8"

text \<open>
  \<open>u64::from_le_bytes(bytes.try_into()?)\<close>: the conversion to a fixed-size array fails
  unless the length is exactly that of the integer.
\<close>

definition try_from_le :: "nat \<Rightarrow> bytes \<Rightarrow> 'a::len word option" where
  "try_from_le n bs = (if length bs = n then Some (from_le bs) else None)"

abbreviation u8_from_le :: "bytes \<Rightarrow> u8 option" where "u8_from_le \<equiv> try_from_le 1"
abbreviation u32_from_le :: "bytes \<Rightarrow> u32 option" where "u32_from_le \<equiv> try_from_le 4"
abbreviation u64_from_le :: "bytes \<Rightarrow> u64 option" where "u64_from_le \<equiv> try_from_le 8"

lemma u8_roundtrip [simp, codec_simps]: "u8_from_le (u8_to_le w) = Some w"
  by (simp only: try_from_le_def length_to_le) (simp add: from_le_to_le)

lemma u8_from_le_single [simp]: "try_from_le (Suc 0) [b] = Some (b :: u8)"
  by (simp add: try_from_le_def)

lemma u32_roundtrip [simp, codec_simps]: "u32_from_le (u32_to_le w) = Some w"
  by (simp add: try_from_le_def from_le_to_le)

lemma u64_roundtrip [simp, codec_simps]: "u64_from_le (u64_to_le w) = Some w"
  by (simp add: try_from_le_def from_le_to_le)

lemma u32_to_le_inj [simp, key_simps]: "u32_to_le v = u32_to_le w \<longleftrightarrow> v = w"
  by (auto intro: to_le_inj [where n = 4])

lemma u64_to_le_inj [simp, key_simps]: "u64_to_le v = u64_to_le w \<longleftrightarrow> v = w"
  by (auto intro: to_le_inj [where n = 8])

lemma to_le_eq_Nil_iff [simp]: "to_le n w = [] \<longleftrightarrow> n = 0"
  by (cases n) simp_all

lemma try_from_le_None_iff [simp]: "try_from_le n bs = None \<longleftrightarrow> length bs \<noteq> n"
  by (simp add: try_from_le_def)

subsection \<open>Checked arithmetic\<close>

text \<open>
  Rust's \<open>+\<close>, \<open>-\<close> and \<open>*\<close> on \<open>u32\<close> panic on overflow when overflow checks are on
  and wrap around when they are off.  The model panics (\<open>None\<close>); the properties show that
  the operations of the program return, so that both profiles agree on them.
\<close>

definition u32_add :: "u32 \<Rightarrow> u32 \<Rightarrow> u32 option" where
  "u32_add a b = (if unat a + unat b < 2 ^ 32 then Some (a + b) else None)"

definition u32_sub :: "u32 \<Rightarrow> u32 \<Rightarrow> u32 option" where
  "u32_sub a b = (if b \<le> a then Some (a - b) else None)"

definition u32_mul :: "u32 \<Rightarrow> u32 \<Rightarrow> u32 option" where
  "u32_mul a b = (if unat a * unat b < 2 ^ 32 then Some (a * b) else None)"

lemma unat_u32_less: "unat (a :: u32) < 2 ^ 32"
  using unsigned_less [of a, where ?'a = nat] by simp

lemma u32_add_SomeD: "u32_add a b = Some c \<Longrightarrow> unat c = unat a + unat b"
  by (auto simp: u32_add_def unat_word_ariths split: if_splits)

lemma u32_sub_SomeD: "u32_sub a b = Some c \<Longrightarrow> unat c = unat a - unat b"
  by (auto simp: u32_sub_def unat_sub split: if_splits)

lemma u32_mul_SomeD: "u32_mul a b = Some c \<Longrightarrow> unat c = unat a * unat b"
  by (auto simp: u32_mul_def unat_word_ariths split: if_splits)

lemma u32_add_of_nat:
  "m + n < 2 ^ 32 \<Longrightarrow> u32_add (of_nat m) (of_nat n) = Some (of_nat (m + n))"
  by (simp add: u32_add_def unat_of_nat)

lemma u32_sub_of_nat:
  "n \<le> m \<Longrightarrow> m < 2 ^ 32 \<Longrightarrow> u32_sub (of_nat m) (of_nat n) = Some (of_nat (m - n))"
  by (simp add: u32_sub_def word_le_nat_alt unat_of_nat of_nat_diff)

lemma u32_mul_of_nat:
  "m * n < 2 ^ 32 \<Longrightarrow> m < 2 ^ 32 \<Longrightarrow> n < 2 ^ 32 \<Longrightarrow>
     u32_mul (of_nat m) (of_nat n) = Some (of_nat (m * n))"
  by (simp add: u32_mul_def unat_of_nat)

lemma unat_of_nat_u32 [simp]: "n < 2 ^ 32 \<Longrightarrow> unat (of_nat n :: u32) = n"
  by (simp add: unat_of_nat)

section \<open>Thirty-two byte arrays\<close>

text \<open>
  \<open>PublicAddress\<close>, \<open>Sha256Hash\<close> and \<open>Hash256\<close> are \<open>[u8; 32]\<close>: the length is part of the
  type.  \<open>b32_bytes\<close> is \<open>to_vec\<close> (or \<open>as_slice\<close>), \<open>b32_try_from\<close> is \<open>try_into\<close>.
\<close>

typedef b32 = "{bs :: bytes. length bs = 32}"
  morphisms b32_bytes b32_abs
  by (rule exI [of _ "replicate 32 0"]) simp

lemma b32_abstype [code abstype]: "b32_abs (b32_bytes a) = a"
  by (rule b32_bytes_inverse)

definition b32_pad :: "bytes \<Rightarrow> b32" where
  "b32_pad bs = b32_abs (if length bs = 32 then bs else replicate 32 0)"

lemma b32_bytes_pad [code abstract]:
  "b32_bytes (b32_pad bs) = (if length bs = 32 then bs else replicate 32 0)"
  by (simp add: b32_pad_def b32_abs_inverse)

definition b32_try_from :: "bytes \<Rightarrow> b32 option" where
  "b32_try_from bs = (if length bs = 32 then Some (b32_pad bs) else None)"

definition b32_fill :: "u8 \<Rightarrow> b32" where
  "b32_fill x = b32_pad (replicate 32 x)"

lemma length_b32_bytes [simp]: "length (b32_bytes a) = 32"
  using b32_bytes [of a] by simp

lemma b32_bytes_inj [simp, key_simps]: "b32_bytes a = b32_bytes b \<longleftrightarrow> a = b"
  by (rule b32_bytes_inject)

lemma b32_bytes_nonempty [simp]: "b32_bytes a \<noteq> []"
  by (simp flip: length_0_conv)

lemma b32_pad_bytes [simp]: "b32_pad (b32_bytes a) = a"
  by (simp add: b32_pad_def b32_bytes_inverse)

lemma b32_try_from_bytes [simp, codec_simps]: "b32_try_from (b32_bytes a) = Some a"
  by (simp add: b32_try_from_def)

lemma b32_try_from_Some_iff: "b32_try_from bs = Some a \<longleftrightarrow> bs = b32_bytes a"
  by (auto simp: b32_try_from_def b32_bytes_pad)

lemma b32_try_from_None_iff [simp]: "b32_try_from bs = None \<longleftrightarrow> length bs \<noteq> 32"
  by (simp add: b32_try_from_def)

lemma b32_bytes_fill [simp]: "b32_bytes (b32_fill x) = replicate 32 x"
  by (simp add: b32_fill_def b32_bytes_pad)

lemma b32_fill_inj [simp, key_simps]: "b32_fill x = b32_fill y \<longleftrightarrow> x = y"
  by (metis b32_bytes_fill replicate_eq_replicate zero_neq_numeral)

lemma b32_append_inj [simp, key_simps]:
  "b32_bytes a @ xs = b32_bytes b @ ys \<longleftrightarrow> a = b \<and> xs = ys"
  by (simp add: append_eq_append_conv)

text \<open>Arrays compare lexicographically, byte by byte, as the derived order of Rust does.\<close>

instantiation b32 :: linorder
begin

definition less_eq_b32 :: "b32 \<Rightarrow> b32 \<Rightarrow> bool" where
  "less_eq_b32 a b \<longleftrightarrow> b32_bytes a \<le> b32_bytes b"

definition less_b32 :: "b32 \<Rightarrow> b32 \<Rightarrow> bool" where
  "less_b32 a b \<longleftrightarrow> b32_bytes a < b32_bytes b"

instance
proof
  fix x y z :: b32
  show "(x < y) = (x \<le> y \<and> \<not> y \<le> x)"
    unfolding less_eq_b32_def less_b32_def by (rule less_le_not_le)
  show "x \<le> y \<Longrightarrow> y \<le> x \<Longrightarrow> x = y"
    unfolding less_eq_b32_def by (metis antisym b32_bytes_inject)
qed (auto simp: less_eq_b32_def)

end

instantiation b32 :: equal
begin

definition equal_b32 :: "b32 \<Rightarrow> b32 \<Rightarrow> bool" where
  "equal_b32 a b \<longleftrightarrow> b32_bytes a = b32_bytes b"

instance
  by standard (simp add: equal_b32_def)

end

section \<open>Rust's three-way comparison\<close>

datatype ordering = Less | Equal | Greater

definition cmp_of :: "'p::linorder \<Rightarrow> 'p \<Rightarrow> ordering" where
  "cmp_of a b = (if a < b then Less else if a = b then Equal else Greater)"

lemma cmp_of_simps [simp]:
  "cmp_of a b = Less \<longleftrightarrow> a < b"
  "cmp_of a b = Greater \<longleftrightarrow> b < a"
  "cmp_of a b = Equal \<longleftrightarrow> a = b"
  by (auto simp: cmp_of_def)

section \<open>Hash maps as association lists\<close>

text \<open>
  A \<open>HashMap\<close> that is iterated is a list of pairs with distinct keys; \<open>insert\<close> replaces
  the value of a present key.  The order in which Rust visits the entries is unspecified:
  \<open>visit ord xs\<close> visits them in the order given by \<open>ord\<close>, an arbitrary permutation of
  the positions for every length.  A \<open>HashMap\<close> that is only looked up, extended or cleared
  is a map, a \<open>HashSet\<close> that is only tested is a set.
\<close>

fun hm_insert :: "'k \<Rightarrow> 'v \<Rightarrow> ('k \<times> 'v) list \<Rightarrow> ('k \<times> 'v) list" where
  "hm_insert k v [] = [(k, v)]"
| "hm_insert k v (e # es) = (if fst e = k then (k, v) # es else e # hm_insert k v es)"

fun hs_insert :: "'k \<Rightarrow> 'k list \<Rightarrow> 'k list" where
  "hs_insert k ks = (if k \<in> set ks then ks else ks @ [k])"

definition visit :: "(nat \<Rightarrow> nat list) \<Rightarrow> 'e list \<Rightarrow> 'e list" where
  "visit ord xs = map ((!) xs) (ord (length xs))"

definition visit_order :: "(nat \<Rightarrow> nat list) \<Rightarrow> bool" where
  "visit_order ord \<longleftrightarrow> (\<forall>n. distinct (ord n) \<and> set (ord n) = {..<n})"

lemma map_of_hm_insert [simp]: "map_of (hm_insert k v xs) = (map_of xs)(k \<mapsto> v)"
  by (induction xs) auto

lemma keys_hm_insert [simp]: "fst ` set (hm_insert k v xs) = insert k (fst ` set xs)"
  by (induction xs) auto

lemma distinct_hm_insert [simp]:
  "distinct (map fst xs) \<Longrightarrow> distinct (map fst (hm_insert k v xs))"
  by (induction xs) auto

lemma map_of_snoc:
  assumes "k \<notin> fst ` set xs"
  shows "map_of (xs @ [(k, v)]) = (map_of xs)(k \<mapsto> v)"
proof
  fix x
  have "map_of xs k = None" using assms by (simp add: map_of_eq_None_iff)
  then show "map_of (xs @ [(k, v)]) x = ((map_of xs)(k \<mapsto> v)) x"
    by (cases "x = k") (simp_all add: map_add_def split: option.split)
qed

lemma set_fold_hs_insert [simp]: "set (fold hs_insert xs ks) = set ks \<union> set xs"
  by (induction xs arbitrary: ks) auto

lemma set_hs_insert [simp]: "set (hs_insert k ks) = insert k (set ks)"
  by auto

lemma distinct_hs_insert [simp]: "distinct ks \<Longrightarrow> distinct (hs_insert k ks)"
  by auto

lemma nth_image_lessThan_length: "(!) xs ` {..<length xs} = set xs"
  by (auto simp: set_conv_nth)

declare hs_insert.simps [simp del]

lemma visit_props:
  assumes "visit_order ord"
  shows "set (visit ord xs) = set xs" and "length (visit ord xs) = length xs"
    and "distinct xs \<Longrightarrow> distinct (visit ord xs)"
proof -
  have o: "distinct (ord (length xs))" "set (ord (length xs)) = {..<length xs}"
    using assms by (auto simp: visit_order_def)
  show "set (visit ord xs) = set xs"
    by (simp add: visit_def o nth_image_lessThan_length)
  show "length (visit ord xs) = length xs"
    using distinct_card [OF o(1)] by (simp add: visit_def o(2))
  show "distinct xs \<Longrightarrow> distinct (visit ord xs)"
    by (simp add: visit_def distinct_map o inj_on_def nth_eq_iff_index_eq)
qed

lemma visit_map:
  assumes "visit_order ord" and "distinct (map fst xs)"
  shows "distinct (map fst (visit ord xs))" and "map_of (visit ord xs) = map_of xs"
proof -
  have m: "map fst (visit ord xs) = visit ord (map fst xs)"
    using assms(1) by (auto simp: visit_def visit_order_def)
  show d: "distinct (map fst (visit ord xs))"
    unfolding m using assms by (simp add: visit_props)
  show "map_of (visit ord xs) = map_of xs"
    by (rule map_of_inject_set [THEN iffD2]) (use d assms in \<open>auto simp: visit_props\<close>)
qed

end
