(* ===== verification/Version_Errors.thy ===== *)
theory Version_Errors
  imports Prelude
begin

text \<open>
  The version tag of the world state (\<open>version.rs\<close>) and the error values of the crate
  (\<open>error.rs\<close>).  A Rust type parameter \<open>V: VersionProvider\<close> is a value of type \<open>version\<close>,
  the result of its \<open>version()\<close>.
\<close>

section \<open>Versions\<close>

datatype version = V1 | V2

section \<open>Errors\<close>

datatype mpt_error =
    InvalidStateRoot
  | IncompleteDatabase
  | ValueAtIncompleteKey
  | DecoderError
  | InvalidHash
  | EmptyTrie

datatype trie_key_build_error = InvalidAccountField | InvalidPublicAddress | Other

datatype decode_or_encode_error = DecodeError | EncodeError

text \<open>The constructors are the three \<open>From\<close> implementations as well.\<close>

datatype world_state_error =
    MptError mpt_error
  | TrieKeyBuildError trie_key_build_error
  | DecodeOrEncodeError decode_or_encode_error

text \<open>
  \<open>trie_db::TrieError\<close>: the variants that \<open>error.rs\<close> matches, without their payload, which
  the match drops.
\<close>

datatype trie_error =
    TrieInvalidStateRoot
  | TrieIncompleteDatabase
  | TrieValueAtIncompleteKey
  | TrieDecoderError
  | TrieInvalidHash

fun mpt_error_from :: "trie_error \<Rightarrow> mpt_error" where
  "mpt_error_from TrieInvalidStateRoot = InvalidStateRoot"
| "mpt_error_from TrieIncompleteDatabase = IncompleteDatabase"
| "mpt_error_from TrieValueAtIncompleteKey = ValueAtIncompleteKey"
| "mpt_error_from TrieDecoderError = DecoderError"
| "mpt_error_from TrieInvalidHash = InvalidHash"

text \<open>The two \<open>Display\<close> implementations.\<close>

fun fmt_trie_key_build_error :: "trie_key_build_error \<Rightarrow> string" where
  "fmt_trie_key_build_error InvalidAccountField = ''Invalid AccountField''"
| "fmt_trie_key_build_error InvalidPublicAddress = ''Invalid PublicAddress''"
| "fmt_trie_key_build_error Other = ''Other errors''"

fun fmt_decode_or_encode_error :: "decode_or_encode_error \<Rightarrow> string" where
  "fmt_decode_or_encode_error DecodeError = ''Decode Error''"
| "fmt_decode_or_encode_error EncodeError = ''Encode Error''"

lemma mpt_error_from_not_empty [simp]: "mpt_error_from e \<noteq> EmptyTrie"
  by (cases e) simp_all

lemma mpt_error_from_inj: "mpt_error_from e = mpt_error_from e' \<Longrightarrow> e = e'"
  by (cases e; cases e') simp_all

section \<open>Results\<close>

text \<open>\<open>map\<close>, \<open>map_err\<close> and the \<open>?\<close> operator of \<open>Result\<close>, as functions on sums.\<close>

fun map_ok :: "('a \<Rightarrow> 'b) \<Rightarrow> 'e + 'a \<Rightarrow> 'e + 'b" where
  "map_ok f (Inl e) = Inl e"
| "map_ok f (Inr a) = Inr (f a)"

fun map_err :: "('e \<Rightarrow> 'f) \<Rightarrow> 'e + 'a \<Rightarrow> 'f + 'a" where
  "map_err f (Inl e) = Inl (f e)"
| "map_err f (Inr a) = Inr a"

fun and_then :: "'e + 'a \<Rightarrow> ('a \<Rightarrow> 'e + 'b) \<Rightarrow> 'e + 'b" where
  "and_then (Inl e) f = Inl e"
| "and_then (Inr a) f = f a"

definition ok_or :: "'a option \<Rightarrow> 'e \<Rightarrow> 'e + 'a" where
  "ok_or x e = (case x of None \<Rightarrow> Inl e | Some a \<Rightarrow> Inr a)"

text \<open>
  A \<open>Result\<close> whose success is read by code that may panic: the error is passed on, a panic
  of the reader is a panic of the whole.
\<close>

fun map_ok_panic :: "('a \<Rightarrow> 'b option) \<Rightarrow> 'e + 'a \<Rightarrow> ('e + 'b) option" where
  "map_ok_panic f (Inl e) = Some (Inl e)"
| "map_ok_panic f (Inr a) = map_option Inr (f a)"

lemma ok_or_simps [simp]: "ok_or None e = Inl e" "ok_or (Some a) e = Inr a"
  by (simp_all add: ok_or_def)

lemma map_ok_Inr_iff [simp]: "map_ok f r = Inr b \<longleftrightarrow> (\<exists>a. r = Inr a \<and> b = f a)"
  by (cases r) auto

lemma map_err_Inr_iff [simp]: "map_err f r = Inr b \<longleftrightarrow> r = Inr b"
  by (cases r) auto

lemma and_then_Inr_iff [simp]: "and_then r f = Inr b \<longleftrightarrow> (\<exists>a. r = Inr a \<and> f a = Inr b)"
  by (cases r) auto

text \<open>A loop whose body may return early with an error.\<close>

fun try_fold :: "('a \<Rightarrow> 's \<Rightarrow> 'e + 's) \<Rightarrow> 'a list \<Rightarrow> 's \<Rightarrow> 'e + 's" where
  "try_fold f [] s = Inr s"
| "try_fold f (x # xs) s = and_then (f x s) (try_fold f xs)"

lemma try_fold_append:
  "try_fold f (xs @ ys) s = and_then (try_fold f xs s) (try_fold f ys)"
proof (induction xs arbitrary: s)
  case (Cons x xs)
  then show ?case by (cases "f x s") auto
qed simp

lemma try_fold_Inr:
  "(\<And>x s. x \<in> set xs \<Longrightarrow> f x s = Inr (g x s)) \<Longrightarrow> try_fold f xs s = Inr (fold g xs s)"
  by (induction xs arbitrary: s) auto

end
