(* ===== verification/Key_Db.thy ===== *)
theory Key_Db
  imports Version_Errors
begin

text \<open>
  The write-collecting database wrapper (\<open>db.rs\<close>): \<open>KeyInstrumentedDB\<close> reads through two
  in-memory collections to the persistent storage and never writes to it.  The theory
  states the overlay's functional behaviour, the invariant that no key is both inserted and
  deleted, the separation of the physical keyspaces, and that applying the collected
  changes to the storage is invisible to readers.
\<close>

section \<open>State and operations\<close>

record kdb =
  storage :: "bytes \<Rightarrow> bytes option"
  inserts :: "bytes bytemap"
  deletes :: "bytes set"
  prefix :: bytes
  kdb_version :: version

type_synonym db_changes = "bytes bytemap \<times> bytes set"

definition kdb_new :: "version \<Rightarrow> (bytes \<Rightarrow> bytes option) \<Rightarrow> bytes \<Rightarrow> kdb" where
  "kdb_new V s p =
     \<lparr>storage = s, inserts = Map.empty, deletes = {}, prefix = p, kdb_version = V\<rparr>"

definition kdb_unsafe_new :: "version \<Rightarrow> (bytes \<Rightarrow> bytes option) \<Rightarrow> bytes \<Rightarrow> kdb" where
  "kdb_unsafe_new V s p = kdb_new V s p"

definition build_key :: "kdb \<Rightarrow> bytes \<Rightarrow> bytes" where
  "build_key d key =
     (case kdb_version d of
        V1 \<Rightarrow> if prefix d = [] then key else prefix d @ key
      | V2 \<Rightarrow> if prefix d = [] then 0 # key else 1 # prefix d @ key)"

definition kdb_get :: "kdb \<Rightarrow> bytes \<Rightarrow> bytes option" where
  "kdb_get d key =
     (let search_key = build_key d key
      in case inserts d search_key of
           Some value \<Rightarrow> Some value
         | None \<Rightarrow> if search_key \<in> deletes d then None else storage d search_key)"

definition kdb_put :: "kdb \<Rightarrow> bytes \<Rightarrow> bytes \<Rightarrow> bytes option \<times> kdb" where
  "kdb_put d key value =
     (let insert_key = build_key d key;
          d' = d\<lparr>deletes := deletes d - {insert_key}\<rparr>
      in (inserts d' insert_key, d'\<lparr>inserts := (inserts d')(insert_key \<mapsto> value)\<rparr>))"

definition kdb_delete :: "kdb \<Rightarrow> bytes \<Rightarrow> kdb" where
  "kdb_delete d key =
     (let delete_key = build_key d key;
          d' = d\<lparr>inserts := (inserts d)(delete_key := None)\<rparr>
      in d'\<lparr>deletes := insert delete_key (deletes d')\<rparr>)"

definition kdb_close :: "kdb \<Rightarrow> db_changes \<times> kdb" where
  "kdb_close d =
     ((inserts d, deletes d), d\<lparr>inserts := Map.empty, deletes := {}\<rparr>)"

text \<open>Defined for a \<open>V1\<close> database; the collected changes keep their \<open>V1\<close> keys.\<close>

definition kdb_upgrade :: "kdb \<Rightarrow> kdb" where
  "kdb_upgrade d = d\<lparr>kdb_version := V2\<rparr>"

text \<open>
  What the caller does with the changes it is handed (\<open>apply_changes\<close> of the tests: the
  inserts first, then the deletes; the README deletes first).
\<close>

definition apply_changes :: "db_changes \<Rightarrow> (bytes \<Rightarrow> bytes option) \<Rightarrow> bytes \<Rightarrow> bytes option" where
  "apply_changes c s k =
     (if k \<in> snd c then None else case fst c k of Some v \<Rightarrow> Some v | None \<Rightarrow> s k)"

definition apply_changes_readme ::
    "db_changes \<Rightarrow> (bytes \<Rightarrow> bytes option) \<Rightarrow> bytes \<Rightarrow> bytes option" where
  "apply_changes_readme c s k =
     (case fst c k of Some v \<Rightarrow> Some v | None \<Rightarrow> if k \<in> snd c then None else s k)"

section \<open>Lemmas\<close>

lemmas kdb_defs = kdb_get_def kdb_put_def kdb_delete_def kdb_close_def kdb_new_def kdb_upgrade_def

definition kdb_inv :: "kdb \<Rightarrow> bool" where
  "kdb_inv d \<longleftrightarrow> dom (inserts d) \<inter> deletes d = {} \<and> finite (dom (inserts d) \<union> deletes d)"

lemma kdb_invD: "kdb_inv d \<Longrightarrow> k \<in> deletes d \<Longrightarrow> inserts d k = None"
  by (auto simp: kdb_inv_def)

text \<open>The physical key is the logical key behind a tag fixed by version and prefix.\<close>

definition key_tag :: "version \<Rightarrow> bytes \<Rightarrow> bytes" where
  "key_tag V p = (case V of V1 \<Rightarrow> p | V2 \<Rightarrow> if p = [] then [0] else 1 # p)"

lemma build_key_tag: "build_key d k = key_tag (kdb_version d) (prefix d) @ k"
  by (simp add: build_key_def key_tag_def split: version.split)

lemma build_key_inj [simp, key_simps]: "build_key d k = build_key d k' \<longleftrightarrow> k = k'"
  by (simp add: build_key_tag)

text \<open>The physical keys a database can reach, and those its collected changes mention.\<close>

definition keyspace :: "version \<Rightarrow> bytes \<Rightarrow> bytes set" where
  "keyspace V p = range (\<lambda>k. key_tag V p @ k)"

definition touched :: "kdb \<Rightarrow> bytes set" where
  "touched d = dom (inserts d) \<union> deletes d"

definition own_keys :: "kdb \<Rightarrow> bool" where
  "own_keys d \<longleftrightarrow> touched d \<subseteq> keyspace (kdb_version d) (prefix d)"

lemma build_key_keyspace [simp, intro]: "build_key d k \<in> keyspace (kdb_version d) (prefix d)"
  by (simp add: build_key_tag keyspace_def)

lemma keyspace_V2_disjoint:
  "p = [] \<or> p = b32_bytes a \<Longrightarrow> q = [] \<or> q = b32_bytes b \<Longrightarrow> p \<noteq> q \<Longrightarrow>
     keyspace V2 p \<inter> keyspace V2 q = {}"
  by (auto simp: keyspace_def key_tag_def)

lemma kdb_frame [simp]:
  "storage (snd (kdb_put d k v)) = storage d" "prefix (snd (kdb_put d k v)) = prefix d"
  "kdb_version (snd (kdb_put d k v)) = kdb_version d"
  "storage (kdb_delete d k) = storage d" "prefix (kdb_delete d k) = prefix d"
  "kdb_version (kdb_delete d k) = kdb_version d"
  "storage (snd (kdb_close d)) = storage d" "prefix (snd (kdb_close d)) = prefix d"
  "kdb_version (snd (kdb_close d)) = kdb_version d"
  "storage (kdb_upgrade d) = storage d" "prefix (kdb_upgrade d) = prefix d"
  "kdb_version (kdb_upgrade d) = V2"
  "storage (kdb_new V s p) = s" "prefix (kdb_new V s p) = p" "kdb_version (kdb_new V s p) = V"
  by (simp_all add: kdb_defs Let_def)

lemma build_key_cong:
  "prefix d = prefix d' \<Longrightarrow> kdb_version d = kdb_version d' \<Longrightarrow> build_key d = build_key d'"
  by (rule ext) (simp add: build_key_def split: version.split)

lemma kdb_changes [simp]:
  "inserts (snd (kdb_put d k v)) = (inserts d)(build_key d k \<mapsto> v)"
  "deletes (snd (kdb_put d k v)) = deletes d - {build_key d k}"
  "inserts (kdb_delete d k) = (inserts d)(build_key d k := None)"
  "deletes (kdb_delete d k) = insert (build_key d k) (deletes d)"
  "inserts (snd (kdb_close d)) = Map.empty" "deletes (snd (kdb_close d)) = {}"
  "fst (kdb_close d) = (inserts d, deletes d)"
  "inserts (kdb_upgrade d) = inserts d" "deletes (kdb_upgrade d) = deletes d"
  "inserts (kdb_new V s p) = Map.empty" "deletes (kdb_new V s p) = {}"
  by (simp_all add: kdb_defs Let_def)

lemma kdb_inv_put [simp, intro]: "kdb_inv d \<Longrightarrow> kdb_inv (snd (kdb_put d k v))"
  by (auto simp: kdb_inv_def)

lemma kdb_inv_delete [simp, intro]: "kdb_inv d \<Longrightarrow> kdb_inv (kdb_delete d k)"
  by (auto simp: kdb_inv_def)

lemma kdb_inv_close [simp, intro]: "kdb_inv (snd (kdb_close d))"
  by (simp add: kdb_inv_def)

lemma kdb_inv_upgrade [simp]: "kdb_inv (kdb_upgrade d) = kdb_inv d"
  by (simp add: kdb_inv_def)

lemma kdb_inv_new [simp, intro]: "kdb_inv (kdb_new V s p)"
  by (simp add: kdb_inv_def)

lemma kdb_get_fun:
  "kdb_get d k = (case inserts d (build_key d k) of
      Some v \<Rightarrow> Some v
    | None \<Rightarrow> if build_key d k \<in> deletes d then None else storage d (build_key d k))"
  by (simp only: kdb_get_def Let_def)

lemma build_key_put [simp]: "build_key (snd (kdb_put d k v)) = build_key d"
  by (rule build_key_cong) simp_all

lemma build_key_delete [simp]: "build_key (kdb_delete d k) = build_key d"
  by (rule build_key_cong) simp_all

lemma kdb_get_put_map: "kdb_get (snd (kdb_put d k v)) = (kdb_get d)(k \<mapsto> v)"
  by (rule ext) (auto simp: kdb_get_fun split: option.splits)

lemma kdb_get_delete_map: "kdb_get (kdb_delete d k) = (kdb_get d)(k := None)"
  by (rule ext) (auto simp: kdb_get_fun split: option.splits)

lemma touched_new [simp]: "touched (kdb_new V s p) = {}"
  by (simp add: touched_def kdb_new_def)

lemma touched_put:
  "touched (snd (kdb_put d k v)) \<subseteq> touched d \<union> keyspace (kdb_version d) (prefix d)"
  by (auto simp: touched_def)

lemma touched_delete:
  "touched (kdb_delete d k) \<subseteq> touched d \<union> keyspace (kdb_version d) (prefix d)"
  by (auto simp: touched_def)

lemma own_keys_new [simp, intro]: "own_keys (kdb_new V s p)"
  by (simp add: own_keys_def touched_def)

lemma own_keys_put [simp, intro]: "own_keys d \<Longrightarrow> own_keys (snd (kdb_put d k v))"
  by (auto simp: own_keys_def touched_def)

lemma own_keys_delete [simp, intro]: "own_keys d \<Longrightarrow> own_keys (kdb_delete d k)"
  by (auto simp: own_keys_def touched_def)

lemma own_keys_close [simp, intro]: "own_keys (snd (kdb_close d))"
  by (simp add: own_keys_def touched_def)

text \<open>
  The prefixes in use: none for the accounts trie, an address for a storage trie.  A \<open>V2\<close>
  database is apart when its changes stay out of the keyspaces of all other prefixes.
\<close>

definition valid_prefix :: "bytes \<Rightarrow> bool" where
  "valid_prefix p \<longleftrightarrow> p = [] \<or> (\<exists>a. p = b32_bytes a)"

definition apart :: "kdb \<Rightarrow> bool" where
  "apart d \<longleftrightarrow> (\<forall>q. valid_prefix q \<longrightarrow> q \<noteq> prefix d \<longrightarrow> touched d \<inter> keyspace V2 q = {})"

lemma valid_prefix_simps [simp, intro]: "valid_prefix []" "valid_prefix (b32_bytes a)"
  by (auto simp: valid_prefix_def)

lemma apart_grow:
  assumes "apart d" "kdb_version d = V2" "valid_prefix (prefix d)" "prefix d' = prefix d"
    and "touched d' \<subseteq> touched d \<union> keyspace (kdb_version d) (prefix d)"
  shows "apart d'"
  unfolding apart_def
proof (intro allI impI)
  fix q assume q: "valid_prefix q" "q \<noteq> prefix d'"
  then have "keyspace V2 (prefix d) \<inter> keyspace V2 q = {}"
    using keyspace_V2_disjoint assms(3,4) unfolding valid_prefix_def by metis
  moreover have "touched d \<inter> keyspace V2 q = {}"
    using assms(1,4) q by (simp add: apart_def)
  ultimately show "touched d' \<inter> keyspace V2 q = {}"
    using assms(2,5) by auto
qed

lemma own_keys_apart:
  assumes "own_keys d" "kdb_version d = V2" "valid_prefix (prefix d)"
  shows "apart d"
proof -
  let ?e = "d\<lparr>inserts := Map.empty, deletes := {}\<rparr>"
  have "apart ?e" by (simp add: apart_def touched_def)
  then show ?thesis
    by (rule apart_grow) (use assms in \<open>simp_all add: own_keys_def touched_def\<close>)
qed

text \<open>
  A fresh database over a storage to which changes were applied reads, at every key on whose
  physical key they agree with those \<open>d\<close> collected, what \<open>d\<close> reads.
\<close>

definition same_changes :: "db_changes \<Rightarrow> kdb \<Rightarrow> bytes \<Rightarrow> bool" where
  "same_changes c d x \<longleftrightarrow> fst c x = inserts d x \<and> (x \<in> snd c \<longleftrightarrow> x \<in> deletes d)"

definition reopened :: "db_changes \<Rightarrow> kdb \<Rightarrow> kdb" where
  "reopened c d = kdb_new (kdb_version d) (apply_changes c (storage d)) (prefix d)"

lemma build_key_reopened [simp]: "build_key (reopened c d) = build_key d"
  by (rule build_key_cong) (simp_all add: reopened_def)

lemma reopen_get_at:
  assumes "kdb_inv d" "same_changes c d (build_key d k)"
  shows "kdb_get (reopened c d) k = kdb_get d k"
  using assms(2) kdb_invD [OF assms(1), of "build_key d k"]
  by (auto simp: kdb_get_fun same_changes_def reopened_def [of c d] apply_changes_def
      build_key_reopened [unfolded reopened_def] split: option.split)

lemma reopen_get:
  assumes "kdb_inv d"
  shows "kdb_get (kdb_new (kdb_version d) (apply_changes (inserts d, deletes d) (storage d)) (prefix d)) =
    kdb_get d"
  using reopen_get_at [OF assms, of "(inserts d, deletes d)"]
  by (simp add: fun_eq_iff same_changes_def reopened_def)

text \<open>
  The changes of several databases joined in sequence.  With pairwise distinct prefixes, a key
  that no other database changed has the changes of its own one.
\<close>

definition joined :: "kdb list \<Rightarrow> db_changes" where
  "joined ds = (fold (\<lambda>d i. i ++ inserts d) ds Map.empty, \<Union>(deletes ` set ds))"

lemma joined_snoc:
  "fst (joined (ds @ [d])) = fst (joined ds) ++ inserts d"
  "snd (joined (ds @ [d])) = snd (joined ds) \<union> deletes d"
  by (auto simp: joined_def)

lemma joined_none:
  "\<forall>d \<in> set ds. x \<notin> touched d \<Longrightarrow> fst (joined ds) x = None \<and> x \<notin> snd (joined ds)"
proof (induction ds rule: rev_induct)
  case (snoc d ds)
  then show ?case by (simp add: joined_snoc touched_def domIff map_add_def)
qed (simp add: joined_def)

lemma joined_at:
  assumes "d \<in> set ds" "distinct (map prefix ds)"
    and "\<forall>e \<in> set ds. prefix e \<noteq> prefix d \<longrightarrow> x \<notin> touched e"
  shows "same_changes (joined ds) d x"
  using assms unfolding same_changes_def
proof (induction ds rule: rev_induct)
  case (snoc e ds)
  show ?case
  proof (cases "d \<in> set ds")
    case True
    then have "x \<notin> touched e" using snoc.prems by auto
    then show ?thesis
      using snoc True by (simp add: joined_snoc touched_def domIff map_add_def)
  next
    case False
    then have "d = e" using snoc.prems(1) by simp
    moreover have "\<forall>c \<in> set ds. x \<notin> touched c"
      using snoc.prems(2,3) by (simp add: \<open>d = e\<close>) (metis image_eqI)
    ultimately show ?thesis
      using joined_none [of ds x] by (simp add: joined_snoc map_add_def split: option.split)
  qed
qed simp

section \<open>The interface the trie relies on\<close>

text \<open>
  A byte store: writes through it are updates of what it reads.  The client is the
  \<open>HashDB\<close> implementation of the trie, which issues a sequence of writes.
\<close>

datatype store_write = Put bytes bytes | Del bytes

locale byte_store =
  fixes get :: "'d \<Rightarrow> bytes \<Rightarrow> bytes option"
    and put :: "'d \<Rightarrow> bytes \<Rightarrow> bytes \<Rightarrow> 'd"
    and del :: "'d \<Rightarrow> bytes \<Rightarrow> 'd"
  assumes get_put: "get (put d k v) = (get d)(k \<mapsto> v)"
    and get_del: "get (del d k) = (get d)(k := None)"
begin

lemma read_written: "get (put d k v) k = Some v" "get (del d k) k = None"
  by (simp_all add: get_put get_del)

lemma writes_commute:
  "k \<noteq> k' \<Longrightarrow> get (put (put d k v) k' v') = get (put (put d k' v') k v)"
  by (auto simp: get_put)

lemma fold_writes:
  "get (fold (\<lambda>w d. case w of Put k v \<Rightarrow> put d k v | Del k \<Rightarrow> del d k) ws d) =
   fold (\<lambda>w m. case w of Put k v \<Rightarrow> m(k \<mapsto> v) | Del k \<Rightarrow> m(k := None)) ws (get d)"
proof (induction ws arbitrary: d)
  case Nil
  show ?case by simp
next
  case (Cons w ws)
  show ?case by (cases w) (simp_all add: Cons.IH get_put get_del fun_upd_def)
qed

end

interpretation kdb: byte_store kdb_get "\<lambda>d k v. snd (kdb_put d k v)" kdb_delete
  by unfold_locales (rule kdb_get_put_map kdb_get_delete_map)+

section \<open>Reachable databases\<close>

text \<open>What a trie can do with its database between two upgrades.\<close>

inductive kdb_reach :: "version \<Rightarrow> (bytes \<Rightarrow> bytes option) \<Rightarrow> bytes \<Rightarrow> kdb \<Rightarrow> bool"
  for V s p where
  new: "kdb_reach V s p (kdb_new V s p)"
| put: "kdb_reach V s p d \<Longrightarrow> kdb_reach V s p (snd (kdb_put d k v))"
| delete: "kdb_reach V s p d \<Longrightarrow> kdb_reach V s p (kdb_delete d k)"
| close: "kdb_reach V s p d \<Longrightarrow> kdb_reach V s p (snd (kdb_close d))"

lemma kdb_reach_frame:
  "kdb_reach V s p d \<Longrightarrow> kdb_version d = V \<and> storage d = s \<and> prefix d = p"
  by (induction rule: kdb_reach.induct) simp_all

lemma kdb_reach_invs: "kdb_reach V s p d \<Longrightarrow> kdb_inv d \<and> own_keys d"
  by (induction rule: kdb_reach.induct) auto

lemma apply_changes_order:
  "dom (fst c) \<inter> snd c = {} \<Longrightarrow> apply_changes_readme c s = apply_changes c s"
  by (rule ext) (auto simp: apply_changes_def apply_changes_readme_def split: option.split)

text \<open>
  The whole life of a database that is created in version \<open>V\<close>: the upgrade of a version 1
  database may come at any point, and goes on in version 2 with the changes collected so far.
\<close>

inductive kdb_life :: "version \<Rightarrow> (bytes \<Rightarrow> bytes option) \<Rightarrow> bytes \<Rightarrow> kdb \<Rightarrow> bool"
  for V s p where
  life_new: "kdb_life V s p (kdb_new V s p)"
| life_put: "kdb_life V s p d \<Longrightarrow> kdb_life V s p (snd (kdb_put d k v))"
| life_delete: "kdb_life V s p d \<Longrightarrow> kdb_life V s p (kdb_delete d k)"
| life_close: "kdb_life V s p d \<Longrightarrow> kdb_life V s p (snd (kdb_close d))"
| life_upgrade: "kdb_life V s p d \<Longrightarrow> kdb_version d = V1 \<Longrightarrow> kdb_life V s p (kdb_upgrade d)"

definition life_keys :: "version \<Rightarrow> kdb \<Rightarrow> bool" where
  "life_keys V d \<longleftrightarrow> touched d \<subseteq> keyspace V (prefix d) \<union> keyspace (kdb_version d) (prefix d) \<and>
     (kdb_version d = V \<or> V = V1 \<and> kdb_version d = V2)"

lemma life_keys_put [simp, intro]: "life_keys V d \<Longrightarrow> life_keys V (snd (kdb_put d k v))"
  using touched_put [of d k v] by (auto simp: life_keys_def)

lemma life_keys_delete [simp, intro]: "life_keys V d \<Longrightarrow> life_keys V (kdb_delete d k)"
  using touched_delete [of d k] by (auto simp: life_keys_def)

lemma kdb_life_invs: "kdb_life V s p d \<Longrightarrow> kdb_inv d \<and> life_keys V d \<and> storage d = s \<and> prefix d = p"
proof (induction rule: kdb_life.induct)
  case (life_upgrade d)
  then show ?case by (cases V) (auto simp: life_keys_def touched_def)
qed (auto simp: life_keys_def touched_def)

section \<open>Properties\<close>

text \<open>
  Through the wrapper a database reads like a map.  A \<open>put\<close> updates and a \<open>delete\<close>
  removes exactly the given key, \<open>put\<close> returns the value collected before for that key, and
  neither touches the persistent storage.
\<close>

theorem kdb_overlay:
  "kdb_get (snd (kdb_put d k v)) = (kdb_get d)(k \<mapsto> v) \<and>
   kdb_get (kdb_delete d k) = (kdb_get d)(k := None) \<and>
   fst (kdb_put d k v) = (if build_key d k \<in> dom (inserts d) then kdb_get d k else None) \<and>
   storage (snd (kdb_put d k v)) = storage d \<and> storage (kdb_delete d k) = storage d"
proof -
  have "fst (kdb_put d k v) = (if build_key d k \<in> dom (inserts d) then kdb_get d k else None)"
    by (auto simp: kdb_put_def Let_def kdb_get_fun)
  then show ?thesis by (simp add: kdb.get_put kdb.get_del)
qed

text \<open>
  C35: A database reached from a fresh one by any sequence of puts, deletes, closes and, in
  version 1, upgrades has collected finitely many keys, none of them both as inserted and as
  deleted, and still has its storage and its prefix.  As long as it has the version it was created
  with, all collected keys lie in the physical keyspace of that version and of the prefix.  Once it
  was upgraded they lie in the keyspace of version 1 or in that of version 2 for the prefix, since
  the upgrade keeps the keys collected before.
\<close>

theorem kdb_reachable_invariant:
  assumes "kdb_life V s p d"
  shows "dom (inserts d) \<inter> deletes d = {} \<and> finite (dom (inserts d) \<union> deletes d) \<and>
    storage d = s \<and> prefix d = p \<and>
    (kdb_version d = V \<and> dom (inserts d) \<union> deletes d \<subseteq> keyspace V p \<or>
     V = V1 \<and> kdb_version d = V2 \<and> dom (inserts d) \<union> deletes d \<subseteq> keyspace V1 p \<union> keyspace V2 p)"
  using kdb_life_invs [OF assms] by (auto simp: kdb_inv_def life_keys_def touched_def)

text \<open>A key collected before an upgrade, outside the keyspace of version 2.\<close>

theorem kdb_reachable_invariant_witness:
  "let d = kdb_delete (kdb_upgrade (snd (kdb_put (kdb_new V1 Map.empty []) [7] [1]))) [7] in
   dom (inserts d) \<union> deletes d = {[7], [0, 7]} \<and> [7] \<notin> keyspace V2 [] \<and>
   dom (inserts d) \<union> deletes d \<subseteq> keyspace V1 [] \<union> keyspace V2 []"
proof -
  let ?d = "kdb_delete (kdb_upgrade (snd (kdb_put (kdb_new V1 Map.empty []) [7] [1]))) [7]"
  have "kdb_life V1 Map.empty [] ?d"
    by (intro kdb_life.intros) simp
  from kdb_reachable_invariant [OF this]
  have "dom (inserts ?d) \<union> deletes ?d \<subseteq> keyspace V1 [] \<union> keyspace V2 []"
    by auto
  moreover have "dom (inserts ?d) \<union> deletes ?d = {[7], [0, 7]}"
    by (auto simp: build_key_tag key_tag_def)
  moreover have "[7] \<notin> keyspace V2 []" by (auto simp: keyspace_def key_tag_def)
  ultimately show ?thesis by (simp only: Let_def) blast
qed

text \<open>
  C23: Closing hands out the collected changes and forgets them.  A fresh database over the
  storage to which they were applied, in the order of the tests or in the order of the
  README, reads exactly what the old one read before it was closed.
\<close>

theorem kdb_close_apply:
  assumes "kdb_reach V s p d"
  shows "kdb_get (kdb_new V (apply_changes (fst (kdb_close d)) s) p) = kdb_get d \<and>
    kdb_get (kdb_new V (apply_changes_readme (fst (kdb_close d)) s) p) = kdb_get d \<and>
    fst (kdb_close (snd (kdb_close d))) = (Map.empty, {})"
  using reopen_get [of d] kdb_reach_invs [OF assms]
    kdb_reach_frame [OF assms] apply_changes_order [of "(inserts d, deletes d)"]
  by (simp add: kdb_inv_def)

theorem kdb_close_apply_witness:
  "kdb_get (kdb_new V1 (apply_changes
      (fst (kdb_close (kdb_delete (snd (kdb_put (kdb_new V1 [[9] \<mapsto> [3]] []) [7] [1])) [9])))
      [[9] \<mapsto> [3]]) []) [7] = Some [1]"
proof -
  have "kdb_reach V1 [[9] \<mapsto> [3]] []
      (kdb_delete (snd (kdb_put (kdb_new V1 [[9] \<mapsto> [3]] []) [7] [1])) [9])"
    by (intro kdb_reach.intros)
  from kdb_close_apply [OF this] show ?thesis
    by (simp add: kdb.get_put kdb.get_del del: kdb_changes)
qed

text \<open>
  C36: With version 2 keys, tries of different prefixes (the accounts trie and the storage
  tries of different addresses) never meet in a physical key.
\<close>

theorem v2_keys_never_meet:
  assumes "valid_prefix p" "valid_prefix q" "p \<noteq> q"
  shows "build_key (kdb_new V2 s p) k \<noteq> build_key (kdb_new V2 s q) k'"
proof -
  have "keyspace V2 p \<inter> keyspace V2 q = {}"
    using keyspace_V2_disjoint assms unfolding valid_prefix_def by metis
  then show ?thesis
    using build_key_keyspace [of "kdb_new V2 s p" k] build_key_keyspace [of "kdb_new V2 s q" k']
    by auto
qed

theorem v2_keys_never_meet_witness:
  "build_key (kdb_new V2 Map.empty []) [1, 2] \<noteq>
     build_key (kdb_new V2 Map.empty (b32_bytes (b32_fill 5))) [2]"
  by (rule v2_keys_never_meet) (simp_all only: valid_prefix_simps b32_bytes_nonempty [symmetric] not_False_eq_True)

end
