(* ===== verification/Trie_Lib.thy ===== *)
theory Trie_Lib
  imports Version_Errors
begin

text \<open>
  The code outside the repository that the trie layer calls: Parity's \<open>trie_db\<close> with the
  \<open>NoExtensionLayout\<close> and \<open>RefHasher\<close> of \<open>reference_trie\<close>, and the iteration order of
  Rust's \<open>HashMap\<close>.  They are the fields of one record, an argument of every definition
  that uses them.  What the repository relies on is the locale \<open>trie_contract\<close>: the
  documented behaviour of \<open>Trie\<close>, \<open>TrieMut\<close> and of the key layout of \<open>memory_db\<close>
  (\<open>prefixed_key\<close>), over an abstract relation \<open>holds s r m\<close>, "the node store \<open>s\<close> has,
  under root \<open>r\<close>, a complete trie with content \<open>m\<close>".
\<close>

section \<open>The parameter\<close>

text \<open>\<open>hash_db::Prefix\<close>: the nibble path of a node, whole bytes and a padded half byte.\<close>

type_synonym nprefix = "bytes \<times> u8 option"
type_synonym node_view = "b32 \<Rightarrow> nprefix \<Rightarrow> bytes option"
type_synonym content = "bytes bytemap"
type_synonym node_store = "bytes \<Rightarrow> bytes option"

text \<open>The calls a \<open>TrieDBMut\<close> makes on the mutable \<open>HashDB\<close> it was built on.\<close>

datatype hashdb_call =
    HInsert nprefix bytes
  | HEmplace b32 nprefix bytes
  | HRemove b32 nprefix

text \<open>
  \<open>'t\<close> is the state of a \<open>TrieDBMut\<close>.  It reads nodes when it is built and while keys are
  inserted and removed, all before any write; \<open>commit\<close> and \<open>drop\<close> answer with the calls
  they make on the \<open>HashDB\<close>.
\<close>

record 't trie_lib =
  rh_hash :: "bytes \<Rightarrow> b32"
  td_get :: "node_view \<Rightarrow> b32 \<Rightarrow> bytes \<Rightarrow> trie_error + bytes option"
  td_contains :: "node_view \<Rightarrow> b32 \<Rightarrow> bytes \<Rightarrow> trie_error + bool"
  td_iter :: "node_view \<Rightarrow> b32 \<Rightarrow> trie_error + (trie_error + bytes \<times> bytes) list"
  td_generate_proof :: "node_view \<Rightarrow> b32 \<Rightarrow> bytes list \<Rightarrow> trie_error + bytes list"
  tm_new :: "node_view \<Rightarrow> 't"
  tm_from_existing :: "node_view \<Rightarrow> b32 \<Rightarrow> 't"
  tm_insert :: "'t \<Rightarrow> bytes \<Rightarrow> bytes \<Rightarrow> trie_error option \<times> 't"
  tm_remove :: "'t \<Rightarrow> bytes \<Rightarrow> trie_error option \<times> 't"
  tm_commit :: "'t \<Rightarrow> hashdb_call list \<times> 't"
  tm_root :: "'t \<Rightarrow> b32"
  tm_drop :: "'t \<Rightarrow> hashdb_call list"
  hash_order :: "nat \<Rightarrow> nat list"

section \<open>The reference node store\<close>

text \<open>
  The key layout of Parity's \<open>memory_db\<close> (\<open>prefixed_key\<close>): the prefix bytes, the padded
  half byte if there is one, the hash.  \<open>trie_db\<close> is specified against stores keyed so.
\<close>

definition ref_node_key :: "b32 \<Rightarrow> nprefix \<Rightarrow> bytes" where
  "ref_node_key h p = fst p @ (case snd p of None \<Rightarrow> [] | Some n \<Rightarrow> [n]) @ b32_bytes h"

definition ref_view :: "node_store \<Rightarrow> node_view" where
  "ref_view s h p = s (ref_node_key h p)"

definition null_root :: "'t trie_lib \<Rightarrow> b32" where
  "null_root E = rh_hash E [0]"

fun ref_call :: "'t trie_lib \<Rightarrow> hashdb_call \<Rightarrow> node_store \<Rightarrow> node_store" where
  "ref_call E (HInsert p v) s = s(ref_node_key (rh_hash E v) p \<mapsto> v)"
| "ref_call E (HEmplace h p v) s = s(ref_node_key h p \<mapsto> v)"
| "ref_call E (HRemove h p) s = (if h = null_root E then s else s(ref_node_key h p := None))"

section \<open>The contract\<close>

text \<open>Inserting an empty value removes the key, as \<open>TrieMut::insert\<close> documents.\<close>

definition put_content :: "bytes \<Rightarrow> bytes \<Rightarrow> content \<Rightarrow> content" where
  "put_content k v m = (if v = [] then m(k := None) else m(k \<mapsto> v))"

text \<open>
  \<open>nodes s r\<close> are the keys of the nodes of the trie under \<open>r\<close>; \<open>is_node m h p\<close> holds when a trie
  with content \<open>m\<close> can have a node of hash \<open>h\<close> at the path \<open>p\<close>; \<open>session\<close> relates a mutable trie to the
  store it was built on, its content at that time, and its content.
\<close>

record 't trie_model =
  holds :: "node_store \<Rightarrow> b32 \<Rightarrow> content \<Rightarrow> bool"
  nodes :: "node_store \<Rightarrow> b32 \<Rightarrow> bytes set"
  is_node :: "content \<Rightarrow> b32 \<Rightarrow> nprefix \<Rightarrow> bool"
  session :: "'t \<Rightarrow> node_store \<Rightarrow> content \<Rightarrow> content \<Rightarrow> bool"

text \<open>Reading a complete trie: \<open>get\<close>, \<open>contains\<close>, \<open>generate_proof\<close> and \<open>iter\<close>.\<close>

definition reads_ok :: "'t trie_lib \<Rightarrow> 't trie_model \<Rightarrow> bool" where
  "reads_ok E M \<longleftrightarrow> (\<forall>s r m. holds M s r m \<longrightarrow>
     (\<forall>k. td_get E (ref_view s) r k = Inr (m k)) \<and>
     (\<forall>k. td_contains E (ref_view s) r k = Inr (m k \<noteq> None)) \<and>
     (\<forall>ks. \<exists>p. td_generate_proof E (ref_view s) r ks = Inr p) \<and>
     (\<exists>xs. td_iter E (ref_view s) r = Inr (map Inr xs) \<and> distinct (map fst xs) \<and> map_of xs = m))"

text \<open>
  A mutable trie over a complete one: edits succeed, and \<open>commit\<close> makes them durable.  It writes
  nodes of the new trie and removes nodes of the old one, and touches no others.
\<close>

fun call_node :: "'t trie_lib \<Rightarrow> hashdb_call \<Rightarrow> b32 \<times> nprefix" where
  "call_node E (HInsert p v) = (rh_hash E v, p)"
| "call_node E (HEmplace h p v) = (h, p)"
| "call_node E (HRemove h p) = (h, p)"

definition edits_ok :: "'t trie_lib \<Rightarrow> 't trie_model \<Rightarrow> bool" where
  "edits_ok E M \<longleftrightarrow>
     (\<forall>s r m. holds M s r m \<longrightarrow> session M (tm_from_existing E (ref_view s) r) s m m) \<and>
     (\<forall>t s m0 m k v. session M t s m0 m \<longrightarrow>
        (\<exists>t'. tm_insert E t k v = (None, t') \<and> session M t' s m0 (put_content k v m))) \<and>
     (\<forall>t s m0 m k. session M t s m0 m \<longrightarrow>
        (\<exists>t'. tm_remove E t k = (None, t') \<and> session M t' s m0 (m(k := None)))) \<and>
     (\<forall>t s m0 m. session M t s m0 m \<longrightarrow>
        (let (calls, t') = tm_commit E t
         in holds M (fold (ref_call E) calls s) (tm_root E t') m \<and> tm_drop E t' = [] \<and>
            (\<forall>c \<in> set calls. case call_node E c of (h, p) \<Rightarrow> is_node M m0 h p \<or> is_node M m h p)))"

text \<open>
  The empty trie: its root is the hash of the single byte 0, its only node is that byte, and
  a trie has that root exactly when it is empty.
\<close>

definition empty_ok :: "'t trie_lib \<Rightarrow> 't trie_model \<Rightarrow> bool" where
  "empty_ok E M \<longleftrightarrow>
     (\<forall>s. s (ref_node_key (null_root E) ([], None)) = Some [0] \<longrightarrow>
        holds M s (null_root E) Map.empty) \<and>
     (\<forall>v. tm_root E (snd (tm_commit E (tm_new E v))) = null_root E) \<and>
     is_node M Map.empty (null_root E) ([], None) \<and>
     (\<forall>s r m. holds M s r m \<longrightarrow> (r = null_root E \<longleftrightarrow> m = Map.empty))"

text \<open>A trie is its nodes: a store that has them too has the trie, whatever else it holds.\<close>

definition nodes_ok :: "'t trie_model \<Rightarrow> bool" where
  "nodes_ok M \<longleftrightarrow>
     (\<forall>s s' r m. holds M s r m \<longrightarrow> (\<forall>x \<in> nodes M s r. s' x = s x) \<longrightarrow> holds M s' r m) \<and>
     (\<forall>s r m. holds M s r m \<longrightarrow> nodes M s r \<subseteq> {ref_node_key h p |h p. is_node M m h p})"

text \<open>What the crate relies on, as an interface, and what follows from it.\<close>

locale trie_contract =
  fixes E :: "'t trie_lib" and M :: "'t trie_model"
  assumes reads: "reads_ok E M"
    and edits: "edits_ok E M"
    and empty: "empty_ok E M"
    and node_keys: "nodes_ok M"
    and visit: "visit_order (hash_order E)"
begin

lemma get: "holds M s r m \<Longrightarrow> td_get E (ref_view s) r k = Inr (m k)"
  using reads by (simp add: reads_ok_def)

lemma contains: "holds M s r m \<Longrightarrow> td_contains E (ref_view s) r k = Inr (m k \<noteq> None)"
  using reads by (simp add: reads_ok_def)

lemma proof_nodes: "holds M s r m \<Longrightarrow> \<exists>p. td_generate_proof E (ref_view s) r ks = Inr p"
  using reads by (simp add: reads_ok_def)

lemma iter:
  "holds M s r m \<Longrightarrow>
     \<exists>xs. td_iter E (ref_view s) r = Inr (map Inr xs) \<and> distinct (map fst xs) \<and> map_of xs = m"
  using reads by (simp add: reads_ok_def)

lemma start: "holds M s r m \<Longrightarrow> session M (tm_from_existing E (ref_view s) r) s m m"
  using edits by (simp add: edits_ok_def)

lemma insertion:
  "session M t s m0 m \<Longrightarrow> \<exists>t'. tm_insert E t k v = (None, t') \<and> session M t' s m0 (put_content k v m)"
  using edits by (simp add: edits_ok_def)

lemma removal:
  "session M t s m0 m \<Longrightarrow> \<exists>t'. tm_remove E t k = (None, t') \<and> session M t' s m0 (m(k := None))"
  using edits by (simp add: edits_ok_def)

lemma commitment:
  "session M t s m0 m \<Longrightarrow> tm_commit E t = (calls, t') \<Longrightarrow>
     holds M (fold (ref_call E) calls s) (tm_root E t') m \<and> tm_drop E t' = [] \<and>
     (\<forall>c \<in> set calls. case call_node E c of (h, p) \<Rightarrow> is_node M m0 h p \<or> is_node M m h p)"
  using edits by (fastforce simp: edits_ok_def)

lemma null:
  "s (ref_node_key (null_root E) ([], None)) = Some [0] \<Longrightarrow> holds M s (null_root E) Map.empty"
  using empty by (simp add: empty_ok_def)

lemma new_root: "tm_root E (snd (tm_commit E (tm_new E v))) = null_root E"
  using empty by (simp add: empty_ok_def)

lemma root_null_iff: "holds M s r m \<Longrightarrow> r = null_root E \<longleftrightarrow> m = Map.empty"
  using empty by (simp add: empty_ok_def)

lemma null_node: "is_node M Map.empty (null_root E) ([], None)"
  using empty by (simp add: empty_ok_def)

lemma nodes_of_content: "holds M s r m \<Longrightarrow> nodes M s r \<subseteq> {ref_node_key h p |h p. is_node M m h p}"
  using node_keys by (simp add: nodes_ok_def)

lemma nodes_suffice: "holds M s r m \<Longrightarrow> (\<And>x. x \<in> nodes M s r \<Longrightarrow> s' x = s x) \<Longrightarrow> holds M s' r m"
  using node_keys by (auto simp: nodes_ok_def)

lemma content_unique:
  assumes "holds M s r m" "holds M s r m'"
  shows "m = m'"
proof
  fix k
  show "m k = m' k" using get [OF assms(1)] get [OF assms(2)] by simp
qed

lemma content_finite: "holds M s r m \<Longrightarrow> finite (dom m)"
  using iter finite_dom_map_of by metis

end

lemmas trie_get = trie_contract.get
lemmas trie_contains = trie_contract.contains
lemmas trie_proof = trie_contract.proof_nodes
lemmas trie_iter = trie_contract.iter
lemmas trie_open = trie_contract.start
lemmas trie_insert = trie_contract.insertion
lemmas trie_remove = trie_contract.removal
lemmas trie_commit = trie_contract.commitment
lemmas trie_null = trie_contract.null
lemmas trie_new_root = trie_contract.new_root
lemmas trie_root_null_iff = trie_contract.root_null_iff
lemmas trie_nodes = trie_contract.nodes_suffice
lemmas trie_null_node = trie_contract.null_node
lemmas trie_nodes_of_content = trie_contract.nodes_of_content
lemmas trie_visit = trie_contract.visit
lemmas trie_content_unique = trie_contract.content_unique
lemmas trie_content_finite = trie_contract.content_finite

section \<open>Collision freedom\<close>

text \<open>
  Paths in half bytes.  \<open>below m p\<close> are the entries of \<open>m\<close> under the path \<open>p\<close>, each with the rest of its
  path.
\<close>

definition nibbles :: "bytes \<Rightarrow> u8 list" where
  "nibbles bs = concat (map (\<lambda>b. [b div 16, b mod 16]) bs)"

definition path_nibbles :: "nprefix \<Rightarrow> u8 list" where
  "path_nibbles p = nibbles (fst p) @ (case snd p of None \<Rightarrow> [] | Some n \<Rightarrow> [n div 16])"

definition below :: "content \<Rightarrow> nprefix \<Rightarrow> (u8 list \<times> bytes) set" where
  "below m p = {(s, v). \<exists>k. m k = Some v \<and> nibbles k = path_nibbles p @ s}"

text \<open>
  The hash of a node stands for the entries below it: a trie has nodes only where it has entries,
  its root apart, and nodes of one hash at different paths have the same entries below them.  This is
  what the collision resistance of the hash gives.
\<close>

locale merkle_trie = trie_contract +
  assumes inhabited: "is_node M m h p \<Longrightarrow> m = Map.empty \<and> p = ([], None) \<or> below m p \<noteq> {}"
    and same_hash: "is_node M m h p \<Longrightarrow> is_node M m' h q \<Longrightarrow> p \<noteq> q \<Longrightarrow> below m p = below m' q"

lemma merkle_contract: "merkle_trie E M \<Longrightarrow> trie_contract E M"
  by (simp add: merkle_trie_def)

end
