(* ===== verification/Flat_Trie.thy ===== *)
theory Flat_Trie
  imports Trie_Lib
begin

text \<open>
  A concrete trie library that satisfies the contract of \<open>Trie_Lib\<close>: a trie is a single
  node, the serialised list of its entries, stored under its hash at the root position.  It
  shows that the contract can hold, and the witnesses of the theorems about the tries run
  on it.
\<close>

section \<open>Entries as bytes\<close>

text \<open>A length in unary (bytes 1, then 0) before each string; entries start with a byte 1.\<close>

definition enc_bytes :: "bytes \<Rightarrow> bytes" where
  "enc_bytes bs = replicate (length bs) 1 @ 0 # bs"

fun enc_entries :: "(bytes \<times> bytes) list \<Rightarrow> bytes" where
  "enc_entries [] = [0]"
| "enc_entries ((k, v) # es) = 1 # enc_bytes k @ enc_bytes v @ enc_entries es"

definition dec_bytes :: "bytes \<Rightarrow> bytes \<times> bytes" where
  "dec_bytes bs =
     (let n = length (takeWhile (\<lambda>b. b = 1) bs); rest = drop (Suc n) bs
      in (take n rest, drop n rest))"

text \<open>One unit of fuel per entry: the length of the node is enough.\<close>

fun dec_entries :: "nat \<Rightarrow> bytes \<Rightarrow> (bytes \<times> bytes) list" where
  "dec_entries (Suc n) (b # bs) =
     (if b = 1
      then (let (k, bs) = dec_bytes bs; (v, bs) = dec_bytes bs in (k, v) # dec_entries n bs)
      else [])"
| "dec_entries _ _ = []"

lemma dec_enc_bytes [simp]: "dec_bytes (enc_bytes bs @ rest) = (bs, rest)"
  by (simp add: dec_bytes_def enc_bytes_def Let_def takeWhile_append)

lemma dec_enc_entries: "length es \<le> n \<Longrightarrow> dec_entries n (enc_entries es) = es"
proof (induction es arbitrary: n)
  case Nil
  then show ?case by (cases n) simp_all
next
  case (Cons e es)
  then obtain m where "n = Suc m" "length es \<le> m" by (cases n) auto
  with Cons.IH [of m] show ?case by (cases e) simp
qed

lemma length_enc_entries: "length es \<le> length (enc_entries es)"
  by (induction es rule: enc_entries.induct) (simp_all add: enc_bytes_def)

lemma enc_entries_empty_iff [simp]: "enc_entries es = [0] \<longleftrightarrow> es = []"
  by (cases es rule: enc_entries.cases) simp_all

definition flat_node :: "bytes \<Rightarrow> (bytes \<times> bytes) list" where
  "flat_node node = dec_entries (length node) node"

lemma flat_node_enc [simp]: "flat_node (enc_entries es) = es"
  by (simp add: flat_node_def dec_enc_entries length_enc_entries)

section \<open>The library\<close>

text \<open>A short checksum stands for the hash; the empty node has hash zero, no other has.\<close>

definition flat_hash :: "bytes \<Rightarrow> b32" where
  "flat_hash bs = b32_fill (if bs = [0] then 0 else if sum_list bs = 0 then 1 else sum_list bs)"

definition flat_root :: "node_view \<Rightarrow> b32 \<Rightarrow> trie_error + (bytes \<times> bytes) list" where
  "flat_root view r =
     (case view r ([], None) of None \<Rightarrow> Inl TrieInvalidStateRoot | Some n \<Rightarrow> Inr (flat_node n))"

definition flat_lib :: "(bool \<times> (bytes \<times> bytes) list) trie_lib" where
  "flat_lib =
     \<lparr>rh_hash = flat_hash,
      td_get = (\<lambda>view r k. map_ok (\<lambda>es. map_of es k) (flat_root view r)),
      td_contains = (\<lambda>view r k. map_ok (\<lambda>es. map_of es k \<noteq> None) (flat_root view r)),
      td_iter = (\<lambda>view r. map_ok (map Inr) (flat_root view r)),
      td_generate_proof = (\<lambda>view r ks. map_ok (\<lambda>es. [enc_entries es]) (flat_root view r)),
      tm_new = (\<lambda>view. (True, [])),
      tm_from_existing = (\<lambda>view r. (False, case flat_root view r of Inr es \<Rightarrow> es | Inl _ \<Rightarrow> [])),
      tm_insert = (\<lambda>(_, es) k v. (None, True,
         if v = [] then filter (\<lambda>e. fst e \<noteq> k) es else hm_insert k v es)),
      tm_remove = (\<lambda>(_, es) k. (None, True, filter (\<lambda>e. fst e \<noteq> k) es)),
      tm_commit = (\<lambda>(_, es). ([HInsert ([], None) (enc_entries es)], (False, es))),
      tm_root = (\<lambda>(_, es). flat_hash (enc_entries es)),
      tm_drop = (\<lambda>(dirty, es). if dirty then [HInsert ([], None) (enc_entries es)] else []),
      hash_order = (\<lambda>n. [0..<n])\<rparr>"

definition flat_model :: "(bool \<times> (bytes \<times> bytes) list) trie_model" where
  "flat_model =
     \<lparr>holds = (\<lambda>s r m. \<exists>es. distinct (map fst es) \<and> map_of es = m \<and>
         r = flat_hash (enc_entries es) \<and> ref_view s r ([], None) = Some (enc_entries es)),
      nodes = (\<lambda>s r. {ref_node_key r ([], None)}),
      is_node = (\<lambda>m h p. p = ([], None) \<and> (\<exists>es. distinct (map fst es) \<and> map_of es = m \<and>
         h = flat_hash (enc_entries es))),
      session = (\<lambda>(_, es) s m0 m. distinct (map fst es) \<and> map_of es = m)\<rparr>"

section \<open>It satisfies the contract\<close>

lemma flat_hash_zero: "flat_hash bs = b32_fill 0 \<longleftrightarrow> bs = [0]"
  by (simp add: flat_hash_def)

lemma flat_root_ok:
  "ref_view s r ([], None) = Some (enc_entries es) \<Longrightarrow> flat_root (ref_view s) r = Inr es"
  by (simp add: flat_root_def)

lemma map_of_filter_key: "map_of (filter (\<lambda>e. fst e \<noteq> k) es) = (map_of es)(k := None)"
  by (induction es) auto

lemma flat_reads: "reads_ok flat_lib flat_model"
  unfolding reads_ok_def
proof (intro allI impI)
  fix s r m assume "holds flat_model s r m"
  then obtain es where es: "distinct (map fst es)" "map_of es = m"
    "flat_root (ref_view s) r = Inr es"
    by (auto simp: flat_model_def flat_root_ok)
  then show "(\<forall>k. td_get flat_lib (ref_view s) r k = Inr (m k)) \<and>
     (\<forall>k. td_contains flat_lib (ref_view s) r k = Inr (m k \<noteq> None)) \<and>
     (\<forall>ks. \<exists>p. td_generate_proof flat_lib (ref_view s) r ks = Inr p) \<and>
     (\<exists>xs. td_iter flat_lib (ref_view s) r = Inr (map Inr xs) \<and> distinct (map fst xs) \<and>
        map_of xs = m)"
    by (auto simp: flat_lib_def)
qed

lemma flat_edits: "edits_ok flat_lib flat_model"
  unfolding edits_ok_def
proof (intro conjI allI impI)
  fix s r m assume "holds flat_model s r m"
  then show "session flat_model (tm_from_existing flat_lib (ref_view s) r) s m m"
    by (auto simp: flat_model_def flat_lib_def flat_root_ok)
next
  fix t s m0 m k v assume "session flat_model t s m0 m"
  then show "\<exists>t'. tm_insert flat_lib t k v = (None, t') \<and> session flat_model t' s m0 (put_content k v m)"
    by (auto simp: flat_model_def flat_lib_def put_content_def map_of_filter_key distinct_map_filter
        split: prod.splits)
next
  fix t s m0 m k assume "session flat_model t s m0 m"
  then show "\<exists>t'. tm_remove flat_lib t k = (None, t') \<and> session flat_model t' s m0 (m(k := None))"
    by (auto simp: flat_model_def flat_lib_def map_of_filter_key distinct_map_filter split: prod.splits)
next
  fix t s m0 m assume "session flat_model t s m0 m"
  then show "let (calls, t') = tm_commit flat_lib t
       in holds flat_model (fold (ref_call flat_lib) calls s) (tm_root flat_lib t') m \<and>
          tm_drop flat_lib t' = [] \<and>
          (\<forall>c \<in> set calls. case call_node flat_lib c of
             (h, p) \<Rightarrow> is_node flat_model m0 h p \<or> is_node flat_model m h p)"
    by (auto simp: flat_model_def flat_lib_def ref_view_def split: prod.splits)
qed

lemma flat_empty: "empty_ok flat_lib flat_model"
  unfolding empty_ok_def null_root_def
proof (intro conjI allI impI)
  fix s :: node_store assume "s (ref_node_key (rh_hash flat_lib [0]) ([], None)) = Some [0]"
  then show "holds flat_model s (rh_hash flat_lib [0]) Map.empty"
    by (auto simp: flat_model_def flat_lib_def ref_view_def intro!: exI [of _ "[]"])
next
  show "tm_root flat_lib (snd (tm_commit flat_lib (tm_new flat_lib v))) = rh_hash flat_lib [0]" for v
    by (simp add: flat_lib_def)
next
  show "is_node flat_model Map.empty (rh_hash flat_lib [0]) ([], None)"
    by (auto simp: flat_model_def flat_lib_def intro!: exI [of _ "[]"])
next
  fix s r m assume "holds flat_model s r m"
  then obtain es where "map_of es = m" "r = flat_hash (enc_entries es)"
    by (auto simp: flat_model_def)
  moreover have "rh_hash flat_lib [0] = b32_fill 0"
    by (simp add: flat_lib_def flat_hash_def)
  ultimately show "r = rh_hash flat_lib [0] \<longleftrightarrow> m = Map.empty"
    by (auto simp: flat_hash_zero)
qed

lemma flat_nodes: "nodes_ok flat_model"
  by (auto simp: nodes_ok_def flat_model_def ref_view_def)

interpretation flat: trie_contract flat_lib flat_model
  by unfold_locales
     (use flat_reads flat_edits flat_empty flat_nodes in
      \<open>simp_all add: flat_lib_def visit_order_def atLeast0LessThan\<close>)

lemmas flat_contract = flat.trie_contract_axioms

text \<open>All its nodes are roots.\<close>

interpretation flat: merkle_trie flat_lib flat_model
proof unfold_locales
  fix m h p q assume n: "is_node flat_model m h p"
  show "m = Map.empty \<and> p = ([], None) \<or> below m p \<noteq> {}"
  proof (cases "m = Map.empty")
    case False
    then obtain k v where "m k = Some v" by (metis not_None_eq ext)
    moreover have "p = ([], None)" using n by (simp add: flat_model_def)
    ultimately show ?thesis by (auto simp: below_def path_nibbles_def nibbles_def)
  qed (use n in \<open>simp add: flat_model_def\<close>)
  show "below m p = below m' q" if "is_node flat_model m' h q" "p \<noteq> q" for m'
    using n that by (simp add: flat_model_def)
qed

lemmas flat_merkle = flat.merkle_trie_axioms

lemma flat_null_root: "null_root flat_lib = b32_fill 0"
  by (simp add: null_root_def flat_lib_def flat_hash_def)

end
