(* ===== verification/Mpt.thy ===== *)
theory Mpt
  imports Key_Db Flat_Trie
begin

text \<open>
  The Merkle Patricia trie wrapper (\<open>mpt.rs\<close>): the \<open>HashDB\<close> implementation over the
  write-collecting database, and the operations that run the external trie on it.  The
  lemmas show that the \<open>HashDB\<close> implementation simulates the reference node store, and,
  under \<open>trie_contract\<close>, what every operation does to the content of the trie.
\<close>

section \<open>State\<close>

record mpt =
  db :: kdb
  root_hash :: b32

type_synonym mpt_changes = "bytes bytemap \<times> bytes set \<times> b32"

text \<open>\<open>PREIMAGE_OF_EMPTY_TRIE_ROOT_HASH\<close> and \<open>EMPTY_TRIE_DUMMY_ROOT_NODE\<close>.\<close>

definition preimage_of_empty_trie_root_hash :: bytes where
  "preimage_of_empty_trie_root_hash = [0]"

definition empty_trie_dummy_root_node :: bytes where
  "empty_trie_dummy_root_node = [0]"

section \<open>The HashDB implementation\<close>

definition prefixed_trie_node_key :: "b32 \<Rightarrow> nprefix \<Rightarrow> bytes" where
  "prefixed_trie_node_key hash nibble_prefix =
     (let prefixed_key = [] @ fst nibble_prefix;
          prefixed_key = (case snd nibble_prefix of
                            Some half \<Rightarrow> prefixed_key @ [half]
                          | None \<Rightarrow> prefixed_key)
      in prefixed_key @ b32_bytes hash)"

definition hashdb_get :: "mpt \<Rightarrow> b32 \<Rightarrow> nprefix \<Rightarrow> bytes option" where
  "hashdb_get t key nibble_prefix =
     (let key = prefixed_trie_node_key key nibble_prefix in kdb_get (db t) key)"

definition hashdb_contains :: "mpt \<Rightarrow> b32 \<Rightarrow> nprefix \<Rightarrow> bool" where
  "hashdb_contains t key nibble_prefix =
     (let key = prefixed_trie_node_key key nibble_prefix in kdb_get (db t) key \<noteq> None)"

text \<open>\<open>HashDBRef\<close>, the interface of the trie builders that only read.\<close>

definition hashdb_ref_get :: "mpt \<Rightarrow> b32 \<Rightarrow> nprefix \<Rightarrow> bytes option" where
  "hashdb_ref_get t key nibble_prefix = hashdb_get t key nibble_prefix"

definition hashdb_ref_contains :: "mpt \<Rightarrow> b32 \<Rightarrow> nprefix \<Rightarrow> bool" where
  "hashdb_ref_contains t key nibble_prefix = hashdb_contains t key nibble_prefix"

definition hashdb_emplace :: "mpt \<Rightarrow> b32 \<Rightarrow> nprefix \<Rightarrow> bytes \<Rightarrow> mpt" where
  "hashdb_emplace t key nibble_prefix value =
     (let key = prefixed_trie_node_key key nibble_prefix
      in t\<lparr>db := snd (kdb_put (db t) key value)\<rparr>)"

definition hashdb_insert :: "'t trie_lib \<Rightarrow> mpt \<Rightarrow> nprefix \<Rightarrow> bytes \<Rightarrow> b32 \<times> mpt" where
  "hashdb_insert E t nibble_prefix value =
     (let key = rh_hash E value in (key, hashdb_emplace t key nibble_prefix value))"

definition hashdb_remove :: "'t trie_lib \<Rightarrow> mpt \<Rightarrow> b32 \<Rightarrow> nprefix \<Rightarrow> mpt" where
  "hashdb_remove E t key nibble_prefix =
     (if key = rh_hash E preimage_of_empty_trie_root_hash then t
      else let key = prefixed_trie_node_key key nibble_prefix
           in t\<lparr>db := kdb_delete (db t) key\<rparr>)"

text \<open>The calls of a mutable trie, made in order on the \<open>Mpt\<close> it borrows.\<close>

fun hashdb_call :: "'t trie_lib \<Rightarrow> hashdb_call \<Rightarrow> mpt \<Rightarrow> mpt" where
  "hashdb_call E (HInsert p v) t = snd (hashdb_insert E t p v)"
| "hashdb_call E (HEmplace h p v) t = hashdb_emplace t h p v"
| "hashdb_call E (HRemove h p) t = hashdb_remove E t h p"

section \<open>Operations\<close>

text \<open>
  \<open>new\<close> builds the mutable trie on a clone, so the calls its \<open>commit\<close> makes are lost with
  the clone; only the root is kept.
\<close>

definition mpt_new :: "'t trie_lib \<Rightarrow> kdb \<Rightarrow> mpt" where
  "mpt_new E d =
     (let empty_trie_root_hash = b32_bytes (rh_hash E preimage_of_empty_trie_root_hash);
          d = snd (kdb_put d empty_trie_root_hash empty_trie_dummy_root_node);
          genesis_mpt = \<lparr>db = d, root_hash = b32_fill 0\<rparr>;
          trie = tm_new E (hashdb_get genesis_mpt);
          trie = snd (tm_commit E trie)
      in \<lparr>db = d, root_hash = tm_root E trie\<rparr>)"

definition mpt_unsafe_new :: "'t trie_lib \<Rightarrow> kdb \<Rightarrow> mpt" where
  "mpt_unsafe_new E d = mpt_new E d"

definition mpt_open :: "kdb \<Rightarrow> b32 \<Rightarrow> mpt" where
  "mpt_open d r = \<lparr>db = d, root_hash = r\<rparr>"

definition mpt_get :: "'t trie_lib \<Rightarrow> mpt \<Rightarrow> bytes \<Rightarrow> mpt_error + bytes option" where
  "mpt_get E t key = map_err mpt_error_from (td_get E (hashdb_get t) (root_hash t) key)"

definition mpt_get_with_proof ::
    "'t trie_lib \<Rightarrow> mpt \<Rightarrow> bytes \<Rightarrow> mpt_error + bytes list \<times> bytes option" where
  "mpt_get_with_proof E t key =
     and_then (map_err mpt_error_from (td_get E (hashdb_get t) (root_hash t) key)) (\<lambda>value.
     and_then (map_err mpt_error_from
        (td_generate_proof E (hashdb_get t) (root_hash t) [key])) (\<lambda>proof.
     Inr (proof, value)))"

definition mpt_contains :: "'t trie_lib \<Rightarrow> mpt \<Rightarrow> bytes \<Rightarrow> mpt_error + bool" where
  "mpt_contains E t key =
     map_err mpt_error_from (td_contains E (hashdb_get t) (root_hash t) key)"

text \<open>
  \<open>from\<close> is the \<open>From<MptError>\<close> of the caller's error type; the closure's captured state
  is passed through the loop, and dropped with an error.
\<close>

definition mpt_iterate_all ::
    "'t trie_lib \<Rightarrow> mpt \<Rightarrow> (mpt_error \<Rightarrow> 'e) \<Rightarrow> (bytes \<Rightarrow> bytes \<Rightarrow> 's \<Rightarrow> 'e + 's) \<Rightarrow> 's \<Rightarrow> 'e + 's" where
  "mpt_iterate_all E t from f s =
     and_then (map_err (from \<circ> mpt_error_from) (td_iter E (hashdb_get t) (root_hash t)))
       (\<lambda>trie_iter. try_fold
          (\<lambda>item s. and_then (map_err (from \<circ> mpt_error_from) item) (\<lambda>(key, value). f key value s))
          trie_iter s)"

text \<open>
  After the mutable trie's block: \<open>commit\<close>, the new root, and the \<open>drop\<close> at the end of the
  block.  On an early return only the \<open>drop\<close> runs and the root is not replaced.
\<close>

definition mpt_finish :: "'t trie_lib \<Rightarrow> mpt \<Rightarrow> 't \<Rightarrow> mpt" where
  "mpt_finish E t trie =
     (let (calls, trie') = tm_commit E trie;
          new_root_hash = tm_root E trie';
          t' = fold (hashdb_call E) (calls @ tm_drop E trie') t
      in t'\<lparr>root_hash := new_root_hash\<rparr>)"

definition mpt_abort :: "'t trie_lib \<Rightarrow> mpt \<Rightarrow> 't \<Rightarrow> mpt" where
  "mpt_abort E t trie = fold (hashdb_call E) (tm_drop E trie) t"

definition mpt_set :: "'t trie_lib \<Rightarrow> mpt \<Rightarrow> bytes \<Rightarrow> bytes \<Rightarrow> (mpt_error + unit) \<times> mpt" where
  "mpt_set E t key value =
     (let trie = tm_from_existing E (hashdb_get t) (root_hash t)
      in case tm_insert E trie key value of
           (Some err, trie) \<Rightarrow> (Inl (mpt_error_from err), mpt_abort E t trie)
         | (None, trie) \<Rightarrow> (Inr (), mpt_finish E t trie))"

fun insert_all :: "'t trie_lib \<Rightarrow> (bytes \<times> bytes) list \<Rightarrow> 't \<Rightarrow> trie_error option \<times> 't" where
  "insert_all E [] trie = (None, trie)"
| "insert_all E ((key, value) # kvs) trie =
     (case tm_insert E trie key value of
        (Some err, trie) \<Rightarrow> (Some err, trie)
      | (None, trie) \<Rightarrow> insert_all E kvs trie)"

definition mpt_batch_set ::
    "'t trie_lib \<Rightarrow> mpt \<Rightarrow> (bytes \<times> bytes) list \<Rightarrow> (mpt_error + unit) \<times> mpt" where
  "mpt_batch_set E t data =
     (let trie = tm_from_existing E (hashdb_get t) (root_hash t)
      in case insert_all E (visit (hash_order E) data) trie of
           (Some err, trie) \<Rightarrow> (Inl (mpt_error_from err), mpt_abort E t trie)
         | (None, trie) \<Rightarrow> (Inr (), mpt_finish E t trie))"

definition mpt_remove :: "'t trie_lib \<Rightarrow> mpt \<Rightarrow> bytes \<Rightarrow> (mpt_error + unit) \<times> mpt" where
  "mpt_remove E t key =
     (case mpt_contains E t key of
        Inl err \<Rightarrow> (Inl err, t)
      | Inr False \<Rightarrow> (Inr (), t)
      | Inr True \<Rightarrow>
          (let trie = tm_from_existing E (hashdb_get t) (root_hash t)
           in case tm_remove E trie key of
                (Some err, trie) \<Rightarrow> (Inl (mpt_error_from err), mpt_abort E t trie)
              | (None, trie) \<Rightarrow> (Inr (), mpt_finish E t trie)))"

text \<open>The errors of the single removals are discarded.\<close>

definition mpt_batch_remove ::
    "'t trie_lib \<Rightarrow> mpt \<Rightarrow> bytes list \<Rightarrow> (mpt_error + unit) \<times> mpt" where
  "mpt_batch_remove E t key_set =
     (let trie = tm_from_existing E (hashdb_get t) (root_hash t);
          trie = fold (\<lambda>key trie. snd (tm_remove E trie key)) (visit (hash_order E) key_set) trie
      in (Inr (), mpt_finish E t trie))"

definition mpt_close :: "mpt \<Rightarrow> mpt_changes \<times> mpt" where
  "mpt_close t =
     (let (db_changes, d) = kdb_close (db t)
      in ((fst db_changes, snd db_changes, root_hash t), t\<lparr>db := d\<rparr>))"

definition mpt_deinit_and_upgrade :: "'t trie_lib \<Rightarrow> mpt \<Rightarrow> mpt_error + mpt" where
  "mpt_deinit_and_upgrade E t =
     (let empty_root_hash = b32_bytes (rh_hash E preimage_of_empty_trie_root_hash)
      in if root_hash t \<noteq> rh_hash E preimage_of_empty_trie_root_hash then Inl InvalidStateRoot
         else
           let d = (case td_iter E (hashdb_get t) (root_hash t) of
                      Inr _ \<Rightarrow> kdb_delete (db t) empty_root_hash
                    | Inl _ \<Rightarrow> db t);
               new_storage = kdb_upgrade d;
               key = b32_bytes (rh_hash E preimage_of_empty_trie_root_hash);
               new_storage = snd (kdb_put new_storage key empty_trie_dummy_root_node);
               genesis_mpt = \<lparr>db = new_storage, root_hash = b32_fill 0\<rparr>;
               trie = snd (tm_commit E (tm_new E (hashdb_get genesis_mpt)))
           in Inr \<lparr>db = new_storage, root_hash = tm_root E trie\<rparr>)"

section \<open>Proof nodes\<close>

text \<open>\<open>WSProofNode\<close>: a proof node behind the level it belongs to.\<close>

definition proof_level_accounts :: u8 where "proof_level_accounts = 0"

definition proof_level_storage :: u8 where "proof_level_storage = 1"

definition ws_proof_node :: "u8 \<Rightarrow> bytes \<Rightarrow> bytes" where
  "ws_proof_node level node_key = [] @ [level] @ node_key"

datatype key_visibility = Public | Protected

fun key_visibility_byte :: "key_visibility \<Rightarrow> u8" where
  "key_visibility_byte Public = 0"
| "key_visibility_byte Protected = 1"

section \<open>The HashDB implementation simulates the reference store\<close>

lemma prefixed_trie_node_key_ref [simp]: "prefixed_trie_node_key = ref_node_key"
  by (intro ext) (simp add: prefixed_trie_node_key_def ref_node_key_def split: option.split)

lemma empty_root_constants [simp]:
  "rh_hash E preimage_of_empty_trie_root_hash = null_root E"
  "empty_trie_dummy_root_node = [0]"
  by (simp_all add: preimage_of_empty_trie_root_hash_def empty_trie_dummy_root_node_def null_root_def)

lemma ref_node_key_root [simp]: "ref_node_key h ([], None) = b32_bytes h"
  by (simp add: ref_node_key_def)

lemma hashdb_get_view: "hashdb_get t = ref_view (kdb_get (db t))"
  by (intro ext) (simp add: hashdb_get_def ref_view_def)

lemma hashdb_call_store: "kdb_get (db (hashdb_call E c t)) = ref_call E c (kdb_get (db t))"
  by (cases c)
     (simp_all add: hashdb_insert_def hashdb_emplace_def hashdb_remove_def Let_def
        kdb.get_put kdb.get_del)

lemma hashdb_calls_store:
  "kdb_get (db (fold (hashdb_call E) cs t)) = fold (ref_call E) cs (kdb_get (db t))"
  by (induction cs arbitrary: t) (simp_all add: hashdb_call_store)

text \<open>What the calls leave alone.\<close>

definition same_frame :: "mpt \<Rightarrow> mpt \<Rightarrow> bool" where
  "same_frame t t' \<longleftrightarrow>
     storage (db t') = storage (db t) \<and> prefix (db t') = prefix (db t) \<and>
     kdb_version (db t') = kdb_version (db t) \<and> (kdb_inv (db t) \<longrightarrow> kdb_inv (db t')) \<and>
     touched (db t') \<subseteq> touched (db t) \<union> keyspace (kdb_version (db t)) (prefix (db t))"

lemma same_frame_refl [simp, intro]: "same_frame t t"
  by (simp add: same_frame_def)

lemma same_frame_trans [trans]: "same_frame t u \<Longrightarrow> same_frame u v \<Longrightarrow> same_frame t v"
  by (auto simp: same_frame_def)

lemma same_frame_root [simp]: "same_frame t (u\<lparr>root_hash := r\<rparr>) = same_frame t u"
  by (simp add: same_frame_def)

lemma hashdb_call_frame: "same_frame t (hashdb_call E c t)"
  by (cases c)
     (simp_all add: same_frame_def hashdb_insert_def hashdb_emplace_def hashdb_remove_def Let_def
        touched_put touched_delete)

lemma hashdb_call_root [simp]: "root_hash (hashdb_call E c t) = root_hash t"
  by (cases c) (simp_all add: hashdb_insert_def hashdb_emplace_def hashdb_remove_def Let_def)

lemma hashdb_calls_root [simp]: "root_hash (fold (hashdb_call E) cs t) = root_hash t"
  by (induction cs arbitrary: t) simp_all

lemma hashdb_calls_frame: "same_frame t (fold (hashdb_call E) cs t)"
  by (induction cs arbitrary: t) (auto intro: same_frame_trans hashdb_call_frame)

lemma mpt_finish_frame: "same_frame t (mpt_finish E t trie)"
  unfolding mpt_finish_def Let_def
  by (simp add: hashdb_calls_frame del: fold_append split: prod.split)


section \<open>The operations under the contract\<close>

text \<open>\<open>t\<close> is a complete trie with content \<open>m\<close>, as read through its database.\<close>

definition mpt_holds :: "'t trie_model \<Rightarrow> mpt \<Rightarrow> content \<Rightarrow> bool" where
  "mpt_holds M t m \<longleftrightarrow> holds M (kdb_get (db t)) (root_hash t) m"

text \<open>The content after setting all entries of a map with distinct keys.\<close>

definition put_all :: "(bytes \<times> bytes) list \<Rightarrow> content \<Rightarrow> content" where
  "put_all kvs m k =
     (case map_of kvs k of None \<Rightarrow> m k | Some v \<Rightarrow> if v = [] then None else Some v)"

lemma put_all_Nil [simp]: "put_all [] m = m"
  by (rule ext) (simp add: put_all_def)

lemma put_all_cong: "map_of xs = map_of ys \<Longrightarrow> put_all xs m = put_all ys m"
  by (rule ext) (simp add: put_all_def)

lemma put_all_Cons:
  assumes "k \<notin> fst ` set kvs"
  shows "put_all ((k, v) # kvs) m = put_all kvs (put_content k v m)"
proof
  fix x
  have "map_of kvs k = None" using assms by (simp add: map_of_eq_None_iff)
  then show "put_all ((k, v) # kvs) m x = put_all kvs (put_content k v m) x"
    by (cases "x = k") (simp_all add: put_all_def put_content_def split: option.split)
qed

lemma mpt_get_ok: "trie_contract E M \<Longrightarrow> mpt_holds M t m \<Longrightarrow> mpt_get E t k = Inr (m k)"
  by (simp add: mpt_get_def mpt_holds_def hashdb_get_view trie_get)

lemma mpt_contains_ok:
  "trie_contract E M \<Longrightarrow> mpt_holds M t m \<Longrightarrow> mpt_contains E t k = Inr (m k \<noteq> None)"
  by (simp add: mpt_contains_def mpt_holds_def hashdb_get_view trie_contains)

lemma mpt_get_with_proof_ok:
  assumes "trie_contract E M" "mpt_holds M t m"
  shows "\<exists>p. mpt_get_with_proof E t k = Inr (p, m k)"
  using trie_proof [OF assms(1) assms(2)[unfolded mpt_holds_def], of "[k]"] assms
  by (auto simp: mpt_get_with_proof_def mpt_holds_def hashdb_get_view trie_get)

lemma try_fold_items:
  "try_fold (\<lambda>item s. and_then (map_err g item) (\<lambda>(key, value). f key value s)) (map Inr xs) s =
   try_fold (\<lambda>(key, value). f key value) xs s"
proof (induction xs arbitrary: s)
  case (Cons x xs)
  then show ?case by (cases x; cases "f (fst x) (snd x) s") auto
qed simp

lemma mpt_iterate_all_ok:
  assumes "trie_contract E M" "mpt_holds M t m"
  obtains xs where "distinct (map fst xs)" and "map_of xs = m"
    and "mpt_iterate_all E t from f s = try_fold (\<lambda>(key, value). f key value) xs s"
proof -
  obtain xs where xs: "td_iter E (ref_view (kdb_get (db t))) (root_hash t) = Inr (map Inr xs)"
    "distinct (map fst xs)" "map_of xs = m"
    using trie_iter assms unfolding mpt_holds_def by blast
  then show thesis
    by (intro that [of xs]) (simp_all add: mpt_iterate_all_def hashdb_get_view try_fold_items)
qed

text \<open>
  Which physical keys a trie has touched: those of nodes of contents that satisfy \<open>W\<close>.  An operation
  from content \<open>m\<close> to content \<open>m'\<close> touches nodes of these two only.
\<close>

definition content_keys :: "'t trie_model \<Rightarrow> kdb \<Rightarrow> content \<Rightarrow> bytes set" where
  "content_keys M d m = {build_key d (prefixed_trie_node_key h p) |h p. is_node M m h p}"

definition touched_by :: "'t trie_model \<Rightarrow> (content \<Rightarrow> bool) \<Rightarrow> mpt \<Rightarrow> bool" where
  "touched_by M W t \<longleftrightarrow> touched (db t) \<subseteq> (\<Union>m \<in> {m. W m}. content_keys M (db t) m)"

definition touches :: "'t trie_model \<Rightarrow> content \<Rightarrow> content \<Rightarrow> mpt \<Rightarrow> mpt \<Rightarrow> bool" where
  "touches M m m' t t' \<longleftrightarrow> same_frame t t' \<and>
     touched (db t') \<subseteq> touched (db t) \<union> content_keys M (db t) m \<union> content_keys M (db t) m'"

lemma content_keysI: "is_node M m h p \<Longrightarrow> build_key d (ref_node_key h p) \<in> content_keys M d m"
  by (auto simp: content_keys_def simp del: split_paired_Ex)

lemma touches_frame: "touches M m m' t t' \<Longrightarrow> same_frame t t'"
  by (simp add: touches_def)

lemma touches_refl [simp]: "touches M m m' t t"
  by (auto simp: touches_def)

lemma content_keys_frame: "same_frame t t' \<Longrightarrow> content_keys M (db t') m = content_keys M (db t) m"
  by (simp add: same_frame_def content_keys_def build_key_tag)

lemma touched_by_touches:
  "touched_by M W t \<Longrightarrow> touches M m m' t t' \<Longrightarrow> W m \<Longrightarrow> W m' \<Longrightarrow> touched_by M W t'"
  unfolding touched_by_def using content_keys_frame [of t t' M] by (fastforce simp: touches_def)

lemma touched_by_none: "touched (db t) = {} \<Longrightarrow> touched_by M W t"
  by (simp add: touched_by_def)

lemma hashdb_call_touched:
  "call_node E c = (h, p) \<Longrightarrow>
     touched (db (hashdb_call E c t)) \<subseteq> insert (build_key (db t) (prefixed_trie_node_key h p)) (touched (db t))"
  by (cases c)
    (auto simp: hashdb_insert_def hashdb_emplace_def hashdb_remove_def Let_def touched_def)

lemma hashdb_calls_touches:
  assumes "\<forall>c \<in> set cs. case call_node E c of (h, p) \<Rightarrow> is_node M m h p \<or> is_node M m' h p"
  shows "touches M m m' t (fold (hashdb_call E) cs t)"
  using assms
proof (induction cs rule: rev_induct)
  case (snoc c cs)
  let ?t = "fold (hashdb_call E) cs t"
  obtain h p where c: "call_node E c = (h, p)" by (cases "call_node E c")
  have IH: "touches M m m' t ?t" using snoc by simp
  have key: "build_key (db ?t) k = build_key (db t) k" for k
    using touches_frame [OF IH] by (simp add: same_frame_def build_key_tag)
  have "build_key (db t) (prefixed_trie_node_key h p) \<in> content_keys M (db t) m \<union> content_keys M (db t) m'"
    using snoc.prems c by (auto intro: content_keysI)
  then have "touched (db (hashdb_call E c ?t)) \<subseteq>
      touched (db t) \<union> content_keys M (db t) m \<union> content_keys M (db t) m'"
    using hashdb_call_touched [OF c, of ?t] IH by (auto simp: touches_def key)
  then show ?case
    using same_frame_trans [OF touches_frame [OF IH] hashdb_call_frame] by (simp add: touches_def)
qed simp

lemma mpt_session:
  "trie_contract E M \<Longrightarrow> mpt_holds M t m \<Longrightarrow>
     session M (tm_from_existing E (hashdb_get t) (root_hash t)) (kdb_get (db t)) m m"
  by (simp add: mpt_holds_def hashdb_get_view trie_open)

lemma mpt_finish_ok:
  assumes "trie_contract E M" "session M trie (kdb_get (db t)) m0 m"
  shows "mpt_holds M (mpt_finish E t trie) m" and "touches M m0 m t (mpt_finish E t trie)"
proof -
  obtain calls trie' where c: "tm_commit E trie = (calls, trie')" by (cases "tm_commit E trie")
  note calls = trie_commit [OF assms c]
  show "mpt_holds M (mpt_finish E t trie) m"
    using calls c by (simp add: mpt_holds_def mpt_finish_def Let_def hashdb_calls_store)
  show "touches M m0 m t (mpt_finish E t trie)"
    using hashdb_calls_touches [where E = E and M = M and cs = calls and m = m0 and m' = m and t = t] calls c
    by (simp add: mpt_finish_def Let_def touches_def)
qed

lemma mpt_set_ok:
  assumes "trie_contract E M" "mpt_holds M t m"
  shows "\<exists>t'. mpt_set E t k v = (Inr (), t') \<and> mpt_holds M t' (put_content k v m) \<and> touches M m (put_content k v m) t t'"
proof -
  let ?s = "kdb_get (db t)"
  obtain u where u: "tm_insert E (tm_from_existing E (hashdb_get t) (root_hash t)) k v = (None, u)"
    "session M u ?s m (put_content k v m)"
    using trie_insert [OF assms(1) mpt_session [OF assms]] by blast
  have "mpt_set E t k v = (Inr (), mpt_finish E t u)"
    by (simp add: mpt_set_def u)
  then show ?thesis
    by (simp add: mpt_finish_ok [OF assms(1) u(2)])
qed

lemma insert_all_ok:
  assumes "trie_contract E M"
  shows "session M u s m0 m \<Longrightarrow> distinct (map fst kvs) \<Longrightarrow>
    \<exists>u'. insert_all E kvs u = (None, u') \<and> session M u' s m0 (put_all kvs m)"
proof (induction kvs arbitrary: u m)
  case Nil
  then show ?case by simp
next
  case (Cons kv kvs)
  obtain k v where kv: "kv = (k, v)" by (cases kv)
  obtain u' where u': "tm_insert E u k v = (None, u')" "session M u' s m0 (put_content k v m)"
    using trie_insert [OF assms Cons.prems(1)] by blast
  have "distinct (map fst kvs)" "k \<notin> fst ` set kvs"
    using Cons.prems(2) kv by auto
  with Cons.IH [OF u'(2)] u'(1) kv show ?case
    by (simp add: put_all_Cons)
qed

lemma mpt_batch_set_ok:
  assumes "trie_contract E M" "mpt_holds M t m" "distinct (map fst kvs)"
  shows "\<exists>t'. mpt_batch_set E t kvs = (Inr (), t') \<and> mpt_holds M t' (put_all kvs m) \<and> touches M m (put_all kvs m) t t'"
proof -
  let ?kvs = "visit (hash_order E) kvs"
  have v: "distinct (map fst ?kvs)" "map_of ?kvs = map_of kvs"
    using visit_map [OF trie_visit [OF assms(1)] assms(3)] by simp_all
  obtain u where u: "insert_all E ?kvs (tm_from_existing E (hashdb_get t) (root_hash t)) = (None, u)"
    "session M u (kdb_get (db t)) m (put_all ?kvs m)"
    using insert_all_ok [OF assms(1) mpt_session [OF assms(1,2)] v(1)] by blast
  have "mpt_batch_set E t kvs = (Inr (), mpt_finish E t u)"
    by (simp add: mpt_batch_set_def u)
  then show ?thesis
    using mpt_finish_ok [OF assms(1) u(2)] by (simp add: put_all_cong [OF v(2)])
qed

lemma mpt_remove_ok:
  assumes "trie_contract E M" "mpt_holds M t m"
  shows "\<exists>t'. mpt_remove E t k = (Inr (), t') \<and> mpt_holds M t' (m(k := None)) \<and> touches M m (m(k := None)) t t'"
proof (cases "m k")
  case None
  then have "m(k := None) = m" by auto
  then show ?thesis
    using assms None by (auto simp: mpt_remove_def mpt_contains_ok)
next
  case (Some v)
  obtain u where u: "tm_remove E (tm_from_existing E (hashdb_get t) (root_hash t)) k = (None, u)"
    "session M u (kdb_get (db t)) m (m(k := None))"
    using trie_remove [OF assms(1) mpt_session [OF assms]] by blast
  have "mpt_remove E t k = (Inr (), mpt_finish E t u)"
    using Some by (simp add: mpt_remove_def mpt_contains_ok [OF assms] u)
  then show ?thesis
    by (simp add: mpt_finish_ok [OF assms(1) u(2)])
qed

lemma remove_all_ok:
  assumes "trie_contract E M"
  shows "session M u s m0 m \<Longrightarrow>
    session M (fold (\<lambda>k u. snd (tm_remove E u k)) ks u) s m0 (m |` (- set ks))"
proof (induction ks arbitrary: u m)
  case Nil
  then show ?case by (simp add: restrict_map_def)
next
  case (Cons k ks)
  have "session M (snd (tm_remove E u k)) s m0 (m(k := None))"
    using trie_remove [OF assms Cons.prems, of k] by auto
  note IH = Cons.IH [OF this]
  have eq: "m(k := None) |` (- set ks) = m |` (- set (k # ks))"
    by (rule ext) (auto simp: restrict_map_def)
  show ?case
    using IH unfolding eq by (simp only: fold_simps)
qed

lemma mpt_batch_remove_ok:
  assumes "trie_contract E M" "mpt_holds M t m"
  shows "\<exists>t'. mpt_batch_remove E t ks = (Inr (), t') \<and> mpt_holds M t' (m |` (- set ks)) \<and> touches M m (m |` (- set ks)) t t'"
  using mpt_finish_ok [OF assms(1) remove_all_ok [OF assms(1) mpt_session [OF assms],
      where ks = "visit (hash_order E) ks"]]
  by (simp add: mpt_batch_remove_def Let_def
        visit_props [OF trie_visit [OF assms(1)]])

lemma mpt_new_ok:
  assumes "trie_contract E M"
  shows "mpt_holds M (mpt_new E d) Map.empty" and "root_hash (mpt_new E d) = null_root E"
    and "storage (db (mpt_new E d)) = storage d" "prefix (db (mpt_new E d)) = prefix d"
    "kdb_version (db (mpt_new E d)) = kdb_version d" "kdb_inv d \<Longrightarrow> kdb_inv (db (mpt_new E d))"
    "own_keys d \<Longrightarrow> own_keys (db (mpt_new E d))"
proof -
  show r: "root_hash (mpt_new E d) = null_root E"
    by (simp add: mpt_new_def Let_def trie_new_root [OF assms])
  show "mpt_holds M (mpt_new E d) Map.empty"
    unfolding mpt_holds_def r
    by (rule trie_null [OF assms]) (simp add: mpt_new_def Let_def kdb.get_put)
qed (simp_all add: mpt_new_def Let_def)

lemma mpt_new_touched:
  assumes "trie_contract E M" "touched d = {}" "W Map.empty"
  shows "touched_by M W (mpt_new E d)"
proof -
  have "build_key d (b32_bytes (null_root E)) \<in> content_keys M d Map.empty"
    using content_keysI [OF trie_null_node [OF assms(1)], of d] by (simp add: ref_node_key_def)
  then show ?thesis
    using assms(2,3) by (auto simp: touched_by_def mpt_new_def Let_def touched_def content_keys_def build_key_tag)
qed

lemma mpt_deinit_and_upgrade_ok:
  assumes "trie_contract E M" "root_hash t = null_root E"
  shows "\<exists>t'. mpt_deinit_and_upgrade E t = Inr t' \<and> mpt_holds M t' Map.empty \<and>
     root_hash t' = null_root E \<and> storage (db t') = storage (db t) \<and>
     prefix (db t') = prefix (db t) \<and> kdb_version (db t') = V2 \<and>
     (kdb_inv (db t) \<longrightarrow> kdb_inv (db t'))"
proof -
  define d where "d = (case td_iter E (hashdb_get t) (root_hash t) of
      Inr _ \<Rightarrow> kdb_delete (db t) (b32_bytes (null_root E)) | Inl _ \<Rightarrow> db t)"
  define t' where "t' = \<lparr>db = snd (kdb_put (kdb_upgrade d) (b32_bytes (null_root E)) [0]),
      root_hash = null_root E\<rparr>"
  have frame: "storage d = storage (db t)" "prefix d = prefix (db t)" "kdb_inv (db t) \<Longrightarrow> kdb_inv d"
    by (simp_all add: d_def split: sum.split)
  have "mpt_deinit_and_upgrade E t = Inr t'"
    by (simp add: mpt_deinit_and_upgrade_def Let_def assms(2) trie_new_root [OF assms(1)]
        d_def t'_def)
  moreover have "mpt_holds M t' Map.empty"
    by (simp add: mpt_holds_def t'_def kdb.get_put trie_null [OF assms(1)])
  ultimately show ?thesis
    by (auto simp: t'_def frame)
qed

text \<open>The upgrade of a trie: emptied, turned into version 2, and filled with new entries.\<close>

lemma mpt_rebuilt:
  assumes C: "trie_contract E M" and t: "mpt_holds M t m" and ks: "set ks = dom m" and D: "distinct (map fst D)"
  obtains t1 t2 t3 where "mpt_batch_remove E t ks = (Inr (), t1)" "mpt_deinit_and_upgrade E t1 = Inr t2"
    "mpt_batch_set E t2 D = (Inr (), t3)" "mpt_holds M t3 (put_all D Map.empty)"
    "storage (db t3) = storage (db t)" "prefix (db t3) = prefix (db t)" "kdb_version (db t3) = V2"
    "kdb_inv (db t) \<longrightarrow> kdb_inv (db t3)"
proof -
  have "m |` (- set ks) = Map.empty" by (auto simp: ks restrict_map_def)
  then obtain t1 where t1: "mpt_batch_remove E t ks = (Inr (), t1)" "mpt_holds M t1 Map.empty" "same_frame t t1"
    using mpt_batch_remove_ok [OF C t, of ks] by (auto dest: touches_frame)
  have "root_hash t1 = null_root E"
    using trie_root_null_iff [OF C] t1(2) by (simp add: mpt_holds_def)
  then obtain t2 where t2: "mpt_deinit_and_upgrade E t1 = Inr t2" "mpt_holds M t2 Map.empty"
    "storage (db t2) = storage (db t1)" "prefix (db t2) = prefix (db t1)" "kdb_version (db t2) = V2"
    "kdb_inv (db t1) \<longrightarrow> kdb_inv (db t2)"
    using mpt_deinit_and_upgrade_ok [OF C] by blast
  obtain t3 where t3: "mpt_batch_set E t2 D = (Inr (), t3)"
    "mpt_holds M t3 (put_all D Map.empty)" "same_frame t2 t3"
    using mpt_batch_set_ok [OF C t2(2) D] touches_frame by blast
  show thesis
    by (rule that [OF t1(1) t2(1) t3(1,2)]) (use t1(3) t2 t3(3) in \<open>auto simp: same_frame_def\<close>)
qed

lemma mpt_close_ok:
  "mpt_close t = ((inserts (db t), deletes (db t), root_hash t), t\<lparr>db := snd (kdb_close (db t))\<rparr>)"
  by (simp add: mpt_close_def Let_def kdb_close_def)

text \<open>A stored trie of the concrete library, for the witnesses.\<close>

definition flat_storage :: "version \<Rightarrow> bytes \<Rightarrow> (bytes \<times> bytes) list \<Rightarrow> bytes \<Rightarrow> bytes option" where
  "flat_storage V p es =
     [key_tag V p @ b32_bytes (flat_hash (enc_entries es)) \<mapsto> enc_entries es]"

definition flat_mpt :: "version \<Rightarrow> bytes \<Rightarrow> (bytes \<times> bytes) list \<Rightarrow> mpt" where
  "flat_mpt V p es = mpt_open (kdb_new V (flat_storage V p es) p) (flat_hash (enc_entries es))"

lemma flat_mpt_holds: "distinct (map fst es) \<Longrightarrow> mpt_holds flat_model (flat_mpt V p es) (map_of es)"
  by (auto simp: mpt_holds_def flat_mpt_def mpt_open_def flat_model_def ref_view_def kdb_get_fun
      build_key_tag flat_storage_def)

section \<open>Properties\<close>

text \<open>The bytes of a nibble path in a node key.\<close>

lemma flat_mpt_touched [simp]: "touched (db (flat_mpt V p es)) = {}" "touched_by M W (flat_mpt V p es)"
  by (simp_all add: touched_by_none flat_mpt_def mpt_open_def touched_def kdb_new_def)

definition path_bytes :: "nprefix \<Rightarrow> bytes" where
  "path_bytes p = fst p @ (case snd p of None \<Rightarrow> [] | Some n \<Rightarrow> [n])"

lemma ref_node_key_path: "ref_node_key h p = path_bytes p @ b32_bytes h"
  by (simp add: ref_node_key_def path_bytes_def)

lemma node_key_split: "xs @ b32_bytes h = ys @ b32_bytes g \<longleftrightarrow> xs = ys \<and> h = g"
proof -
  have "length (b32_bytes h) = length (b32_bytes g)" by simp
  then show ?thesis by (metis append_eq_append_conv b32_bytes_inject)
qed

text \<open>
  C37: With version 1 keys the storage tries of different addresses never meet in a physical key.  A
  node of the accounts trie meets a node of the storage trie of address \<open>a\<close> exactly when both
  have the same hash and the path of the first is \<open>a\<close> followed by the path of the second; then the
  value that the accounts trie writes, once applied, is what the storage trie reads.
\<close>

theorem v1_node_keys_meet:
  "(build_key (kdb_new V1 s (b32_bytes a)) k = build_key (kdb_new V1 s (b32_bytes b)) k' \<longleftrightarrow> a = b \<and> k = k') \<and>
   (build_key (kdb_new V1 s []) (prefixed_trie_node_key h p) =
      build_key (kdb_new V1 s (b32_bytes a)) (prefixed_trie_node_key g q) \<longleftrightarrow>
    h = g \<and> path_bytes p = b32_bytes a @ path_bytes q) \<and>
   kdb_get (kdb_new V1 (apply_changes (fst (kdb_close (snd (kdb_put (kdb_new V1 s [])
       (prefixed_trie_node_key h (b32_bytes a @ fst q, snd q)) v)))) s) (b32_bytes a))
     (prefixed_trie_node_key h q) = Some v"
proof (intro conjI)
  show "build_key (kdb_new V1 s (b32_bytes a)) k = build_key (kdb_new V1 s (b32_bytes b)) k' \<longleftrightarrow> a = b \<and> k = k'"
    by (simp add: build_key_def)
  show "build_key (kdb_new V1 s []) (prefixed_trie_node_key h p) =
      build_key (kdb_new V1 s (b32_bytes a)) (prefixed_trie_node_key g q) \<longleftrightarrow>
    h = g \<and> path_bytes p = b32_bytes a @ path_bytes q"
    using node_key_split [of "path_bytes p" h "b32_bytes a @ path_bytes q" g]
    by (auto simp: build_key_def ref_node_key_path)
  show "kdb_get (kdb_new V1 (apply_changes (fst (kdb_close (snd (kdb_put (kdb_new V1 s [])
       (prefixed_trie_node_key h (b32_bytes a @ fst q, snd q)) v)))) s) (b32_bytes a))
     (prefixed_trie_node_key h q) = Some v"
    by (simp add: kdb_get_fun build_key_def apply_changes_def ref_node_key_path path_bytes_def)
qed

text \<open>
  C22: The \<open>HashDB\<close> implementation simulates the node store that \<open>trie_db\<close> is specified
  against.  Whatever sequence of inserts, emplaces and removes the trie issues, the wrapper
  reads back the result of the same calls on the plain store (where removing the empty root
  node is a no-op), and \<open>get\<close> and \<open>contains\<close> are the views of that store.
\<close>

theorem hashdb_simulates_node_store:
  "kdb_get (db (fold (hashdb_call E) cs t)) = fold (ref_call E) cs (kdb_get (db t)) \<and>
   hashdb_get (fold (hashdb_call E) cs t) = ref_view (fold (ref_call E) cs (kdb_get (db t))) \<and>
   (\<forall>h p. hashdb_contains t h p = (ref_view (kdb_get (db t)) h p \<noteq> None)) \<and>
   root_hash (fold (hashdb_call E) cs t) = root_hash t"
  by (simp add: hashdb_calls_store hashdb_get_view hashdb_contains_def ref_view_def Let_def)

text \<open>
  C21: Over a trie library that keeps its contract, every edit of an \<open>Mpt\<close> succeeds and changes
  its content as on a map: \<open>set\<close> updates one key (an empty value removes it), \<open>remove\<close>
  removes one key, \<open>batch_set\<close> updates all keys of the given map whatever order the map is
  visited in, and \<open>batch_remove\<close> removes all keys of the given set.
\<close>

theorem mpt_edits:
  assumes "trie_contract E M" "mpt_holds M t m" "distinct (map fst kvs)"
  shows "(\<exists>t'. mpt_set E t k v = (Inr (), t') \<and>
           mpt_holds M t' (if v = [] then m(k := None) else m(k \<mapsto> v))) \<and>
    (\<exists>t'. mpt_remove E t k = (Inr (), t') \<and> mpt_holds M t' (m(k := None))) \<and>
    (\<exists>t'. mpt_batch_set E t kvs = (Inr (), t') \<and>
       mpt_holds M t' (\<lambda>x. case map_of kvs x of None \<Rightarrow> m x
                                    | Some v \<Rightarrow> if v = [] then None else Some v)) \<and>
    (\<exists>t'. mpt_batch_remove E t ks = (Inr (), t') \<and> mpt_holds M t' (m |` (- set ks)))"
  using mpt_set_ok [OF assms(1,2), of k v] mpt_remove_ok [OF assms(1,2), of k]
    mpt_batch_set_ok [OF assms] mpt_batch_remove_ok [OF assms(1,2), of ks]
  unfolding put_content_def put_all_def by blast

theorem mpt_edits_witness:
  "\<exists>t'. mpt_set flat_lib (flat_mpt V2 [] [([3], [4])]) [1] [2] = (Inr (), t') \<and>
     mpt_holds flat_model t' [[3] \<mapsto> [4], [1] \<mapsto> [2]]"
  using mpt_edits [OF flat_contract flat_mpt_holds [of "[([3], [4])]" V2 "[]"],
      of "[]" "[1]" "[2]"] by simp

text \<open>
  Every read of an \<open>Mpt\<close> succeeds and answers from its content; the value that comes with
  a proof is the value without one, and iterating over all entries runs the callback over
  the entries of the content, each once, until the callback fails.
\<close>

theorem mpt_reads:
  assumes "trie_contract E M" "mpt_holds M t m"
  shows "mpt_get E t k = Inr (m k) \<and> mpt_contains E t k = Inr (m k \<noteq> None) \<and>
    (\<exists>p. mpt_get_with_proof E t k = Inr (p, m k)) \<and>
    (\<exists>xs. distinct (map fst xs) \<and> map_of xs = m \<and>
       mpt_iterate_all E t g f s = try_fold (\<lambda>(key, value). f key value) xs s)"
proof -
  obtain xs where "distinct (map fst xs)" "map_of xs = m"
    "mpt_iterate_all E t g f s = try_fold (\<lambda>(key, value). f key value) xs s"
    by (rule mpt_iterate_all_ok [OF assms])
  then show ?thesis
    using mpt_get_ok [OF assms] mpt_contains_ok [OF assms] mpt_get_with_proof_ok [OF assms] by blast
qed

theorem mpt_reads_witness:
  "mpt_get flat_lib (flat_mpt V1 [] [([1], [2]), ([3], [4])]) [3] = Inr (Some [4])"
  using mpt_reads [OF flat_contract flat_mpt_holds [of "[([1], [2]), ([3], [4])]" V1 "[]"],
      THEN conjunct1, of "[3]"] by simp







end
