(* ===== verification/Accounts_Trie.thy ===== *)
theory Accounts_Trie
  imports Mpt
begin

text \<open>
  The accounts trie (\<open>accounts_trie.rs\<close>): the key format of the account fields in both
  versions, the typed getters and setters, the iteration over all accounts, and the upgrade
  from \<open>V1\<close> to \<open>V2\<close>.  The lemmas relate every operation to a map from addresses to
  accounts, \<open>account_at\<close>, read off the content of the trie.
\<close>

section \<open>Accounts and their fields\<close>

record account =
  nonce :: u64
  balance :: u64
  code :: bytes
  cbi_version :: "u32 option"
  storage_hash :: bytes

definition account_default :: account where
  "account_default =
     \<lparr>nonce = 0, balance = 0, code = [], cbi_version = None, storage_hash = []\<rparr>"

text \<open>\<open>Account::storage_hash\<close>: the outer option is the panic of the \<open>unwrap\<close>.\<close>

definition account_storage_hash :: "account \<Rightarrow> b32 option option" where
  "account_storage_hash a =
     (if storage_hash a \<noteq> [] then map_option Some (b32_try_from (storage_hash a)) else Some None)"

definition account_set_storage_hash :: "bytes \<Rightarrow> account \<Rightarrow> account" where
  "account_set_storage_hash h a = a\<lparr>storage_hash := h\<rparr>"

datatype account_field = Nonce | Balance | ContractCode | CbiVersion | StorageHash

fun account_field_byte :: "account_field \<Rightarrow> u8" where
  "account_field_byte Nonce = 0"
| "account_field_byte Balance = 1"
| "account_field_byte ContractCode = 2"
| "account_field_byte CbiVersion = 3"
| "account_field_byte StorageHash = 4"

definition account_field_try_from :: "u8 \<Rightarrow> trie_key_build_error + account_field" where
  "account_field_try_from value =
     (if value = 0 then Inr Nonce
      else if value = 1 then Inr Balance
      else if value = 2 then Inr ContractCode
      else if value = 3 then Inr CbiVersion
      else if value = 4 then Inr StorageHash
      else Inl InvalidAccountField)"

section \<open>Keys\<close>

definition account_key :: "version \<Rightarrow> b32 \<Rightarrow> account_field \<Rightarrow> bytes" where
  "account_key V address field =
     (case V of
        V1 \<Rightarrow> b32_bytes address @ [key_visibility_byte Protected] @ [account_field_byte field]
      | V2 \<Rightarrow> b32_bytes address @ [account_field_byte field])"

definition account_field_of :: "version \<Rightarrow> bytes \<Rightarrow> trie_key_build_error + account_field" where
  "account_field_of V key =
     (let account_field_byte_index = (case V of V1 \<Rightarrow> 32 + 1 | V2 \<Rightarrow> 32)
      in if length key \<le> account_field_byte_index then Inl InvalidAccountField
         else account_field_try_from (key ! account_field_byte_index))"

definition account_address :: "bytes \<Rightarrow> trie_key_build_error + b32" where
  "account_address key =
     (if length key < 32 then Inl InvalidPublicAddress
      else ok_or (b32_try_from (take 32 key)) InvalidPublicAddress)"

section \<open>The trie and its getters\<close>

record accounts_trie =
  at_trie :: mpt

definition at_version :: "accounts_trie \<Rightarrow> version" where
  "at_version T = kdb_version (db (at_trie T))"

text \<open>
  The getters return \<open>None\<close> where the Rust code panics: a stored value whose length is not
  that of the integer or of the hash.
\<close>

definition at_nonce :: "'t trie_lib \<Rightarrow> accounts_trie \<Rightarrow> b32 \<Rightarrow> (mpt_error + u64) option" where
  "at_nonce E T address =
     map_ok_panic (\<lambda>value. case value of None \<Rightarrow> Some 0 | Some value \<Rightarrow> u64_from_le value)
       (mpt_get E (at_trie T) (account_key (at_version T) address Nonce))"

definition at_balance :: "'t trie_lib \<Rightarrow> accounts_trie \<Rightarrow> b32 \<Rightarrow> (mpt_error + u64) option" where
  "at_balance E T address =
     map_ok_panic (\<lambda>value. case value of None \<Rightarrow> Some 0 | Some value \<Rightarrow> u64_from_le value)
       (mpt_get E (at_trie T) (account_key (at_version T) address Balance))"

definition at_code :: "'t trie_lib \<Rightarrow> accounts_trie \<Rightarrow> b32 \<Rightarrow> mpt_error + bytes option" where
  "at_code E T address =
     mpt_get E (at_trie T) (account_key (at_version T) address ContractCode)"

definition at_cbi_version ::
    "'t trie_lib \<Rightarrow> accounts_trie \<Rightarrow> b32 \<Rightarrow> (mpt_error + u32 option) option" where
  "at_cbi_version E T address =
     map_ok_panic (\<lambda>value. case value of None \<Rightarrow> Some None
                                       | Some value \<Rightarrow> map_option Some (u32_from_le value))
       (mpt_get E (at_trie T) (account_key (at_version T) address CbiVersion))"

definition at_storage_hash ::
    "'t trie_lib \<Rightarrow> accounts_trie \<Rightarrow> b32 \<Rightarrow> (mpt_error + b32 option) option" where
  "at_storage_hash E T address =
     map_ok_panic (\<lambda>value. case value of None \<Rightarrow> Some None
                                       | Some value \<Rightarrow> map_option Some (b32_try_from value))
       (mpt_get E (at_trie T) (account_key (at_version T) address StorageHash))"

definition at_get_with_proof_from_trie_key ::
    "'t trie_lib \<Rightarrow> accounts_trie \<Rightarrow> bytes \<Rightarrow> mpt_error + bytes list \<times> bytes option" where
  "at_get_with_proof_from_trie_key E T trie_key =
     map_ok (\<lambda>(proof, value). (map (ws_proof_node proof_level_accounts) proof, value))
       (mpt_get_with_proof E (at_trie T) trie_key)"

definition at_nonce_with_proof ::
    "'t trie_lib \<Rightarrow> accounts_trie \<Rightarrow> b32 \<Rightarrow> (mpt_error + bytes list \<times> u64) option" where
  "at_nonce_with_proof E T address =
     map_ok_panic (\<lambda>(proof, value). map_option (Pair proof)
         (case value of None \<Rightarrow> Some 0 | Some value \<Rightarrow> u64_from_le value))
       (at_get_with_proof_from_trie_key E T (account_key (at_version T) address Nonce))"

definition at_balance_with_proof ::
    "'t trie_lib \<Rightarrow> accounts_trie \<Rightarrow> b32 \<Rightarrow> (mpt_error + bytes list \<times> u64) option" where
  "at_balance_with_proof E T address =
     map_ok_panic (\<lambda>(proof, value). map_option (Pair proof)
         (case value of None \<Rightarrow> Some 0 | Some value \<Rightarrow> u64_from_le value))
       (at_get_with_proof_from_trie_key E T (account_key (at_version T) address Balance))"

definition at_code_with_proof ::
    "'t trie_lib \<Rightarrow> accounts_trie \<Rightarrow> b32 \<Rightarrow> mpt_error + bytes list \<times> bytes option" where
  "at_code_with_proof E T address =
     at_get_with_proof_from_trie_key E T (account_key (at_version T) address ContractCode)"

definition at_cbi_version_with_proof ::
    "'t trie_lib \<Rightarrow> accounts_trie \<Rightarrow> b32 \<Rightarrow> (mpt_error + bytes list \<times> u32 option) option" where
  "at_cbi_version_with_proof E T address =
     map_ok_panic (\<lambda>(proof, value). map_option (Pair proof)
         (case value of None \<Rightarrow> Some None | Some value \<Rightarrow> map_option Some (u32_from_le value)))
       (at_get_with_proof_from_trie_key E T (account_key (at_version T) address CbiVersion))"

definition at_storage_hash_with_proof ::
    "'t trie_lib \<Rightarrow> accounts_trie \<Rightarrow> b32 \<Rightarrow> (mpt_error + bytes list \<times> b32 option) option" where
  "at_storage_hash_with_proof E T address =
     map_ok_panic (\<lambda>(proof, value). map_option (Pair proof)
         (case value of None \<Rightarrow> Some None | Some value \<Rightarrow> map_option Some (b32_try_from value)))
       (at_get_with_proof_from_trie_key E T (account_key (at_version T) address StorageHash))"

text \<open>\<open>contains_nonce\<close>, \<open>contains_balance\<close>, \<open>contains_code\<close>, \<open>contains_cbi_version\<close> and
  \<open>contains_storage_hash\<close> differ in the field only.\<close>

definition at_contains :: "'t trie_lib \<Rightarrow> accounts_trie \<Rightarrow> account_field \<Rightarrow> b32 \<Rightarrow> mpt_error + bool" where
  "at_contains E T field address =
     (let key = account_key (at_version T) address field in mpt_contains E (at_trie T) key)"

section \<open>Setters\<close>

definition at_set :: "'t trie_lib \<Rightarrow> accounts_trie \<Rightarrow> bytes \<Rightarrow> bytes \<Rightarrow>
    (mpt_error + unit) \<times> accounts_trie" where
  "at_set E T key value =
     (let (r, t) = mpt_set E (at_trie T) key value in (r, T\<lparr>at_trie := t\<rparr>))"

definition at_set_nonce ::
    "'t trie_lib \<Rightarrow> accounts_trie \<Rightarrow> b32 \<Rightarrow> u64 \<Rightarrow> (mpt_error + unit) \<times> accounts_trie" where
  "at_set_nonce E T address n =
     (let nonce_key = account_key (at_version T) address Nonce;
          value = u64_to_le n
      in at_set E T nonce_key value)"

definition at_set_balance ::
    "'t trie_lib \<Rightarrow> accounts_trie \<Rightarrow> b32 \<Rightarrow> u64 \<Rightarrow> (mpt_error + unit) \<times> accounts_trie" where
  "at_set_balance E T address n =
     (let balance_key = account_key (at_version T) address Balance;
          value = u64_to_le n
      in at_set E T balance_key value)"

definition at_set_code ::
    "'t trie_lib \<Rightarrow> accounts_trie \<Rightarrow> b32 \<Rightarrow> bytes \<Rightarrow> (mpt_error + unit) \<times> accounts_trie" where
  "at_set_code E T address c =
     (let code_key = account_key (at_version T) address ContractCode in at_set E T code_key c)"

definition at_set_cbi_version ::
    "'t trie_lib \<Rightarrow> accounts_trie \<Rightarrow> b32 \<Rightarrow> u32 \<Rightarrow> (mpt_error + unit) \<times> accounts_trie" where
  "at_set_cbi_version E T address n =
     (let cbi_version_key = account_key (at_version T) address CbiVersion;
          value = u32_to_le n
      in at_set E T cbi_version_key value)"

definition at_set_storage_hash ::
    "'t trie_lib \<Rightarrow> accounts_trie \<Rightarrow> b32 \<Rightarrow> b32 \<Rightarrow> (mpt_error + unit) \<times> accounts_trie" where
  "at_set_storage_hash E T address h =
     (let storage_hash_key = account_key (at_version T) address StorageHash;
          value = b32_bytes h
      in at_set E T storage_hash_key value)"

section \<open>Opening and closing\<close>

definition at_new :: "'t trie_lib \<Rightarrow> version \<Rightarrow> (bytes \<Rightarrow> bytes option) \<Rightarrow> accounts_trie" where
  "at_new E V s = (let d = kdb_new V s [] in \<lparr>at_trie = mpt_new E d\<rparr>)"

definition at_open :: "version \<Rightarrow> (bytes \<Rightarrow> bytes option) \<Rightarrow> b32 \<Rightarrow> accounts_trie" where
  "at_open V s state_hash = (let d = kdb_new V s [] in \<lparr>at_trie = mpt_open d state_hash\<rparr>)"

definition at_close :: "accounts_trie \<Rightarrow> mpt_changes \<times> accounts_trie" where
  "at_close T = (let (c, t) = mpt_close (at_trie T) in (c, T\<lparr>at_trie := t\<rparr>))"

section \<open>All accounts\<close>

text \<open>The value of one field, decoded into the account it belongs to.\<close>

definition decode_error :: "'a option \<Rightarrow> world_state_error + 'a" where
  "decode_error x = ok_or x (DecodeOrEncodeError DecodeError)"

fun read_field :: "account_field \<Rightarrow> bytes \<Rightarrow> account \<Rightarrow> world_state_error + account" where
  "read_field Nonce value a = map_ok (\<lambda>n. a\<lparr>nonce := n\<rparr>) (decode_error (u64_from_le value))"
| "read_field Balance value a = map_ok (\<lambda>n. a\<lparr>balance := n\<rparr>) (decode_error (u64_from_le value))"
| "read_field ContractCode value a = Inr (a\<lparr>code := value\<rparr>)"
| "read_field CbiVersion value a =
     map_ok (\<lambda>n. a\<lparr>cbi_version := Some n\<rparr>) (decode_error (u32_from_le value))"
| "read_field StorageHash value a = Inr (account_set_storage_hash value a)"

text \<open>The body of the closures of \<open>all\<close> and \<open>upgrade\<close>.\<close>

definition read_entry :: "version \<Rightarrow> bytes \<Rightarrow> bytes \<Rightarrow> (b32 \<times> account) list \<Rightarrow>
    world_state_error + (b32 \<times> account) list" where
  "read_entry V key value ret_map =
     and_then (map_err TrieKeyBuildError (account_address key)) (\<lambda>address.
     and_then (map_err TrieKeyBuildError (account_field_of V key)) (\<lambda>field.
       let account_value = (case map_of ret_map address of
                              Some account \<Rightarrow> account
                            | None \<Rightarrow> account_default)
       in map_ok (\<lambda>account. hm_insert address account ret_map)
            (read_field field value account_value)))"

definition at_all :: "'t trie_lib \<Rightarrow> accounts_trie \<Rightarrow> world_state_error + (b32 \<times> account) list" where
  "at_all E T = mpt_iterate_all E (at_trie T) MptError (read_entry (at_version T)) []"

section \<open>Upgrade\<close>

text \<open>
  The body of the loop that rebuilds one account: its non-default fields under their \<open>V2\<close>
  keys, and its storage hash apart.  \<open>None\<close> is the panic of \<open>Account::storage_hash\<close>.
\<close>

definition upgrade_account :: "b32 \<times> account \<Rightarrow> (bytes \<times> bytes) list \<times> (b32 \<times> b32) list \<Rightarrow>
    ((bytes \<times> bytes) list \<times> (b32 \<times> b32) list) option" where
  "upgrade_account e maps =
     (let (address, account) = e;
          (info, storage_info) = maps;
          info = (if nonce account \<noteq> 0
                  then hm_insert (account_key V2 address Nonce) (u64_to_le (nonce account)) info
                  else info);
          info = (if balance account \<noteq> 0
                  then hm_insert (account_key V2 address Balance) (u64_to_le (balance account)) info
                  else info);
          info = (if code account \<noteq> []
                  then hm_insert (account_key V2 address ContractCode) (code account) info
                  else info);
          info = (case cbi_version account of
                    Some v \<Rightarrow> hm_insert (account_key V2 address CbiVersion) (u32_to_le v) info
                  | None \<Rightarrow> info)
      in do {
        h \<leftarrow> account_storage_hash account;
        Some (info, case h of Some h \<Rightarrow> hm_insert address h storage_info
                            | None \<Rightarrow> storage_info)
      })"

fun upgrade_accounts :: "(b32 \<times> account) list \<Rightarrow> (bytes \<times> bytes) list \<times> (b32 \<times> b32) list \<Rightarrow>
    ((bytes \<times> bytes) list \<times> (b32 \<times> b32) list) option" where
  "upgrade_accounts [] maps = Some maps"
| "upgrade_accounts (e # es) maps = Option.bind (upgrade_account e maps) (upgrade_accounts es)"

definition at_upgrade :: "'t trie_lib \<Rightarrow> accounts_trie \<Rightarrow>
    (world_state_error + accounts_trie \<times> (b32 \<times> b32) list) option" where
  "at_upgrade E T =
     (case mpt_iterate_all E (at_trie T) MptError
             (\<lambda>key value (key_set, data_map).
                let key_set = hs_insert key key_set
                in map_ok (Pair key_set) (read_entry V1 key value data_map)) ([], []) of
        Inl e \<Rightarrow> Some (Inl e)
      | Inr (key_set, data_map) \<Rightarrow>
     (case mpt_batch_remove E (at_trie T) key_set of
        (Inl e, _) \<Rightarrow> Some (Inl (MptError e))
      | (Inr (), t) \<Rightarrow>
     (case mpt_deinit_and_upgrade E t of
        Inl e \<Rightarrow> Some (Inl (MptError e))
      | Inr trie_v2 \<Rightarrow>
     (case upgrade_accounts (visit (hash_order E) data_map) ([], []) of
        None \<Rightarrow> None
      | Some (account_info_map, storage_info_map) \<Rightarrow>
     (case mpt_batch_set E trie_v2 account_info_map of
        (Inl e, _) \<Rightarrow> Some (Inl (MptError e))
      | (Inr (), trie_v2) \<Rightarrow> Some (Inr (\<lparr>at_trie = trie_v2\<rparr>, storage_info_map)))))))"

section \<open>Lemmas on keys\<close>

lemma account_field_byte_inj [simp]: "account_field_byte f = account_field_byte g \<longleftrightarrow> f = g"
  by (cases f; cases g) simp_all

lemma account_key_inj [simp, key_simps]:
  "account_key V a f = account_key V b g \<longleftrightarrow> a = b \<and> f = g"
  by (cases V) (simp_all add: account_key_def)

lemma account_field_try_from_byte [simp]: "account_field_try_from (account_field_byte f) = Inr f"
  by (cases f) (simp_all add: account_field_try_from_def)

lemma account_field_of_key [simp, codec_simps]: "account_field_of V (account_key V a f) = Inr f"
  by (cases V) (simp_all add: account_field_of_def account_key_def nth_append)

lemma account_address_key [simp, codec_simps]: "account_address (account_key V a f) = Inr a"
  by (cases V) (simp_all add: account_address_def account_key_def)

section \<open>The accounts a trie content stands for\<close>

definition field_ok :: "account_field \<Rightarrow> bytes \<Rightarrow> bool" where
  "field_ok f v \<longleftrightarrow>
     v \<noteq> [] \<and>
     (case f of Nonce \<Rightarrow> length v = 8 | Balance \<Rightarrow> length v = 8 | ContractCode \<Rightarrow> True
              | CbiVersion \<Rightarrow> length v = 4 | StorageHash \<Rightarrow> length v = 32)"

text \<open>Every entry is a field of some account, with a value of the field's size.\<close>

definition accounts_wf :: "version \<Rightarrow> content \<Rightarrow> bool" where
  "accounts_wf V m \<longleftrightarrow>
     (\<forall>k v. m k = Some v \<longrightarrow> (\<exists>a f. k = account_key V a f \<and> field_ok f v))"

definition account_at :: "version \<Rightarrow> content \<Rightarrow> b32 \<Rightarrow> account" where
  "account_at V m a =
     \<lparr>nonce = (case m (account_key V a Nonce) of None \<Rightarrow> 0 | Some v \<Rightarrow> from_le v),
      balance = (case m (account_key V a Balance) of None \<Rightarrow> 0 | Some v \<Rightarrow> from_le v),
      code = (case m (account_key V a ContractCode) of None \<Rightarrow> [] | Some v \<Rightarrow> v),
      cbi_version = map_option from_le (m (account_key V a CbiVersion)),
      storage_hash = (case m (account_key V a StorageHash) of None \<Rightarrow> [] | Some v \<Rightarrow> v)\<rparr>"

definition known_account :: "version \<Rightarrow> content \<Rightarrow> b32 \<Rightarrow> bool" where
  "known_account V m a \<longleftrightarrow> (\<exists>f. m (account_key V a f) \<noteq> None)"

text \<open>The map of accounts, as \<open>all\<close> returns it.\<close>

definition accounts_of :: "version \<Rightarrow> content \<Rightarrow> b32 \<Rightarrow> account option" where
  "accounts_of V m a = (if known_account V m a then Some (account_at V m a) else None)"

lemma accounts_wf_empty [simp]: "accounts_wf V Map.empty"
  by (simp add: accounts_wf_def)

lemma accounts_wf_eqI:
  assumes "accounts_wf V m" "accounts_wf V m'" "\<And>a f. m (account_key V a f) = m' (account_key V a f)"
  shows "m = m'"
proof
  fix k show "m k = m' k"
  proof (cases "\<exists>a f. k = account_key V a f")
    case False
    then have "m k = None" "m' k = None"
      using assms(1,2) unfolding accounts_wf_def by (metis not_None_eq)+
    then show ?thesis by simp
  qed (use assms(3) in blast)
qed

lemma accounts_wf_put:
  "accounts_wf V m \<Longrightarrow> v \<noteq> [] \<longrightarrow> field_ok f v \<Longrightarrow> accounts_wf V (put_content (account_key V a f) v m)"
  by (auto simp: accounts_wf_def put_content_def)

lemma accounts_wf_field:
  assumes "accounts_wf V m" "m (account_key V a f) = Some v"
  shows "field_ok f v"
  using assms by (fastforce simp: accounts_wf_def)

text \<open>The effect of one stored field on the account it belongs to.\<close>

fun write_field :: "account_field \<Rightarrow> bytes \<Rightarrow> account \<Rightarrow> account" where
  "write_field Nonce v a = a\<lparr>nonce := from_le v\<rparr>"
| "write_field Balance v a = a\<lparr>balance := from_le v\<rparr>"
| "write_field ContractCode v a = a\<lparr>code := v\<rparr>"
| "write_field CbiVersion v a = a\<lparr>cbi_version := Some (from_le v)\<rparr>"
| "write_field StorageHash v a = a\<lparr>storage_hash := v\<rparr>"

lemma read_field_ok: "field_ok f v \<Longrightarrow> read_field f v a = Inr (write_field f v a)"
  by (cases f)
     (auto simp: field_ok_def decode_error_def try_from_le_def account_set_storage_hash_def)

lemma account_at_upd:
  "account_at V (m(account_key V a f \<mapsto> v)) b =
     (if b = a then write_field f v (account_at V m b) else account_at V m b)"
  by (cases f) (simp_all add: account_at_def)

lemma account_at_empty [simp]: "account_at V Map.empty a = account_default"
  by (simp add: account_at_def account_default_def)

lemma known_account_upd:
  "known_account V (m(account_key V a f \<mapsto> v)) b \<longleftrightarrow> b = a \<or> known_account V m b"
  by (auto simp: known_account_def)

lemma not_known_account_at: "\<not> known_account V m a \<Longrightarrow> account_at V m a = account_default"
  by (simp add: known_account_def account_at_def account_default_def)

lemma accounts_of_upd:
  "accounts_of V (m(account_key V a f \<mapsto> v)) =
     (accounts_of V m)(a \<mapsto> write_field f v (account_at V m a))"
  by (rule ext) (simp add: accounts_of_def known_account_upd account_at_upd)

section \<open>Getters and setters against the account map\<close>

text \<open>As for the storage tries, the history is well formed in version 1.\<close>

definition at_holds :: "'t trie_model \<Rightarrow> accounts_trie \<Rightarrow> content \<Rightarrow> bool" where
  "at_holds M T m \<longleftrightarrow> mpt_holds M (at_trie T) m \<and> accounts_wf (at_version T) m \<and>
     (at_version T = V1 \<longrightarrow> touched_by M (accounts_wf V1) (at_trie T))"

lemma at_holdsD: "at_holds M T m \<Longrightarrow> mpt_holds M (at_trie T) m"
  by (simp add: at_holds_def)

lemma at_holds_wf: "at_holds M T m \<Longrightarrow> accounts_wf (at_version T) m"
  by (simp add: at_holds_def)

lemma at_holds_history: "at_holds M T m \<Longrightarrow> at_version T = V1 \<Longrightarrow> touched_by M (accounts_wf V1) (at_trie T)"
  by (simp add: at_holds_def)

lemma at_field:
  "at_holds M T m \<Longrightarrow> m (account_key (at_version T) a f) = Some v \<Longrightarrow> field_ok f v"
  by (auto simp: at_holds_def intro: accounts_wf_field)

lemmas at_getter_defs = at_nonce_def at_balance_def at_code_def at_cbi_version_def
  at_storage_hash_def

lemma at_getters_ok:
  assumes "trie_contract E M" "at_holds M T m"
  shows "at_nonce E T a = Some (Inr (nonce (account_at (at_version T) m a)))"
    and "at_balance E T a = Some (Inr (balance (account_at (at_version T) m a)))"
    and "at_code E T a = Inr (m (account_key (at_version T) a ContractCode))"
    and "at_cbi_version E T a = Some (Inr (cbi_version (account_at (at_version T) m a)))"
    and "at_storage_hash E T a =
      Some (Inr (Option.bind (m (account_key (at_version T) a StorageHash)) b32_try_from))"
  using mpt_get_ok [OF assms(1) at_holdsD [OF assms(2)]] at_field [OF assms(2)]
  by (fastforce simp: at_getter_defs account_at_def field_ok_def try_from_le_def b32_try_from_def
        split: option.split)+

lemma at_contains_ok:
  assumes "trie_contract E M" "at_holds M T m"
  shows "at_contains E T f a = Inr (m (account_key (at_version T) a f) \<noteq> None)"
  using mpt_contains_ok [OF assms(1) at_holdsD [OF assms(2)]] by (simp add: at_contains_def)

lemma at_set_ok:
  assumes "trie_contract E M" "at_holds M T m" "v \<noteq> [] \<longrightarrow> field_ok f v"
  shows "\<exists>T'. at_set E T (account_key (at_version T) a f) v = (Inr (), T') \<and>
     at_holds M T' (put_content (account_key (at_version T) a f) v m) \<and>
     same_frame (at_trie T) (at_trie T')"
proof -
  let ?k = "account_key (at_version T) a f"
  have wf: "accounts_wf (at_version T) m" "accounts_wf (at_version T) (put_content ?k v m)"
    using assms(2,3) by (simp_all add: at_holds_def accounts_wf_put)
  obtain t where t: "mpt_set E (at_trie T) ?k v = (Inr (), t)" "mpt_holds M t (put_content ?k v m)"
    "touches M m (put_content ?k v m) (at_trie T) t"
    using mpt_set_ok [OF assms(1) at_holdsD [OF assms(2)]] by blast
  note f = touches_frame [OF t(3)]
  have "touched_by M (accounts_wf V1) t" if "at_version T = V1"
    using touched_by_touches [OF at_holds_history [OF assms(2) that] t(3)] wf that by simp
  then show ?thesis
    using t f wf(2) by (simp add: at_set_def at_holds_def at_version_def same_frame_def)
qed

lemma same_frame_version: "same_frame (at_trie T) (at_trie T') \<Longrightarrow> at_version T' = at_version T"
  by (simp add: same_frame_def at_version_def)

section \<open>Iterating over the accounts\<close>

lemma read_entry_ok:
  assumes "map_of R = accounts_of V m" "field_ok f v"
  shows "read_entry V (account_key V a f) v R = Inr (hm_insert a (write_field f v (account_at V m a)) R)"
proof -
  have "(case map_of R a of None \<Rightarrow> account_default | Some acct \<Rightarrow> acct) = account_at V m a"
    by (simp add: assms(1) accounts_of_def not_known_account_at)
  then show ?thesis
    by (simp add: read_entry_def read_field_ok [OF assms(2)])
qed

lemma read_entries_ok:
  assumes "\<forall>(k, v) \<in> set xs. \<exists>a f. k = account_key V a f \<and> field_ok f v"
    and "distinct (map fst xs)"
  shows "\<exists>R. try_fold (\<lambda>(k, v). read_entry V k v) xs [] = Inr R \<and> distinct (map fst R) \<and>
     map_of R = accounts_of V (map_of xs)"
  using assms
proof (induction xs rule: rev_induct)
  case Nil
  then show ?case by (auto simp: accounts_of_def known_account_def fun_eq_iff)
next
  case (snoc x xs)
  obtain k v where x: "x = (k, v)" by (cases x)
  obtain a f where k: "k = account_key V a f" "field_ok f v"
    using snoc.prems(1) x by auto
  obtain R where R: "try_fold (\<lambda>(k, v). read_entry V k v) xs [] = Inr R" "distinct (map fst R)"
    "map_of R = accounts_of V (map_of xs)"
    using snoc by auto
  have "k \<notin> fst ` set xs" using snoc.prems(2) x by auto
  then have m: "map_of (xs @ [x]) = (map_of xs)(k \<mapsto> v)"
    unfolding x by (rule map_of_snoc)
  define R' where "R' = hm_insert a (write_field f v (account_at V (map_of xs) a)) R"
  have "try_fold (\<lambda>(k, v). read_entry V k v) (xs @ [x]) [] = Inr R'"
    by (simp add: try_fold_append R(1) x k(1) read_entry_ok [OF R(3) k(2)] R'_def)
  moreover have "map_of R' = accounts_of V (map_of (xs @ [x]))"
    unfolding m k(1) accounts_of_upd R'_def R(3)[symmetric] by (rule map_of_hm_insert)
  ultimately show ?case
    using R(2) by (auto simp: R'_def)
qed

lemma content_entries:
  assumes "accounts_wf V m" "map_of xs = m" "distinct (map fst xs)"
  shows "\<forall>(k, v) \<in> set xs. \<exists>a f. k = account_key V a f \<and> field_ok f v"
  using assms by (auto simp: accounts_wf_def)

lemma at_all_ok:
  assumes "trie_contract E M" "at_holds M T m"
  shows "\<exists>R. at_all E T = Inr R \<and> distinct (map fst R) \<and> map_of R = accounts_of (at_version T) m"
proof -
  obtain xs where xs: "distinct (map fst xs)" "map_of xs = m"
    "at_all E T = try_fold (\<lambda>(k, v). read_entry (at_version T) k v) xs []"
    unfolding at_all_def by (rule mpt_iterate_all_ok [OF assms(1) at_holdsD [OF assms(2)]])
  have "accounts_wf (at_version T) m" using assms(2) by (simp add: at_holds_def)
  from read_entries_ok [OF content_entries [OF this xs(2,1)] xs(1)]
  show ?thesis by (simp only: xs(2,3))
qed

section \<open>The upgrade\<close>

text \<open>The bytes the upgrade writes for a field of an account, if it writes any.\<close>

fun info_of :: "account \<Rightarrow> account_field \<Rightarrow> bytes option" where
  "info_of a Nonce = (if nonce a \<noteq> 0 then Some (u64_to_le (nonce a)) else None)"
| "info_of a Balance = (if balance a \<noteq> 0 then Some (u64_to_le (balance a)) else None)"
| "info_of a ContractCode = (if code a \<noteq> [] then Some (code a) else None)"
| "info_of a CbiVersion = map_option u32_to_le (cbi_version a)"
| "info_of a StorageHash = None"

definition hash_ok :: "account \<Rightarrow> bool" where
  "hash_ok a \<longleftrightarrow> storage_hash a = [] \<or> length (storage_hash a) = 32"

definition over :: "'v option \<Rightarrow> 'v option \<Rightarrow> 'v option" where
  "over x y = (case x of None \<Rightarrow> y | Some v \<Rightarrow> Some v)"

lemma over_simps [simp]: "over None y = y" "over (Some v) y = Some v" "over x None = x"
  by (simp_all add: over_def split: option.split)

lemma upgrade_account_ok:
  assumes "hash_ok acct" "distinct (map fst info)" "distinct (map fst st)"
  shows "\<exists>info' st'. upgrade_account (a, acct) (info, st) = Some (info', st') \<and>
     distinct (map fst info') \<and> distinct (map fst st') \<and>
     (\<forall>b f. map_of info' (account_key V2 b f) =
        (if b = a then over (info_of acct f) (map_of info (account_key V2 b f))
         else map_of info (account_key V2 b f))) \<and>
     (\<forall>k. (\<forall>b f. k \<noteq> account_key V2 b f) \<longrightarrow> map_of info' k = map_of info k) \<and>
     (\<forall>b. map_of st' b =
        (if b = a \<and> storage_hash acct \<noteq> [] then b32_try_from (storage_hash acct) else map_of st b))"
proof -
  define info' where "info' = (let
      info = (if nonce acct \<noteq> 0
              then hm_insert (account_key V2 a Nonce) (u64_to_le (nonce acct)) info else info);
      info = (if balance acct \<noteq> 0
              then hm_insert (account_key V2 a Balance) (u64_to_le (balance acct)) info else info);
      info = (if code acct \<noteq> []
              then hm_insert (account_key V2 a ContractCode) (code acct) info else info)
    in (case cbi_version acct of
          Some v \<Rightarrow> hm_insert (account_key V2 a CbiVersion) (u32_to_le v) info | None \<Rightarrow> info))"
  define st' where "st' = (if storage_hash acct = [] then st
    else hm_insert a (b32_pad (storage_hash acct)) st)"
  have "upgrade_account (a, acct) (info, st) = Some (info', st')"
    using assms(1)
    by (auto simp: upgrade_account_def info'_def st'_def Let_def account_storage_hash_def
        b32_try_from_def hash_ok_def split: option.split)
  moreover have "distinct (map fst info') \<and> distinct (map fst st')"
    using assms by (simp add: info'_def st'_def Let_def split: option.split)
  moreover have "map_of info' (account_key V2 b f) =
        (if b = a then over (info_of acct f) (map_of info (account_key V2 b f))
         else map_of info (account_key V2 b f))" for b f
    by (cases f) (simp_all add: info'_def Let_def split: option.split)
  moreover have "\<forall>b f. k \<noteq> account_key V2 b f \<Longrightarrow> map_of info' k = map_of info k" for k
    by (simp add: info'_def Let_def split: option.split)
  moreover have "map_of st' b = (if b = a \<and> storage_hash acct \<noteq> []
      then b32_try_from (storage_hash acct) else map_of st b)" for b
    using assms(1) by (auto simp: st'_def b32_try_from_def hash_ok_def)
  ultimately show ?thesis by blast
qed

lemma upgrade_accounts_ok:
  assumes "\<forall>(a, acct) \<in> set es. hash_ok acct" "distinct (map fst es)"
    "distinct (map fst info)" "distinct (map fst st)"
  shows "\<exists>info' st'. upgrade_accounts es (info, st) = Some (info', st') \<and>
     distinct (map fst info') \<and> distinct (map fst st') \<and>
     (\<forall>b f. map_of info' (account_key V2 b f) =
        over (Option.bind (map_of es b) (\<lambda>acct. info_of acct f)) (map_of info (account_key V2 b f))) \<and>
     (\<forall>k. (\<forall>b f. k \<noteq> account_key V2 b f) \<longrightarrow> map_of info' k = map_of info k) \<and>
     (\<forall>b. map_of st' b = over (Option.bind (map_of es b) (\<lambda>acct.
        if storage_hash acct = [] then None else b32_try_from (storage_hash acct))) (map_of st b))"
  using assms
proof (induction es arbitrary: info st)
  case Nil
  then show ?case by simp
next
  case (Cons e es)
  obtain a acct where e: "e = (a, acct)" by (cases e)
  have ok: "hash_ok acct" "a \<notin> fst ` set es" "map_of es a = None"
    using Cons.prems e by (auto simp: map_of_eq_None_iff)
  obtain info1 st1 where 1: "upgrade_account (a, acct) (info, st) = Some (info1, st1)"
    "distinct (map fst info1)" "distinct (map fst st1)"
    "\<And>b f. map_of info1 (account_key V2 b f) =
        (if b = a then over (info_of acct f) (map_of info (account_key V2 b f))
         else map_of info (account_key V2 b f))"
    "\<And>k. \<forall>b f. k \<noteq> account_key V2 b f \<Longrightarrow> map_of info1 k = map_of info k"
    "\<And>b. map_of st1 b =
        (if b = a \<and> storage_hash acct \<noteq> [] then b32_try_from (storage_hash acct) else map_of st b)"
    using upgrade_account_ok [OF ok(1) Cons.prems(3,4), of a] by blast
  obtain info2 st2 where 2: "upgrade_accounts es (info1, st1) = Some (info2, st2)"
    "distinct (map fst info2)" "distinct (map fst st2)"
    "\<And>b f. map_of info2 (account_key V2 b f) =
        over (Option.bind (map_of es b) (\<lambda>acct. info_of acct f)) (map_of info1 (account_key V2 b f))"
    "\<And>k. \<forall>b f. k \<noteq> account_key V2 b f \<Longrightarrow> map_of info2 k = map_of info1 k"
    "\<And>b. map_of st2 b = over (Option.bind (map_of es b) (\<lambda>acct.
        if storage_hash acct = [] then None else b32_try_from (storage_hash acct))) (map_of st1 b)"
    using Cons.IH [OF _ _ 1(2,3)] Cons.prems by auto
  have h: "storage_hash acct \<noteq> [] \<Longrightarrow>
      over (b32_try_from (storage_hash acct)) y = b32_try_from (storage_hash acct)" for y
    using ok(1) by (auto simp: hash_ok_def b32_try_from_def)
  show ?case
    using 1(1) 2(1) h
    by (intro exI [of _ info2] exI [of _ st2]) (auto simp: e 2 1 ok(3))
qed

lemma closure_fold:
  "try_fold (\<lambda>(k, v) (ks, R). map_ok (Pair (hs_insert k ks)) (g k v R)) xs (ks, R) =
   map_ok (Pair (fold hs_insert (map fst xs) ks)) (try_fold (\<lambda>(k, v). g k v) xs R)"
proof (induction xs arbitrary: ks R)
  case Nil
  show ?case by simp
next
  case (Cons x xs)
  obtain k v where x: "x = (k, v)" by (cases x)
  show ?case
  proof (cases "g k v R")
    case (Inr R')
    then show ?thesis
      using Cons [of "hs_insert k ks" R'] by (simp add: x)
  qed (simp add: x)
qed

lemma accounts_hash_ok:
  assumes "accounts_wf V m" "accounts_of V m a = Some acct"
  shows "hash_ok acct"
  using assms accounts_wf_field [OF assms(1), of a StorageHash]
  by (auto simp: accounts_of_def account_at_def hash_ok_def field_ok_def split: if_splits option.splits)

lemma info_of_field_ok: "info_of acct f = Some v \<Longrightarrow> field_ok f v"
  by (cases f) (auto simp: field_ok_def split: if_splits)

text \<open>The content the upgrade builds, and the accounts it stands for.\<close>

definition upgraded_content :: "content \<Rightarrow> content \<Rightarrow> bool" where
  "upgraded_content m m2 \<longleftrightarrow>
     (\<forall>b f. m2 (account_key V2 b f) = info_of (account_at V1 m b) f) \<and>
     (\<forall>k. (\<forall>b f. k \<noteq> account_key V2 b f) \<longrightarrow> m2 k = None)"

lemma upgraded_content_wf:
  assumes "upgraded_content m m2"
  shows "accounts_wf V2 m2"
  unfolding accounts_wf_def
proof (intro allI impI)
  fix k v assume kv: "m2 k = Some v"
  then obtain a f where "k = account_key V2 a f"
    using assms by (fastforce simp: upgraded_content_def)
  with kv assms show "\<exists>a f. k = account_key V2 a f \<and> field_ok f v"
    by (auto simp: upgraded_content_def intro: info_of_field_ok)
qed

lemma upgraded_content_accounts:
  assumes "upgraded_content m m2"
  shows "account_at V2 m2 a = (account_at V1 m a)\<lparr>storage_hash := []\<rparr>"
proof -
  let ?b = "account_at V1 m a"
  have f: "m2 (account_key V2 a f) = info_of ?b f" for f
    using assms by (simp add: upgraded_content_def)
  have le: "from_le (u64_to_le n) = n" "from_le (u32_to_le i) = i" for n :: u64 and i :: u32
    by (simp_all add: from_le_to_le)
  have "cbi_version (account_at V2 m2 a) = cbi_version ?b"
    by (simp add: account_at_def [of V2] f option.map_comp comp_def le option.map_ident)
  moreover have "nonce (account_at V2 m2 a) = nonce ?b" "balance (account_at V2 m2 a) = balance ?b"
    "code (account_at V2 m2 a) = code ?b" "storage_hash (account_at V2 m2 a) = []"
    by (simp_all add: account_at_def [of V2] f le)
  ultimately show ?thesis
    by simp
qed

lemma at_upgrade_reads:
  assumes C: "trie_contract E M" and h: "mpt_holds M t m" "accounts_wf V1 m"
  shows "\<exists>ks R. mpt_iterate_all E t MptError (\<lambda>key value (key_set, data_map).
        let key_set = hs_insert key key_set
        in map_ok (Pair key_set) (read_entry V1 key value data_map)) ([], []) = Inr (ks, R) \<and>
     set ks = dom m \<and> distinct (map fst R) \<and> map_of R = accounts_of V1 m"
proof -
  let ?f = "\<lambda>key value (key_set, data_map). let key_set = hs_insert key key_set
      in map_ok (Pair key_set) (read_entry V1 key value data_map)"
  obtain xs where xs: "distinct (map fst xs)" "map_of xs = m"
    "mpt_iterate_all E t MptError ?f ([], []) = try_fold (\<lambda>(key, value). ?f key value) xs ([], [])"
    by (rule mpt_iterate_all_ok [OF C h(1)])
  obtain R where R: "try_fold (\<lambda>(k, v). read_entry V1 k v) xs [] = Inr R" "distinct (map fst R)"
    "map_of R = accounts_of V1 m"
    using read_entries_ok [OF content_entries [OF h(2) xs(2,1)] xs(1)] xs(2) by blast
  have "mpt_iterate_all E t MptError ?f ([], []) = Inr (fold hs_insert (map fst xs) [], R)"
    unfolding xs(3)
    using closure_fold [where g = "read_entry V1" and xs = xs and ks = "[]" and R = "[]"] R(1)
    by (simp add: Let_def)
  then show ?thesis
    using R(2,3) by (simp add: dom_map_of_conv_image_fst flip: xs(2))
qed

lemma upgraded_info:
  assumes wf: "accounts_wf V1 m" and es: "distinct (map fst es)" "map_of es = accounts_of V1 m"
  shows "\<exists>info st. upgrade_accounts es ([], []) = Some (info, st) \<and> distinct (map fst info) \<and>
     put_all info Map.empty = map_of info \<and> upgraded_content m (map_of info) \<and> distinct (map fst st) \<and>
     (\<forall>a. map_of st a = Option.bind (m (account_key V1 a StorageHash)) b32_try_from)"
proof -
  have hok: "\<forall>(a, acct) \<in> set es. hash_ok acct"
    using es accounts_hash_ok [OF wf] by (metis (mono_tags, lifting) case_prodI2 map_of_is_SomeI)
  obtain info st where i: "upgrade_accounts es ([], []) = Some (info, st)"
    "distinct (map fst info)" "distinct (map fst st)"
    "\<And>b f. map_of info (account_key V2 b f) =
        Option.bind (accounts_of V1 m b) (\<lambda>acct. info_of acct f)"
    "\<And>k. \<forall>b f. k \<noteq> account_key V2 b f \<Longrightarrow> map_of info k = None"
    "\<And>b. map_of st b = Option.bind (accounts_of V1 m b) (\<lambda>acct.
        if storage_hash acct = [] then None else b32_try_from (storage_hash acct))"
    using upgrade_accounts_ok [OF hok es(1), of "[]" "[]"] unfolding es(2) by auto
  have ne: "map_of info k = Some v \<Longrightarrow> v \<noteq> []" for k v
  proof -
    assume kv: "map_of info k = Some v"
    then obtain b f where "k = account_key V2 b f" using i(5) by (metis option.distinct(1))
    with kv i(4) [of b f] show "v \<noteq> []"
      by (auto simp: bind_eq_Some_conv field_ok_def dest!: info_of_field_ok)
  qed
  have m2: "put_all info Map.empty = map_of info"
    by (rule ext) (auto simp: put_all_def ne split: option.split)
  have default: "info_of account_default f = None" for f
    by (cases f) (simp_all add: account_default_def)
  have up: "upgraded_content m (map_of info)"
    by (auto simp: upgraded_content_def i(4,5) accounts_of_def not_known_account_at default)
  have "map_of st a = Option.bind (m (account_key V1 a StorageHash)) b32_try_from" for a
    using accounts_wf_field [OF wf, of a StorageHash]
    by (auto simp: i(6) accounts_of_def known_account_def account_at_def field_ok_def
        split: option.split)
  then show ?thesis using i(1-3) m2 up by blast
qed

lemma at_upgrade_ok:
  assumes C: "trie_contract E M" and T: "at_holds M T m" and V: "at_version T = V1"
  shows "\<exists>T2 st m2. at_upgrade E T = Some (Inr (T2, st)) \<and> at_holds M T2 m2 \<and>
     at_version T2 = V2 \<and> upgraded_content m m2 \<and> distinct (map fst st) \<and>
     (\<forall>a. map_of st a = Option.bind (m (account_key V1 a StorageHash)) b32_try_from) \<and>
     storage (db (at_trie T2)) = storage (db (at_trie T)) \<and>
     prefix (db (at_trie T2)) = prefix (db (at_trie T)) \<and>
     (kdb_inv (db (at_trie T)) \<longrightarrow> kdb_inv (db (at_trie T2)))"
proof -
  have h: "mpt_holds M (at_trie T) m" "accounts_wf V1 m"
    using T V by (simp_all add: at_holds_def)
  obtain ks R where R: "mpt_iterate_all E (at_trie T) MptError (\<lambda>key value (key_set, data_map).
        let key_set = hs_insert key key_set
        in map_ok (Pair key_set) (read_entry V1 key value data_map)) ([], []) = Inr (ks, R)"
    "set ks = dom m" "distinct (map fst R)" "map_of R = accounts_of V1 m"
    using at_upgrade_reads [OF C h] by blast
  have es: "distinct (map fst (visit (hash_order E) R))"
    "map_of (visit (hash_order E) R) = accounts_of V1 m"
    using visit_map [OF trie_visit [OF C] R(3)] R(4) by simp_all
  obtain info st where i: "upgrade_accounts (visit (hash_order E) R) ([], []) = Some (info, st)"
    "distinct (map fst info)" "put_all info Map.empty = map_of info"
    "upgraded_content m (map_of info)" "distinct (map fst st)"
    "\<And>a. map_of st a = Option.bind (m (account_key V1 a StorageHash)) b32_try_from"
    using upgraded_info [OF h(2) es] by blast
  obtain t t2 t3 where t: "mpt_batch_remove E (at_trie T) ks = (Inr (), t)"
    "mpt_deinit_and_upgrade E t = Inr t2" "mpt_batch_set E t2 info = (Inr (), t3)"
    "mpt_holds M t3 (put_all info Map.empty)" "storage (db t3) = storage (db (at_trie T))"
    "prefix (db t3) = prefix (db (at_trie T))" "kdb_version (db t3) = V2"
    "kdb_inv (db (at_trie T)) \<longrightarrow> kdb_inv (db t3)"
    by (rule mpt_rebuilt [OF C h(1) R(2) i(2)])
  have eq: "at_upgrade E T = Some (Inr (\<lparr>at_trie = t3\<rparr>, st))"
    unfolding at_upgrade_def R(1)
    by (simp only: sum.case prod.case option.case old.unit.case t(1-3) i(1))
  show ?thesis
    using t i(4-6) upgraded_content_wf [OF i(4)]
    by (intro exI [of _ "\<lparr>at_trie = t3\<rparr>"] exI [of _ st] exI [of _ "map_of info"])
       (simp add: eq at_holds_def at_version_def i(3))
qed

section \<open>Properties\<close>

lemma at_proof_ok:
  assumes "trie_contract E M" "at_holds M T m"
  shows "\<exists>p. at_get_with_proof_from_trie_key E T k =
    Inr (map (ws_proof_node proof_level_accounts) p, m k)"
  using mpt_get_with_proof_ok [OF assms(1) at_holdsD [OF assms(2)], of k]
  by (auto simp: at_get_with_proof_from_trie_key_def)

lemma at_set_field:
  assumes "trie_contract E M" "at_holds M T m" "field_ok f v"
  shows "\<exists>T' m'. at_set E T (account_key (at_version T) a f) v = (Inr (), T') \<and> at_holds M T' m' \<and>
     at_version T' = at_version T \<and>
     account_at (at_version T) m' = (account_at (at_version T) m)
       (a := write_field f v (account_at (at_version T) m a))"
proof -
  have "v \<noteq> []" using assms(3) by (simp add: field_ok_def)
  then have "account_at (at_version T) (put_content (account_key (at_version T) a f) v m) =
      (account_at (at_version T) m)(a := write_field f v (account_at (at_version T) m a))"
    by (intro ext) (simp add: put_content_def account_at_upd)
  then show ?thesis
    using at_set_ok [OF assms(1,2), of v f a] assms(3) same_frame_version by metis
qed

text \<open>A stored accounts trie of the concrete library, for the witnesses.\<close>

definition flat_accounts :: "version \<Rightarrow> (bytes \<times> bytes) list \<Rightarrow> accounts_trie" where
  "flat_accounts V es = \<lparr>at_trie = flat_mpt V [] es\<rparr>"

lemma flat_accounts_version [simp]: "at_version (flat_accounts V es) = V"
  by (simp add: flat_accounts_def at_version_def flat_mpt_def mpt_open_def)

lemma flat_accounts_hold:
  "distinct (map fst es) \<Longrightarrow> \<forall>(k, v) \<in> set es. \<exists>a f. k = account_key V a f \<and> field_ok f v \<Longrightarrow>
     at_holds flat_model (flat_accounts V es) (map_of es)"
  by (auto simp: at_holds_def accounts_wf_def flat_accounts_def flat_mpt_holds at_version_def
      flat_mpt_touched(2) [unfolded flat_mpt_def]
      flat_mpt_def [THEN arg_cong, of db] mpt_open_def dest!: map_of_SomeD)

lemma account_field_try_from_Inr [simp]: "account_field_try_from x = Inr f \<longleftrightarrow> x = account_field_byte f"
  by (cases f) (auto simp: account_field_try_from_def)

lemma account_field_try_from_Inl [simp]: "account_field_try_from x = Inl InvalidAccountField \<longleftrightarrow> 4 < x"
proof -
  have "x \<le> 4 \<longleftrightarrow> x = 0 \<or> x = 1 \<or> x = 2 \<or> x = 3 \<or> x = 4"
    by (auto simp: word_le_nat_alt word_unat_eq_iff)
  then show ?thesis
    by (auto simp: account_field_try_from_def not_le [symmetric])
qed

lemma account_address_Inr: "account_address k = Inr a \<longleftrightarrow> (\<exists>rest. k = b32_bytes a @ rest)"
proof
  assume "account_address k = Inr a"
  then have "take 32 k = b32_bytes a"
    by (cases "b32_try_from (take 32 k)")
       (simp_all add: account_address_def b32_try_from_Some_iff split: if_splits)
  then show "\<exists>rest. k = b32_bytes a @ rest" by (metis append_take_drop_id)
qed (auto simp: account_address_def)

lemma account_field_of_Inr:
  fixes V :: version
  defines "i \<equiv> (case V of V1 \<Rightarrow> 33 | V2 \<Rightarrow> 32)"
  shows "account_field_of V k = Inr f \<longleftrightarrow>
    (\<exists>front rest. length front = i \<and> k = front @ account_field_byte f # rest)"
proof -
  have "account_field_of V k = Inr f \<longleftrightarrow> i < length k \<and> k ! i = account_field_byte f"
    by (cases V) (auto simp: account_field_of_def i_def Let_def)
  also have "\<dots> \<longleftrightarrow> (\<exists>front rest. length front = i \<and> k = front @ account_field_byte f # rest)"
  proof
    assume "i < length k \<and> k ! i = account_field_byte f"
    then have "length (take i k) = i \<and> k = take i k @ account_field_byte f # drop (Suc i) k"
      using id_take_nth_drop [of i k] by simp
    then show "\<exists>front rest. length front = i \<and> k = front @ account_field_byte f # rest" by blast
  qed (auto simp: nth_append)
  finally show ?thesis .
qed

text \<open>
  C38: The key of an account field decodes back to its address and its field in both versions,
  and different account fields have different keys.  The decoders accept more: a key decodes to
  the address \<open>a\<close> and the field \<open>f\<close> exactly when it consists of the bytes of \<open>a\<close>, one byte of any
  value in version 1, the byte of \<open>f\<close>, and any further bytes, so that neither the visibility byte
  nor the length is checked.  Every other key is an error of the decoder that rejects it: the
  address is rejected exactly when there are fewer than 32 bytes, the field exactly when its byte
  is missing or greater than 4.
\<close>

theorem account_key_roundtrip:
  "account_address (account_key V a f) = Inr a \<and> account_field_of V (account_key V a f) = Inr f \<and>
   (account_key V a f = account_key V b g \<longleftrightarrow> a = b \<and> f = g) \<and>
   (account_address k = Inr a \<and> account_field_of V k = Inr f \<longleftrightarrow>
     (\<exists>x rest. length x = (case V of V1 \<Rightarrow> 1 | V2 \<Rightarrow> 0) \<and>
        k = b32_bytes a @ x @ account_field_byte f # rest)) \<and>
   (account_address k = Inl InvalidPublicAddress \<longleftrightarrow> length k < 32) \<and>
   ((\<exists>c. account_address k = Inr c) \<longleftrightarrow> 32 \<le> length k) \<and>
   (account_field_of V k = Inl InvalidAccountField \<longleftrightarrow>
     (let i = (case V of V1 \<Rightarrow> 33 | V2 \<Rightarrow> 32) in length k \<le> i \<or> 4 < k ! i)) \<and>
   ((\<exists>h. account_field_of V k = Inr h) \<longleftrightarrow> account_field_of V k \<noteq> Inl InvalidAccountField)"
proof (intro conjI)
  let ?i = "case V of V1 \<Rightarrow> 33 | V2 \<Rightarrow> 32"
  show "account_address k = Inr a \<and> account_field_of V k = Inr f \<longleftrightarrow>
     (\<exists>x rest. length x = (case V of V1 \<Rightarrow> 1 | V2 \<Rightarrow> 0) \<and> k = b32_bytes a @ x @ account_field_byte f # rest)"
    (is "?l \<longleftrightarrow> ?r")
  proof
    assume ?l
    then obtain r where r: "k = b32_bytes a @ r" by (auto simp: account_address_Inr)
    obtain front rest where "length front = ?i" "k = front @ account_field_byte f # rest"
      using \<open>?l\<close> unfolding account_field_of_Inr by blast
    note k = r this
    have l: "length front = 32 + (case V of V1 \<Rightarrow> 1 | V2 \<Rightarrow> 0)" using k(2) by (cases V) simp_all
    then have "take 32 front = b32_bytes a"
      using arg_cong [OF k(3) [unfolded k(1)], of "take 32"] by simp
    then have "front = b32_bytes a @ drop 32 front" by (metis append_take_drop_id)
    with k(3) l show ?r by (intro exI [of _ "drop 32 front"] exI [of _ rest]) simp
  next
    assume ?r
    then obtain x rest where k: "length x = (case V of V1 \<Rightarrow> 1 | V2 \<Rightarrow> 0)"
      "k = b32_bytes a @ x @ account_field_byte f # rest" by blast
    then have "length (b32_bytes a @ x) = ?i" by (cases V) simp_all
    then have "account_field_of V k = Inr f"
      unfolding account_field_of_Inr using k(2) by (intro exI [of _ "b32_bytes a @ x"] exI [of _ rest]) simp
    then show ?l using k(2) by (auto simp: account_address_Inr)
  qed
  show "account_address k = Inl InvalidPublicAddress \<longleftrightarrow> length k < 32"
    "(\<exists>c. account_address k = Inr c) \<longleftrightarrow> 32 \<le> length k"
    by (auto simp: account_address_def b32_try_from_def)
  show "account_field_of V k = Inl InvalidAccountField \<longleftrightarrow>
     (let i = ?i in length k \<le> i \<or> 4 < k ! i)"
    by (cases V) (auto simp: account_field_of_def Let_def)
  show "(\<exists>h. account_field_of V k = Inr h) \<longleftrightarrow> account_field_of V k \<noteq> Inl InvalidAccountField"
    by (auto simp: account_field_of_def Let_def account_field_try_from_def)
qed simp_all

text \<open>
  C18: On a trie whose content is a well-formed accounts map, each getter returns that field of
  the account of the address.  For a field that is not stored, \<open>nonce\<close> and \<open>balance\<close> return 0, and
  \<open>code\<close>, \<open>cbi_version\<close> and \<open>storage_hash\<close> return \<open>None\<close>; a code that is returned is never empty.
  Each \<open>contains\<close> tells whether the field is stored; none of them fails or panics.
\<close>

theorem account_getters:
  assumes "trie_contract E M" "at_holds M T m"
  shows "let A = account_at (at_version T) m a in
    at_nonce E T a = Some (Inr (nonce A)) \<and> at_balance E T a = Some (Inr (balance A)) \<and>
    at_code E T a = Inr (m (account_key (at_version T) a ContractCode)) \<and>
    at_code E T a = Inr (if code A = [] then None else Some (code A)) \<and>
    at_cbi_version E T a = Some (Inr (cbi_version A)) \<and>
    at_storage_hash E T a =
      Some (Inr (if storage_hash A = [] then None else b32_try_from (storage_hash A))) \<and>
    (storage_hash A \<noteq> [] \<longrightarrow> b32_try_from (storage_hash A) \<noteq> None) \<and>
    (m (account_key (at_version T) a f) = None \<longrightarrow>
       (case f of Nonce \<Rightarrow> at_nonce E T a = Some (Inr 0) | Balance \<Rightarrow> at_balance E T a = Some (Inr 0)
        | ContractCode \<Rightarrow> at_code E T a = Inr None | CbiVersion \<Rightarrow> at_cbi_version E T a = Some (Inr None)
        | StorageHash \<Rightarrow> at_storage_hash E T a = Some (Inr None))) \<and>
    at_contains E T f a = Inr (m (account_key (at_version T) a f) \<noteq> None)"
proof -
  define A where "A = account_at (at_version T) m a"
  note get = at_getters_ok [OF assms, of a, folded A_def]
  have hash: "Option.bind (m (account_key (at_version T) a StorageHash)) b32_try_from =
      (if storage_hash A = [] then None else b32_try_from (storage_hash A))"
    "storage_hash A \<noteq> [] \<Longrightarrow> b32_try_from (storage_hash A) \<noteq> None"
    using at_field [OF assms(2), of a StorageHash]
    by (auto simp: A_def account_at_def field_ok_def split: option.splits)
  have code: "m (account_key (at_version T) a ContractCode) = (if code A = [] then None else Some (code A))"
    using at_field [OF assms(2), of a ContractCode]
    by (auto simp: A_def account_at_def field_ok_def split: option.split)
  have none: "m (account_key (at_version T) a f) = None \<longrightarrow>
       (case f of Nonce \<Rightarrow> at_nonce E T a = Some (Inr 0) | Balance \<Rightarrow> at_balance E T a = Some (Inr 0)
        | ContractCode \<Rightarrow> at_code E T a = Inr None | CbiVersion \<Rightarrow> at_cbi_version E T a = Some (Inr None)
        | StorageHash \<Rightarrow> at_storage_hash E T a = Some (Inr None))"
    using get by (cases f) (simp_all add: A_def account_at_def)
  show ?thesis
    unfolding Let_def A_def [symmetric]
    using get hash(1) hash(2) [THEN impI] code none at_contains_ok [OF assms]
    by (intro conjI) (simp_all only: not_False_eq_True simp_thms)
qed

theorem account_getters_witness:
  "at_nonce flat_lib (flat_accounts V1 [(account_key V1 (b32_fill 5) Nonce, u64_to_le 300)])
     (b32_fill 5) = Some (Inr 300) \<and>
   at_code flat_lib (flat_accounts V1 [(account_key V1 (b32_fill 5) Nonce, u64_to_le 300)])
     (b32_fill 5) = Inr None"
proof -
  let ?es = "[(account_key V1 (b32_fill 5) Nonce, u64_to_le 300)]"
  have "at_holds flat_model (flat_accounts V1 ?es) (map_of ?es)"
    by (rule flat_accounts_hold) (auto simp: field_ok_def)
  from account_getters [OF flat_contract this, of "b32_fill 5" ContractCode]
  have "at_nonce flat_lib (flat_accounts V1 ?es) (b32_fill 5) =
      Some (Inr (nonce (account_at (at_version (flat_accounts V1 ?es)) (map_of ?es) (b32_fill 5))))"
    and c: "(map_of ?es) (account_key (at_version (flat_accounts V1 ?es)) (b32_fill 5) ContractCode) = None \<longrightarrow>
      at_code flat_lib (flat_accounts V1 ?es) (b32_fill 5) = Inr None"
    by (simp_all add: Let_def del: map_of.simps)
  then show ?thesis by (auto simp: account_at_def from_le_to_le)
qed

text \<open>
  The getters with proof return the same value as the plain getters, and every node of the
  proof carries the level byte of the accounts trie in front.
\<close>

theorem account_getters_with_proof:
  assumes "trie_contract E M" "at_holds M T m"
  shows "(\<exists>p. at_nonce_with_proof E T a = map_option (map_ok (Pair (map (Cons 0) p))) (at_nonce E T a)) \<and>
    (\<exists>p. at_balance_with_proof E T a = map_option (map_ok (Pair (map (Cons 0) p))) (at_balance E T a)) \<and>
    (\<exists>p. at_code_with_proof E T a = map_ok (Pair (map (Cons 0) p)) (at_code E T a)) \<and>
    (\<exists>p. at_cbi_version_with_proof E T a =
       map_option (map_ok (Pair (map (Cons 0) p))) (at_cbi_version E T a)) \<and>
    (\<exists>p. at_storage_hash_with_proof E T a =
       map_option (map_ok (Pair (map (Cons 0) p))) (at_storage_hash E T a))"
proof -
  have n: "ws_proof_node proof_level_accounts = Cons 0"
    by (auto simp: ws_proof_node_def proof_level_accounts_def)
  note P = at_proof_ok [OF assms, unfolded n] mpt_get_ok [OF assms(1) at_holdsD [OF assms(2)]]
  have "\<exists>p. at_nonce_with_proof E T a = map_option (map_ok (Pair (map (Cons 0) p))) (at_nonce E T a)"
    using P(1) [of "account_key (at_version T) a Nonce"]
    by (auto simp: at_nonce_with_proof_def at_nonce_def P(2) option.map_comp comp_def)
  moreover have "\<exists>p. at_balance_with_proof E T a =
      map_option (map_ok (Pair (map (Cons 0) p))) (at_balance E T a)"
    using P(1) [of "account_key (at_version T) a Balance"]
    by (auto simp: at_balance_with_proof_def at_balance_def P(2) option.map_comp comp_def)
  moreover have "\<exists>p. at_code_with_proof E T a = map_ok (Pair (map (Cons 0) p)) (at_code E T a)"
    using P(1) [of "account_key (at_version T) a ContractCode"]
    by (auto simp: at_code_with_proof_def at_code_def P(2))
  moreover have "\<exists>p. at_cbi_version_with_proof E T a =
      map_option (map_ok (Pair (map (Cons 0) p))) (at_cbi_version E T a)"
    using P(1) [of "account_key (at_version T) a CbiVersion"]
    by (auto simp: at_cbi_version_with_proof_def at_cbi_version_def P(2) option.map_comp comp_def)
  moreover have "\<exists>p. at_storage_hash_with_proof E T a =
      map_option (map_ok (Pair (map (Cons 0) p))) (at_storage_hash E T a)"
    using P(1) [of "account_key (at_version T) a StorageHash"]
    by (auto simp: at_storage_hash_with_proof_def at_storage_hash_def P(2) option.map_comp comp_def)
  ultimately show ?thesis by blast
qed

theorem account_getters_with_proof_witness:
  "\<exists>p. at_nonce_with_proof flat_lib
     (flat_accounts V2 [(account_key V2 (b32_fill 5) Nonce, u64_to_le 300)]) (b32_fill 5) =
     map_option (map_ok (Pair (map (Cons 0) p))) (at_nonce flat_lib
       (flat_accounts V2 [(account_key V2 (b32_fill 5) Nonce, u64_to_le 300)]) (b32_fill 5))"
  by (rule account_getters_with_proof [OF flat_contract flat_accounts_hold, THEN conjunct1])
     (auto simp: field_ok_def)

definition sets_account :: "'t trie_model \<Rightarrow> accounts_trie \<Rightarrow> content \<Rightarrow> b32 \<Rightarrow>
    (mpt_error + unit) \<times> accounts_trie \<Rightarrow> account \<Rightarrow> bool" where
  "sets_account M T m a result A' \<longleftrightarrow> fst result = Inr () \<and> at_version (snd result) = at_version T \<and>
     (\<exists>m'. at_holds M (snd result) m' \<and>
        account_at (at_version T) m' = (account_at (at_version T) m)(a := A'))"

text \<open>
  C17: Each setter succeeds and changes exactly one field of exactly one account: reading all
  accounts back gives the old map with that field updated.
\<close>

theorem account_setters:
  assumes "trie_contract E M" "at_holds M T m"
  shows "sets_account M T m a (at_set_nonce E T a n) ((account_at (at_version T) m a)\<lparr>nonce := n\<rparr>) \<and>
    sets_account M T m a (at_set_balance E T a n) ((account_at (at_version T) m a)\<lparr>balance := n\<rparr>) \<and>
    sets_account M T m a (at_set_code E T a c) ((account_at (at_version T) m a)\<lparr>code := c\<rparr>) \<and>
    sets_account M T m a (at_set_cbi_version E T a i) ((account_at (at_version T) m a)\<lparr>cbi_version := Some i\<rparr>) \<and>
    sets_account M T m a (at_set_storage_hash E T a h) ((account_at (at_version T) m a)\<lparr>storage_hash := b32_bytes h\<rparr>)"
proof -
  note S = at_set_field [OF assms(1,2)]
  have le: "from_le (u64_to_le n) = n" "from_le (u32_to_le i) = i"
    by (simp_all add: from_le_to_le)
  have n: "sets_account M T m a (at_set_nonce E T a n) ((account_at (at_version T) m a)\<lparr>nonce := n\<rparr>)"
    "sets_account M T m a (at_set_balance E T a n) ((account_at (at_version T) m a)\<lparr>balance := n\<rparr>)"
    "sets_account M T m a (at_set_cbi_version E T a i) ((account_at (at_version T) m a)\<lparr>cbi_version := Some i\<rparr>)"
    using S [of Nonce "u64_to_le n" a] S [of Balance "u64_to_le n" a] S [of CbiVersion "u32_to_le i" a]
    by (auto simp: sets_account_def at_set_nonce_def at_set_balance_def at_set_cbi_version_def Let_def
        field_ok_def le simp flip: length_0_conv)
  have h: "sets_account M T m a (at_set_storage_hash E T a h)
      ((account_at (at_version T) m a)\<lparr>storage_hash := b32_bytes h\<rparr>)"
    using S [of StorageHash "b32_bytes h" a]
    by (auto simp: sets_account_def at_set_storage_hash_def Let_def field_ok_def)
  have c: "sets_account M T m a (at_set_code E T a c) ((account_at (at_version T) m a)\<lparr>code := c\<rparr>)"
  proof -
    let ?m = "put_content (account_key (at_version T) a ContractCode) c m"
    obtain T' where T': "at_set E T (account_key (at_version T) a ContractCode) c = (Inr (), T')"
      "at_holds M T' ?m" "same_frame (at_trie T) (at_trie T')"
      using at_set_ok [OF assms(1,2), of c ContractCode a] by (auto simp: field_ok_def)
    have "account_at (at_version T) ?m =
        (account_at (at_version T) m)(a := (account_at (at_version T) m a)\<lparr>code := c\<rparr>)"
      by (rule ext) (simp add: account_at_def put_content_def)
    then show ?thesis
      using T' same_frame_version [OF T'(3)] by (auto simp: sets_account_def at_set_code_def)
  qed
  show ?thesis using n h c by blast
qed

theorem account_setters_witness:
  "sets_account flat_model (flat_accounts V2 [(account_key V2 (b32_fill 5) Nonce, u64_to_le 300)])
     [account_key V2 (b32_fill 5) Nonce \<mapsto> u64_to_le 300] (b32_fill 6)
     (at_set_nonce flat_lib (flat_accounts V2 [(account_key V2 (b32_fill 5) Nonce, u64_to_le 300)])
        (b32_fill 6) 1) (account_default\<lparr>nonce := 1\<rparr>)"
  using account_setters [OF flat_contract flat_accounts_hold, THEN conjunct1,
      of "[(account_key V2 (b32_fill 5) Nonce, u64_to_le 300)]" V2 "b32_fill 6" 1]
  by (auto simp: field_ok_def account_at_upd)

text \<open>
  C19: \<open>all\<close> succeeds and returns every address for which some field is stored, once, with the
  account its fields make up.
\<close>

theorem all_accounts:
  assumes "trie_contract E M" "at_holds M T m"
  shows "\<exists>R. at_all E T = Inr R \<and> distinct (map fst R) \<and>
    map_of R = (\<lambda>a. if \<exists>f. m (account_key (at_version T) a f) \<noteq> None
                     then Some (account_at (at_version T) m a) else None)"
  using at_all_ok [OF assms] unfolding accounts_of_def known_account_def by simp

theorem all_accounts_witness:
  "\<exists>R. at_all flat_lib (flat_accounts V1 [(account_key V1 (b32_fill 5) Nonce, u64_to_le 300)]) = Inr R \<and>
     map_of R (b32_fill 5) = Some (account_default\<lparr>nonce := 300\<rparr>)"
  using all_accounts [OF flat_contract flat_accounts_hold,
      of "[(account_key V1 (b32_fill 5) Nonce, u64_to_le 300)]" V1]
  by (auto simp: field_ok_def account_at_def account_default_def from_le_to_le)

text \<open>
  C16: Upgrading a version 1 accounts trie succeeds and yields a version 2 trie, over the same
  storage and prefix, with the same nonce, balance, code and contract interface version for
  every address and no storage hash.  The storage hashes are handed out beside it, and only
  fields with a value other than the default are stored in the new trie.
\<close>

theorem accounts_upgrade:
  assumes "trie_contract E M" "at_holds M T m" "at_version T = V1"
  shows "\<exists>T2 st m2. at_upgrade E T = Some (Inr (T2, st)) \<and> at_holds M T2 m2 \<and> at_version T2 = V2 \<and>
    account_at V2 m2 = (\<lambda>a. (account_at V1 m a)\<lparr>storage_hash := []\<rparr>) \<and>
    (\<forall>a. (m2 (account_key V2 a Nonce) = None) = (nonce (account_at V1 m a) = 0) \<and>
         (m2 (account_key V2 a Balance) = None) = (balance (account_at V1 m a) = 0)) \<and>
    distinct (map fst st) \<and>
    map_of st = (\<lambda>a. Option.bind (m (account_key V1 a StorageHash)) b32_try_from) \<and>
    storage (db (at_trie T2)) = storage (db (at_trie T)) \<and>
    prefix (db (at_trie T2)) = prefix (db (at_trie T))"
proof -
  obtain T2 st m2 where u: "at_upgrade E T = Some (Inr (T2, st))" "at_holds M T2 m2"
    "at_version T2 = V2" "upgraded_content m m2" "distinct (map fst st)"
    "\<And>a. map_of st a = Option.bind (m (account_key V1 a StorageHash)) b32_try_from"
    "storage (db (at_trie T2)) = storage (db (at_trie T))"
    "prefix (db (at_trie T2)) = prefix (db (at_trie T))"
    using at_upgrade_ok [OF assms] by blast
  have "(m2 (account_key V2 a Nonce) = None) = (nonce (account_at V1 m a) = 0) \<and>
      (m2 (account_key V2 a Balance) = None) = (balance (account_at V1 m a) = 0)" for a
    using u(4) by (simp add: upgraded_content_def)
  then show ?thesis
    using u upgraded_content_accounts [OF u(4)] ext [of "map_of st", OF u(6)] by blast
qed

theorem accounts_upgrade_witness:
  "\<exists>T2 st m2. at_upgrade flat_lib
      (flat_accounts V1 [(account_key V1 (b32_fill 5) Nonce, u64_to_le 300)]) = Some (Inr (T2, st)) \<and>
     at_holds flat_model T2 m2 \<and> account_at V2 m2 (b32_fill 5) = account_default\<lparr>nonce := 300\<rparr>"
proof -
  have "at_holds flat_model (flat_accounts V1 [(account_key V1 (b32_fill 5) Nonce, u64_to_le 300)])
      (map_of [(account_key V1 (b32_fill 5) Nonce, u64_to_le 300)])"
    by (rule flat_accounts_hold) (auto simp: field_ok_def)
  from accounts_upgrade [OF flat_contract this flat_accounts_version] obtain T2 st m2 where
    "at_upgrade flat_lib (flat_accounts V1 [(account_key V1 (b32_fill 5) Nonce, u64_to_le 300)]) =
       Some (Inr (T2, st))" "at_holds flat_model T2 m2"
    "account_at V2 m2 = (\<lambda>a. (account_at V1
       (map_of [(account_key V1 (b32_fill 5) Nonce, u64_to_le 300)]) a)\<lparr>storage_hash := []\<rparr>)"
    by blast
  then show ?thesis
    by (intro exI [of _ T2] exI [of _ st] exI [of _ m2])
       (simp add: account_at_def [of V1] account_default_def from_le_to_le)
qed

end
