(* ===== verification/Storage_Trie.thy ===== *)
theory Storage_Trie
  imports Mpt
begin

text \<open>
  The storage trie of one contract account (\<open>storage_trie.rs\<close>): its key format in both
  versions, the operations, and the upgrade from \<open>V1\<close> to \<open>V2\<close>.  The lemmas relate every
  operation to the storage map \<open>storage_at\<close> read off the content of the trie.
\<close>

section \<open>Keys\<close>

definition null_node_key :: bytes where
  "null_node_key = [0]"

definition storage_key :: "version \<Rightarrow> bytes \<Rightarrow> bytes" where
  "storage_key V key =
     (case V of
        V1 \<Rightarrow> [key_visibility_byte Public] @ key
      | V2 \<Rightarrow> [] @ key)"

definition drop_visibility_type :: "version \<Rightarrow> bytes \<Rightarrow> trie_key_build_error + bytes" where
  "drop_visibility_type V key =
     (if length key < 1 then Inl Other
      else case V of V1 \<Rightarrow> Inr (drop 1 key) | V2 \<Rightarrow> Inr key)"

section \<open>State and operations\<close>

record storage_trie =
  st_trie :: mpt

definition st_version :: "storage_trie \<Rightarrow> version" where
  "st_version T = kdb_version (db (st_trie T))"

definition st_new :: "'t trie_lib \<Rightarrow> version \<Rightarrow> (bytes \<Rightarrow> bytes option) \<Rightarrow> b32 \<Rightarrow> storage_trie" where
  "st_new E V s address =
     (let d = kdb_new V s (b32_bytes address) in \<lparr>st_trie = mpt_new E d\<rparr>)"

definition st_open ::
    "version \<Rightarrow> (bytes \<Rightarrow> bytes option) \<Rightarrow> b32 \<Rightarrow> b32 \<Rightarrow> storage_trie" where
  "st_open V s hash address =
     (let d = kdb_new V s (b32_bytes address) in \<lparr>st_trie = mpt_open d hash\<rparr>)"

definition st_get :: "'t trie_lib \<Rightarrow> storage_trie \<Rightarrow> bytes \<Rightarrow> mpt_error + bytes option" where
  "st_get E T key =
     (let trie_key = storage_key (st_version T) key in mpt_get E (st_trie T) trie_key)"

definition st_get_with_proof ::
    "'t trie_lib \<Rightarrow> storage_trie \<Rightarrow> bytes \<Rightarrow> mpt_error + bytes list \<times> bytes option" where
  "st_get_with_proof E T key =
     (let trie_key = storage_key (st_version T) key
      in map_ok (\<lambda>(proof, value). (map (ws_proof_node proof_level_storage) proof, value))
           (mpt_get_with_proof E (st_trie T) trie_key))"

definition st_contains :: "'t trie_lib \<Rightarrow> storage_trie \<Rightarrow> bytes \<Rightarrow> mpt_error + bool" where
  "st_contains E T key =
     (let key = storage_key (st_version T) key in mpt_contains E (st_trie T) key)"

definition st_set ::
    "'t trie_lib \<Rightarrow> storage_trie \<Rightarrow> bytes \<Rightarrow> bytes \<Rightarrow> (mpt_error + unit) \<times> storage_trie" where
  "st_set E T key value =
     (let key = storage_key (st_version T) key;
          (r, t) = mpt_set E (st_trie T) key value
      in (r, T\<lparr>st_trie := t\<rparr>))"

definition st_remove ::
    "'t trie_lib \<Rightarrow> storage_trie \<Rightarrow> bytes \<Rightarrow> (mpt_error + unit) \<times> storage_trie" where
  "st_remove E T key =
     (let key = storage_key (st_version T) key;
          (r, t) = mpt_remove E (st_trie T) key
      in (r, T\<lparr>st_trie := t\<rparr>))"

definition st_remove_trie ::
    "'t trie_lib \<Rightarrow> storage_trie \<Rightarrow> (mpt_error + unit) \<times> storage_trie" where
  "st_remove_trie E T =
     (case mpt_iterate_all E (st_trie T) id (\<lambda>key _ key_set. Inr (hs_insert key key_set)) [] of
        Inl e \<Rightarrow> (Inl e, T)
      | Inr key_set \<Rightarrow>
          (let (r, t) = mpt_batch_remove E (st_trie T) key_set in (r, T\<lparr>st_trie := t\<rparr>)))"

definition st_batch_set ::
    "'t trie_lib \<Rightarrow> storage_trie \<Rightarrow> (bytes \<times> bytes) list \<Rightarrow> (mpt_error + unit) \<times> storage_trie" where
  "st_batch_set E T data =
     (let storage_data_set = fold (\<lambda>(key, value) s. hm_insert (storage_key (st_version T) key) value s)
                               (visit (hash_order E) data) [];
          (r, t) = mpt_batch_set E (st_trie T) storage_data_set
      in (r, T\<lparr>st_trie := t\<rparr>))"

definition st_root_hash :: "storage_trie \<Rightarrow> b32" where
  "st_root_hash T = root_hash (st_trie T)"

definition st_close :: "storage_trie \<Rightarrow> mpt_changes \<times> storage_trie" where
  "st_close T = (let (c, t) = mpt_close (st_trie T) in (c, T\<lparr>st_trie := t\<rparr>))"

section \<open>Upgrade\<close>

definition st_upgrade :: "'t trie_lib \<Rightarrow> storage_trie \<Rightarrow> world_state_error + storage_trie" where
  "st_upgrade E T =
     (if root_hash (st_trie T) = rh_hash E null_node_key
      then map_ok (\<lambda>t. \<lparr>st_trie = t\<rparr>)
             (map_err MptError (mpt_deinit_and_upgrade E (st_trie T)))
      else
        and_then (mpt_iterate_all E (st_trie T) MptError
           (\<lambda>key value (key_set, data_map).
              let key_set = hs_insert key key_set
              in and_then (map_err TrieKeyBuildError (drop_visibility_type V1 key))
                   (\<lambda>storage_key_v1.
                      let storage_key_v2 = storage_key V2 storage_key_v1
                      in Inr (key_set, hm_insert storage_key_v2 value data_map)))
           ([], []))
        (\<lambda>(key_set, data_map).
          case mpt_batch_remove E (st_trie T) key_set of
            (Inl e, _) \<Rightarrow> Inl (MptError e)
          | (Inr (), t) \<Rightarrow>
              and_then (map_err MptError (mpt_deinit_and_upgrade E t)) (\<lambda>trie_v2.
                case mpt_batch_set E trie_v2 data_map of
                  (Inl e, _) \<Rightarrow> Inl (MptError e)
                | (Inr (), trie_v2) \<Rightarrow> Inr \<lparr>st_trie = trie_v2\<rparr>)))"

section \<open>Lemmas on keys\<close>

lemma null_node_key_root [simp]: "rh_hash E null_node_key = null_root E"
  by (simp add: null_node_key_def null_root_def)

lemma storage_key_inj [simp, key_simps]: "storage_key V k = storage_key V k' \<longleftrightarrow> k = k'"
  by (cases V) (simp_all add: storage_key_def)

lemma drop_visibility_type_key [simp, codec_simps]:
  "V = V1 \<or> k \<noteq> [] \<Longrightarrow> drop_visibility_type V (storage_key V k) = Inr k"
  by (cases V) (auto simp: drop_visibility_type_def storage_key_def Suc_le_eq)

section \<open>The storage map a trie content stands for\<close>

definition storage_wf :: "version \<Rightarrow> content \<Rightarrow> bool" where
  "storage_wf V m \<longleftrightarrow> (\<forall>k v. m k = Some v \<longrightarrow> v \<noteq> [] \<and> (\<exists>k'. k = storage_key V k'))"

definition storage_at :: "version \<Rightarrow> content \<Rightarrow> bytes bytemap" where
  "storage_at V m key = m (storage_key V key)"

lemma storage_wf_empty [simp]: "storage_wf V Map.empty"
  by (simp add: storage_wf_def)

lemma storage_at_empty [simp]: "storage_at V Map.empty = Map.empty"
  by (rule ext) (simp add: storage_at_def)

lemma storage_wf_put: "storage_wf V m \<Longrightarrow> storage_wf V (put_content (storage_key V k) v m)"
  by (auto simp: storage_wf_def put_content_def)

lemma storage_at_put:
  "storage_at V (put_content (storage_key V k) v m) = put_content k v (storage_at V m)"
  by (rule ext) (simp add: storage_at_def put_content_def)

lemma storage_wf_remove: "storage_wf V m \<Longrightarrow> storage_wf V (m(k := None))"
  by (simp add: storage_wf_def)

lemma storage_at_remove:
  "storage_at V (m(storage_key V k := None)) = (storage_at V m)(k := None)"
  by (rule ext) (simp add: storage_at_def)

section \<open>The operations against the storage map\<close>

text \<open>In version 1 every trie of the history, of which nodes are touched, was well formed as well.\<close>

definition st_holds :: "'t trie_model \<Rightarrow> storage_trie \<Rightarrow> bytes bytemap \<Rightarrow> bool" where
  "st_holds M T s \<longleftrightarrow>
     (\<exists>m. mpt_holds M (st_trie T) m \<and> storage_wf (st_version T) m \<and> s = storage_at (st_version T) m) \<and>
     (st_version T = V1 \<longrightarrow> touched_by M (storage_wf V1) (st_trie T))"

lemma st_holdsI:
  "mpt_holds M (st_trie T) m \<Longrightarrow> storage_wf (st_version T) m \<Longrightarrow>
     (st_version T = V1 \<Longrightarrow> touched_by M (storage_wf V1) (st_trie T)) \<Longrightarrow>
     st_holds M T (storage_at (st_version T) m)"
  by (auto simp: st_holds_def)

lemma st_holds_history: "st_holds M T s \<Longrightarrow> st_version T = V1 \<Longrightarrow> touched_by M (storage_wf V1) (st_trie T)"
  by (simp add: st_holds_def)

lemma st_holdsE:
  assumes "st_holds M T s"
  obtains m where "mpt_holds M (st_trie T) m" "storage_wf (st_version T) m"
    "s = storage_at (st_version T) m"
  using assms by (auto simp: st_holds_def)

lemma st_version_frame: "same_frame (st_trie T) (st_trie T') \<Longrightarrow> st_version T' = st_version T"
  by (simp add: same_frame_def st_version_def)

text \<open>An edit of the trie from one well-formed content to another.\<close>

lemma st_edited:
  assumes "st_holds M T s" "mpt_holds M t m'" "touches M m m' (st_trie T) t"
    and "storage_wf (st_version T) m" "storage_wf (st_version T) m'"
  shows "st_holds M (T\<lparr>st_trie := t\<rparr>) (storage_at (st_version T) m')" "same_frame (st_trie T) t"
proof -
  show f: "same_frame (st_trie T) t" by (rule touches_frame [OF assms(3)])
  then have ver: "st_version (T\<lparr>st_trie := t\<rparr>) = st_version T"
    by (simp add: st_version_def same_frame_def)
  have "touched_by M (storage_wf V1) t" if "st_version T = V1"
    using touched_by_touches [OF st_holds_history [OF assms(1) that] assms(3)] assms(4,5) that by simp
  then show "st_holds M (T\<lparr>st_trie := t\<rparr>) (storage_at (st_version T) m')"
    using st_holdsI [of M "T\<lparr>st_trie := t\<rparr>" m'] assms(2,5) by (simp add: ver)
qed

lemma st_get_ok: "trie_contract E M \<Longrightarrow> st_holds M T s \<Longrightarrow> st_get E T k = Inr (s k)"
  by (auto simp: st_get_def mpt_get_ok storage_at_def elim!: st_holdsE)

lemma st_contains_ok:
  "trie_contract E M \<Longrightarrow> st_holds M T s \<Longrightarrow> st_contains E T k = Inr (s k \<noteq> None)"
  by (auto simp: st_contains_def mpt_contains_ok storage_at_def elim!: st_holdsE)

lemma st_get_with_proof_ok:
  assumes "trie_contract E M" "st_holds M T s"
  shows "\<exists>p. st_get_with_proof E T k = Inr (map (ws_proof_node proof_level_storage) p, s k)"
proof -
  obtain m where m: "mpt_holds M (st_trie T) m" "s = storage_at (st_version T) m"
    using assms(2) by (rule st_holdsE)
  obtain p where "mpt_get_with_proof E (st_trie T) (storage_key (st_version T) k) = Inr (p, s k)"
    using mpt_get_with_proof_ok [OF assms(1) m(1)] by (auto simp: m(2) storage_at_def)
  then show ?thesis by (auto simp: st_get_with_proof_def)
qed

lemma st_set_ok:
  assumes "trie_contract E M" "st_holds M T s"
  shows "\<exists>T'. st_set E T k v = (Inr (), T') \<and> st_holds M T' (put_content k v s) \<and>
     same_frame (st_trie T) (st_trie T')"
proof -
  obtain m where m: "mpt_holds M (st_trie T) m" "storage_wf (st_version T) m"
    "s = storage_at (st_version T) m"
    using assms(2) by (rule st_holdsE)
  let ?k = "storage_key (st_version T) k"
  obtain t where t: "mpt_set E (st_trie T) ?k v = (Inr (), t)"
    "mpt_holds M t (put_content ?k v m)" "touches M m (put_content ?k v m) (st_trie T) t"
    using mpt_set_ok [OF assms(1) m(1)] by blast
  show ?thesis
    using st_edited [OF assms(2) t(2,3) m(2) storage_wf_put [OF m(2)]] t(1)
    by (simp add: st_set_def m(3) storage_at_put)
qed

lemma st_remove_ok:
  assumes "trie_contract E M" "st_holds M T s"
  shows "\<exists>T'. st_remove E T k = (Inr (), T') \<and> st_holds M T' (s(k := None)) \<and>
     same_frame (st_trie T) (st_trie T')"
proof -
  obtain m where m: "mpt_holds M (st_trie T) m" "storage_wf (st_version T) m"
    "s = storage_at (st_version T) m"
    using assms(2) by (rule st_holdsE)
  let ?k = "storage_key (st_version T) k"
  obtain t where t: "mpt_remove E (st_trie T) ?k = (Inr (), t)"
    "mpt_holds M t (m(?k := None))" "touches M m (m(?k := None)) (st_trie T) t"
    using mpt_remove_ok [OF assms(1) m(1)] by blast
  show ?thesis
    using st_edited [OF assms(2) t(2,3) m(2) storage_wf_remove [OF m(2)]] t(1)
    by (simp add: st_remove_def m(3) storage_at_remove)
qed

text \<open>A batch under mapped keys: the keys stay distinct, the entries are those of the map.\<close>

lemma fold_storage_keys:
  assumes "distinct (map fst es)" "distinct (map fst acc)"
  shows "distinct (map fst (fold (\<lambda>(k, v) s. hm_insert (storage_key V k) v s) es acc)) \<and>
    map_of (fold (\<lambda>(k, v) s. hm_insert (storage_key V k) v s) es acc) (storage_key V k) =
      (case map_of es k of None \<Rightarrow> map_of acc (storage_key V k) | Some v \<Rightarrow> Some v) \<and>
    ((\<forall>k. x \<noteq> storage_key V k) \<longrightarrow>
      map_of (fold (\<lambda>(k, v) s. hm_insert (storage_key V k) v s) es acc) x = map_of acc x)"
  using assms
proof (induction es arbitrary: acc)
  case Nil
  then show ?case by simp
next
  case (Cons e es)
  obtain k0 v0 where e: "e = (k0, v0)" by (cases e)
  have "map_of es k0 = None" using Cons.prems(1) by (simp add: e map_of_eq_None_iff)
  with Cons.IH [of "hm_insert (storage_key V k0) v0 acc"] Cons.prems show ?case
    by (auto simp: e split: option.split)
qed

lemma storage_put_all:
  fixes V :: version
  assumes "distinct (map fst es)"
  defines "data \<equiv> fold (\<lambda>(k, v) s. hm_insert (storage_key V k) v s) es []"
  shows "distinct (map fst data)" "storage_at V (put_all data m) = put_all es (storage_at V m)"
    "storage_wf V m \<Longrightarrow> storage_wf V (put_all data m)"
proof -
  note f = fold_storage_keys [OF assms(1), of "[]" V, folded data_def, simplified]
  show "distinct (map fst data)" using f by blast
  show "storage_at V (put_all data m) = put_all es (storage_at V m)"
    using f by (intro ext) (simp add: storage_at_def put_all_def split: option.split)
  have keys: "map_of data k = Some v \<Longrightarrow> \<exists>k'. k = storage_key V k'" for k v
    using f by (metis option.distinct(1))
  show "storage_wf V m \<Longrightarrow> storage_wf V (put_all data m)"
    by (auto simp: storage_wf_def put_all_def keys split: option.splits if_splits)
qed

lemma st_batch_set_ok:
  assumes "trie_contract E M" "st_holds M T s" "distinct (map fst kvs)"
  shows "\<exists>T'. st_batch_set E T kvs = (Inr (), T') \<and> st_holds M T' (put_all kvs s) \<and>
     same_frame (st_trie T) (st_trie T')"
proof -
  obtain m where m: "mpt_holds M (st_trie T) m" "storage_wf (st_version T) m"
    "s = storage_at (st_version T) m"
    using assms(2) by (rule st_holdsE)
  let ?es = "visit (hash_order E) kvs"
  let ?data = "fold (\<lambda>(k, v) s. hm_insert (storage_key (st_version T) k) v s) ?es []"
  note es = visit_map [OF trie_visit [OF assms(1)] assms(3)]
  note data = storage_put_all [OF es(1), where V = "st_version T"]
  obtain t where t: "mpt_batch_set E (st_trie T) ?data = (Inr (), t)"
    "mpt_holds M t (put_all ?data m)" "touches M m (put_all ?data m) (st_trie T) t"
    using mpt_batch_set_ok [OF assms(1) m(1) data(1)] by blast
  show ?thesis
    using st_edited [OF assms(2) t(2,3) m(2) data(3) [OF m(2)]] t(1)
    unfolding m(3) put_all_cong [OF es(2)[symmetric]] data(2)[symmetric] by (simp add: st_batch_set_def)
qed

lemma fold_keys:
  "try_fold (\<lambda>(k, v) ks. Inr (hs_insert k ks)) xs ks = Inr (fold hs_insert (map fst xs) ks)"
  by (induction xs arbitrary: ks) auto

lemma restrict_all_keys: "m |` (- dom m) = Map.empty"
  by (auto simp: restrict_map_def)

lemma st_remove_trie_ok:
  assumes "trie_contract E M" "st_holds M T s"
  shows "\<exists>T'. st_remove_trie E T = (Inr (), T') \<and> st_holds M T' Map.empty \<and>
     st_root_hash T' = null_root E \<and> same_frame (st_trie T) (st_trie T')"
proof -
  obtain m where m: "mpt_holds M (st_trie T) m" "storage_wf (st_version T) m"
    using assms(2) by (rule st_holdsE)
  obtain xs where xs: "map_of xs = m"
    "mpt_iterate_all E (st_trie T) id (\<lambda>key _ key_set. Inr (hs_insert key key_set)) [] =
       try_fold (\<lambda>(key, value). (\<lambda>key_set. Inr (hs_insert key key_set))) xs []"
    by (rule mpt_iterate_all_ok [OF assms(1) m(1)])
  define ks where "ks = fold hs_insert (map fst xs) []"
  have "set ks = dom m" by (simp add: ks_def dom_map_of_conv_image_fst flip: xs(1))
  then obtain t where t: "mpt_batch_remove E (st_trie T) ks = (Inr (), t)"
    "mpt_holds M t Map.empty" "touches M m Map.empty (st_trie T) t"
    using mpt_batch_remove_ok [OF assms(1) m(1), of ks] by (auto simp: restrict_all_keys)
  have "st_remove_trie E T = (Inr (), (T\<lparr>st_trie := t\<rparr>))"
    by (simp add: st_remove_trie_def xs(2) fold_keys t(1) flip: ks_def)
  moreover have "root_hash t = null_root E"
    using trie_root_null_iff [OF assms(1)] t(2) by (simp add: mpt_holds_def)
  ultimately show ?thesis
    using st_edited [OF assms(2) t(2,3) m(2)] by (simp add: st_root_hash_def)
qed

section \<open>The upgrade\<close>

text \<open>The body of the iteration: the key set grows, the value moves to its \<open>V2\<close> key.\<close>

lemma upgrade_entries:
  assumes "\<forall>(k, v) \<in> set xs. \<exists>k'. k = storage_key V1 k'" "distinct (map fst xs)"
  shows "\<exists>D. try_fold (\<lambda>(key, value) (key_set, data_map).
            let key_set = hs_insert key key_set
            in and_then (map_err TrieKeyBuildError (drop_visibility_type V1 key))
                 (\<lambda>storage_key_v1. let storage_key_v2 = storage_key V2 storage_key_v1
                    in Inr (key_set, hm_insert storage_key_v2 value data_map)))
          xs ([], []) = Inr (fold hs_insert (map fst xs) [], D) \<and>
     distinct (map fst D) \<and>
     (\<forall>k. map_of D (storage_key V2 k) = map_of xs (storage_key V1 k))"
  using assms
proof (induction xs rule: rev_induct)
  case Nil
  then show ?case by simp
next
  case (snoc x xs)
  obtain k v where x: "x = (k, v)" by (cases x)
  obtain k' where k': "k = storage_key V1 k'" using snoc.prems(1) x by auto
  have "k \<notin> fst ` set xs" using snoc.prems(2) x by auto
  then have m: "map_of (xs @ [x]) = (map_of xs)(k \<mapsto> v)"
    unfolding x by (rule map_of_snoc)
  from snoc obtain D where "distinct (map fst D)"
    "\<And>k. map_of D (storage_key V2 k) = map_of xs (storage_key V1 k)"
    and "try_fold (\<lambda>(key, value) (key_set, data_map).
            let key_set = hs_insert key key_set
            in and_then (map_err TrieKeyBuildError (drop_visibility_type V1 key))
                 (\<lambda>storage_key_v1. let storage_key_v2 = storage_key V2 storage_key_v1
                    in Inr (key_set, hm_insert storage_key_v2 value data_map)))
          xs ([], []) = Inr (fold hs_insert (map fst xs) [], D)"
    by auto
  then show ?case
    unfolding m
    by (intro exI [of _ "hm_insert (storage_key V2 k') v D"]) (auto simp: try_fold_append x k' Let_def)
qed

lemma storage_key_V2 [simp]: "storage_key V2 k = k"
  by (simp add: storage_key_def)

lemma st_upgrade_empty:
  assumes "trie_contract E M" "st_holds M T s" "st_root_hash T = null_root E"
  shows "\<exists>T'. st_upgrade E T = Inr T' \<and> st_holds M T' s \<and> st_version T' = V2 \<and>
     storage (db (st_trie T')) = storage (db (st_trie T)) \<and>
     prefix (db (st_trie T')) = prefix (db (st_trie T)) \<and>
     (kdb_inv (db (st_trie T)) \<longrightarrow> kdb_inv (db (st_trie T')))"
proof -
  obtain m where m: "mpt_holds M (st_trie T) m" "s = storage_at (st_version T) m"
    using assms(2) by (rule st_holdsE)
  have "m = Map.empty"
    using trie_root_null_iff [OF assms(1)] m(1) assms(3) by (simp add: mpt_holds_def st_root_hash_def)
  then have s: "s = Map.empty" by (simp add: m(2))
  obtain t where t: "mpt_deinit_and_upgrade E (st_trie T) = Inr t" "mpt_holds M t Map.empty"
    "storage (db t) = storage (db (st_trie T))" "prefix (db t) = prefix (db (st_trie T))"
    "kdb_version (db t) = V2" "kdb_inv (db (st_trie T)) \<longrightarrow> kdb_inv (db t)"
    using mpt_deinit_and_upgrade_ok [OF assms(1)] assms(3) unfolding st_root_hash_def by blast
  have "st_holds M \<lparr>st_trie = t\<rparr> s"
    using st_holdsI [of M "\<lparr>st_trie = t\<rparr>" Map.empty] t(2,5) by (simp add: s st_version_def)
  then show ?thesis
    using t assms(3) by (simp add: st_upgrade_def st_root_hash_def st_version_def)
qed

lemma st_upgrade_nonempty:
  assumes C: "trie_contract E M" and T: "st_holds M T s" and V: "st_version T = V1"
    and R: "st_root_hash T \<noteq> null_root E"
  shows "\<exists>T'. st_upgrade E T = Inr T' \<and> st_holds M T' s \<and> st_version T' = V2 \<and>
     storage (db (st_trie T')) = storage (db (st_trie T)) \<and>
     prefix (db (st_trie T')) = prefix (db (st_trie T)) \<and>
     (kdb_inv (db (st_trie T)) \<longrightarrow> kdb_inv (db (st_trie T')))"
proof -
  obtain m where m: "mpt_holds M (st_trie T) m" "storage_wf V1 m" "s = storage_at V1 m"
    using T V by (auto elim: st_holdsE)
  let ?f = "\<lambda>key value (key_set, data_map).
      let key_set = hs_insert key key_set
      in and_then (map_err TrieKeyBuildError (drop_visibility_type V1 key))
           (\<lambda>storage_key_v1. let storage_key_v2 = storage_key V2 storage_key_v1
              in Inr (key_set, hm_insert storage_key_v2 value data_map))"
  obtain xs where xs: "distinct (map fst xs)" "map_of xs = m"
    "mpt_iterate_all E (st_trie T) MptError ?f ([], []) =
       try_fold (\<lambda>(key, value). ?f key value) xs ([], [])"
    by (rule mpt_iterate_all_ok [OF C m(1)])
  have "\<forall>(k, v) \<in> set xs. \<exists>k'. k = storage_key V1 k'"
    using m(2) xs by (auto simp: storage_wf_def)
  from upgrade_entries [OF this xs(1)] obtain D where
    D: "try_fold (\<lambda>(key, value). ?f key value) xs ([], []) = Inr (fold hs_insert (map fst xs) [], D)"
    "distinct (map fst D)" "\<And>k. map_of D (storage_key V2 k) = map_of xs (storage_key V1 k)"
    by blast
  define ks where "ks = fold hs_insert (map fst xs) []"
  have "set ks = dom m" by (simp add: ks_def dom_map_of_conv_image_fst flip: xs(2))
  then obtain t t2 t3 where t: "mpt_batch_remove E (st_trie T) ks = (Inr (), t)"
    "mpt_deinit_and_upgrade E t = Inr t2" "mpt_batch_set E t2 D = (Inr (), t3)"
    "mpt_holds M t3 (put_all D Map.empty)" "storage (db t3) = storage (db (st_trie T))"
    "prefix (db t3) = prefix (db (st_trie T))" "kdb_version (db t3) = V2"
    "kdb_inv (db (st_trie T)) \<longrightarrow> kdb_inv (db t3)"
    by (rule mpt_rebuilt [OF C m(1) _ D(2)])
  have eq: "st_upgrade E T = Inr \<lparr>st_trie = t3\<rparr>"
    using R unfolding st_upgrade_def xs(3) D(1) st_root_hash_def null_node_key_root
      ks_def [symmetric] and_then.simps
    by (simp only: if_False sum.case prod.case old.unit.case t(1-3) map_err.simps and_then.simps)
  have c: "put_all D Map.empty = storage_at V1 m"
    using m(2) D(3) by (intro ext)
      (auto simp: put_all_def storage_at_def storage_wf_def xs(2) split: option.split)
  have ver: "st_version \<lparr>st_trie = t3\<rparr> = V2"
    using t(7) by (simp add: st_version_def)
  have "st_holds M \<lparr>st_trie = t3\<rparr> (storage_at V2 (storage_at V1 m))"
    using st_holdsI [of M "\<lparr>st_trie = t3\<rparr>" "storage_at V1 m"] t(4) m(2) c
    by (auto simp: ver storage_wf_def storage_at_def)
  moreover have "storage_at V2 (storage_at V1 m) = s"
    by (simp add: m(3) storage_at_def [of V2] fun_eq_iff)
  ultimately show ?thesis
    using eq ver t by simp
qed

lemma st_upgrade_ok:
  assumes "trie_contract E M" "st_holds M T s" "st_version T = V1"
  shows "\<exists>T'. st_upgrade E T = Inr T' \<and> st_holds M T' s \<and> st_version T' = V2 \<and>
     storage (db (st_trie T')) = storage (db (st_trie T)) \<and>
     prefix (db (st_trie T')) = prefix (db (st_trie T)) \<and>
     (kdb_inv (db (st_trie T)) \<longrightarrow> kdb_inv (db (st_trie T')))"
  using st_upgrade_empty [OF assms(1,2)] st_upgrade_nonempty [OF assms] by blast

section \<open>Properties\<close>

text \<open>A stored storage trie of the concrete library, for the witnesses.\<close>

definition flat_storage_trie :: "version \<Rightarrow> b32 \<Rightarrow> (bytes \<times> bytes) list \<Rightarrow> storage_trie" where
  "flat_storage_trie V a es =
     \<lparr>st_trie = flat_mpt V (b32_bytes a) (map (\<lambda>(k, v). (storage_key V k, v)) es)\<rparr>"

lemma flat_storage_trie_version [simp]: "st_version (flat_storage_trie V a es) = V"
  by (simp add: flat_storage_trie_def st_version_def flat_mpt_def mpt_open_def)

lemma map_of_storage_keys:
  "map_of (map (\<lambda>(k, v). (storage_key V k, v)) es) (storage_key V k) = map_of es k"
  by (induction es) auto

lemma flat_storage_trie_holds:
  assumes "distinct (map fst es)" "\<forall>(k, v) \<in> set es. v \<noteq> []"
  shows "st_holds flat_model (flat_storage_trie V a es) (map_of es)"
proof -
  let ?es = "map (\<lambda>(k, v). (storage_key V k, v)) es"
  have "distinct (map fst ?es)"
    using assms(1) by (fastforce simp: distinct_map inj_on_def)
  then have "mpt_holds flat_model (st_trie (flat_storage_trie V a es)) (map_of ?es)"
    by (simp add: flat_storage_trie_def flat_mpt_holds)
  moreover have "storage_wf V (map_of ?es)"
    using assms(2) by (auto simp: storage_wf_def dest!: map_of_SomeD)
  moreover have "storage_at V (map_of ?es) = map_of es"
    by (rule ext) (simp add: storage_at_def map_of_storage_keys)
  moreover have "touched_by flat_model W (st_trie (flat_storage_trie V a es))" for W
    by (simp add: touched_by_none flat_storage_trie_def)
  ultimately show ?thesis
    using st_holdsI [of flat_model "flat_storage_trie V a es" "map_of ?es"] by (cases V) simp_all
qed

text \<open>
  A storage trie reads like a map from application keys: \<open>get\<close>, \<open>contains\<close> and
  \<open>get_with_proof\<close> answer from it without failing, in both versions, and a key that is absent
  reads as \<open>None\<close> (never as an empty vector).
\<close>

theorem storage_reads:
  assumes "trie_contract E M" "st_holds M T s"
  shows "st_get E T k = Inr (s k) \<and> st_contains E T k = Inr (s k \<noteq> None) \<and>
    (\<exists>p. st_get_with_proof E T k = Inr (map (Cons 1) p, s k)) \<and> s k \<noteq> Some []"
proof -
  have "ws_proof_node proof_level_storage = Cons 1"
    by (auto simp: ws_proof_node_def proof_level_storage_def)
  moreover have "s k \<noteq> Some []"
    using assms(2) by (fastforce simp: storage_at_def storage_wf_def elim!: st_holdsE)
  ultimately show ?thesis
    using st_get_ok [OF assms] st_contains_ok [OF assms] st_get_with_proof_ok [OF assms] by simp
qed

theorem storage_reads_witness:
  "st_get flat_lib (flat_storage_trie V1 (b32_fill 5) [([1], [2]), ([1, 0], [3])]) [1] = Inr (Some [2])"
  using storage_reads [OF flat_contract flat_storage_trie_holds,
      of "[([1], [2]), ([1, 0], [3])]" V1 "b32_fill 5" "[1]"] by simp

text \<open>
  Every edit of a storage trie succeeds and acts on that map: \<open>set\<close> updates one key (an
  empty value removes it), \<open>remove\<close> removes one, \<open>batch_set\<close> updates all given keys, and
  \<open>remove_trie\<close> leaves the empty map under the empty root.
\<close>

theorem storage_edits:
  assumes "trie_contract E M" "st_holds M T s" "distinct (map fst kvs)"
  shows "(\<exists>T'. st_set E T k v = (Inr (), T') \<and>
       st_holds M T' (if v = [] then s(k := None) else s(k \<mapsto> v))) \<and>
    (\<exists>T'. st_remove E T k = (Inr (), T') \<and> st_holds M T' (s(k := None))) \<and>
    (\<exists>T'. st_batch_set E T kvs = (Inr (), T') \<and>
       st_holds M T' (\<lambda>x. case map_of kvs x of None \<Rightarrow> s x
                                    | Some v \<Rightarrow> if v = [] then None else Some v)) \<and>
    (\<exists>T'. st_remove_trie E T = (Inr (), T') \<and> st_holds M T' Map.empty \<and>
       st_root_hash T' = null_root E)"
  using st_set_ok [OF assms(1,2), of k v] st_remove_ok [OF assms(1,2), of k]
    st_batch_set_ok [OF assms] st_remove_trie_ok [OF assms(1,2)]
  unfolding put_content_def put_all_def by blast

theorem storage_edits_witness:
  "\<exists>T'. st_set flat_lib (flat_storage_trie V2 (b32_fill 5) [([1], [2])]) [] [3] = (Inr (), T') \<and>
     st_holds flat_model T' [[1] \<mapsto> [2], [] \<mapsto> [3]]"
  using storage_edits [OF flat_contract flat_storage_trie_holds, THEN conjunct1,
      of "[([1], [2])]" "[]" V2 "b32_fill 5" "[]" "[3]"] by simp

text \<open>
  C20: Upgrading a version 1 storage trie, empty or not, succeeds and yields a version 2 trie
  with the same application keys and values, over the same storage and prefix.
\<close>

theorem storage_upgrade:
  assumes "trie_contract E M" "st_holds M T s" "st_version T = V1"
  shows "\<exists>T'. st_upgrade E T = Inr T' \<and> st_holds M T' s \<and> st_version T' = V2 \<and>
     storage (db (st_trie T')) = storage (db (st_trie T)) \<and>
     prefix (db (st_trie T')) = prefix (db (st_trie T))"
  using st_upgrade_ok [OF assms] by blast

theorem storage_upgrade_witness:
  "\<exists>T'. st_upgrade flat_lib (flat_storage_trie V1 (b32_fill 5) [([1], [2])]) = Inr T' \<and>
     st_holds flat_model T' [[1] \<mapsto> [2]]"
  using storage_upgrade [OF flat_contract flat_storage_trie_holds flat_storage_trie_version,
      of "[([1], [2])]" "b32_fill 5"] by auto

end
