(* ===== verification/World_State.thy ===== *)
theory World_State
  imports Accounts_Trie Storage_Trie
begin

text \<open>
  The world state (\<open>world_state.rs\<close>): one accounts trie, the storage tries opened so far
  and the database they read.  \<open>ws_rel\<close> relates a world state to the content of its
  accounts trie and to the storage map of every account; the lemmas show how opening a
  storage trie, closing and upgrading act on that pair.
\<close>

section \<open>State and operations\<close>

record world_state =
  accounts_trie :: accounts_trie
  storage_trie_map :: "(b32 \<times> storage_trie) list"
  ws_db :: "bytes \<Rightarrow> bytes option"

definition ws_version :: "world_state \<Rightarrow> version" where
  "ws_version w = at_version (accounts_trie w)"

definition ws_new :: "'t trie_lib \<Rightarrow> version \<Rightarrow> (bytes \<Rightarrow> bytes option) \<Rightarrow> world_state" where
  "ws_new E V s = \<lparr>accounts_trie = at_new E V s, storage_trie_map = [], ws_db = s\<rparr>"

definition ws_open :: "version \<Rightarrow> (bytes \<Rightarrow> bytes option) \<Rightarrow> b32 \<Rightarrow> world_state" where
  "ws_open V s state_hash =
     \<lparr>accounts_trie = at_open V s state_hash, storage_trie_map = [], ws_db = s\<rparr>"

text \<open>
  The reference \<open>storage_trie_mut\<close> returns points into the map: the result here is the trie
  it points to, and \<open>ws_put_storage\<close> is a write through the reference.  The outer option is
  the panic of \<open>storage_hash\<close>.
\<close>

definition ws_storage_trie_mut :: "'t trie_lib \<Rightarrow> world_state \<Rightarrow> b32 \<Rightarrow>
    ((mpt_error + storage_trie) \<times> world_state) option" where
  "ws_storage_trie_mut E w address =
     (case map_of (storage_trie_map w) address of
        Some T \<Rightarrow> Some (Inr T, w)
      | None \<Rightarrow>
     (case at_storage_hash E (accounts_trie w) address of
        None \<Rightarrow> None
      | Some (Inl e) \<Rightarrow> Some (Inl e, w)
      | Some (Inr (Some h)) \<Rightarrow>
          (let T = st_open (ws_version w) (ws_db w) h address
           in Some (Inr T, w\<lparr>storage_trie_map := hm_insert address T (storage_trie_map w)\<rparr>))
      | Some (Inr None) \<Rightarrow>
          (let T = st_new E (ws_version w) (ws_db w) address;
               storage_trie_root = st_root_hash T
           in case at_set_storage_hash E (accounts_trie w) address storage_trie_root of
                (Inl e, A) \<Rightarrow> Some (Inl e, w\<lparr>accounts_trie := A\<rparr>)
              | (Inr (), A) \<Rightarrow>
                  Some (Inr T, w\<lparr>accounts_trie := A,
                                 storage_trie_map := hm_insert address T (storage_trie_map w)\<rparr>))))"

definition ws_put_storage :: "b32 \<Rightarrow> storage_trie \<Rightarrow> world_state \<Rightarrow> world_state" where
  "ws_put_storage address T w =
     w\<lparr>storage_trie_map := hm_insert address T (storage_trie_map w)\<rparr>"

text \<open>\<open>storage_trie\<close> has the body of \<open>storage_trie_mut\<close> and returns a shared reference.\<close>

definition ws_storage_trie :: "'t trie_lib \<Rightarrow> world_state \<Rightarrow> b32 \<Rightarrow>
    ((mpt_error + storage_trie) \<times> world_state) option" where
  "ws_storage_trie E w address =
     (case map_of (storage_trie_map w) address of
        Some T \<Rightarrow> Some (Inr T, w)
      | None \<Rightarrow>
     (case at_storage_hash E (accounts_trie w) address of
        None \<Rightarrow> None
      | Some (Inl e) \<Rightarrow> Some (Inl e, w)
      | Some (Inr (Some h)) \<Rightarrow>
          (let T = st_open (ws_version w) (ws_db w) h address
           in Some (Inr T, w\<lparr>storage_trie_map := hm_insert address T (storage_trie_map w)\<rparr>))
      | Some (Inr None) \<Rightarrow>
          (let T = st_new E (ws_version w) (ws_db w) address;
               storage_trie_root = st_root_hash T
           in case at_set_storage_hash E (accounts_trie w) address storage_trie_root of
                (Inl e, A) \<Rightarrow> Some (Inl e, w\<lparr>accounts_trie := A\<rparr>)
              | (Inr (), A) \<Rightarrow>
                  Some (Inr T, w\<lparr>accounts_trie := A,
                                 storage_trie_map := hm_insert address T (storage_trie_map w)\<rparr>))))"

text \<open>
  The loop of \<open>close\<close> runs over a clone of the storage tries: the tries of the world state
  itself keep their collected changes.
\<close>

fun close_storages :: "'t trie_lib \<Rightarrow> (b32 \<times> storage_trie) list \<Rightarrow> accounts_trie \<Rightarrow> db_changes \<Rightarrow>
    (world_state_error + db_changes) \<times> accounts_trie" where
  "close_storages E [] A c = (Inr c, A)"
| "close_storages E ((address, T) # es) A c =
     (let (inserts', deletes', new_root_hash) = fst (st_close T)
      in case at_set_storage_hash E A address new_root_hash of
           (Inl e, A) \<Rightarrow> (Inl (MptError e), A)
         | (Inr (), A) \<Rightarrow> close_storages E es A (fst c ++ inserts', snd c \<union> deletes'))"

type_synonym world_state_changes = mpt_changes

definition ws_close ::
    "'t trie_lib \<Rightarrow> world_state \<Rightarrow> (world_state_error + world_state_changes) \<times> world_state" where
  "ws_close E w =
     (case close_storages E (visit (hash_order E) (storage_trie_map w)) (accounts_trie w)
             (Map.empty, {}) of
        (Inl e, A) \<Rightarrow> (Inl e, w\<lparr>accounts_trie := A\<rparr>)
      | (Inr (ins, del), A) \<Rightarrow>
          (let ((inserts', deletes', new_root_hash), A) = at_close A
           in (Inr (ins ++ inserts', del \<union> deletes', new_root_hash), w\<lparr>accounts_trie := A\<rparr>)))"

definition ws_upgrade ::
    "'t trie_lib \<Rightarrow> world_state \<Rightarrow> (world_state_error + world_state) option" where
  "ws_upgrade E w =
     (case at_upgrade E (accounts_trie w) of
        None \<Rightarrow> None
      | Some (Inl e) \<Rightarrow> Some (Inl e)
      | Some (Inr (account_v2, storage_info_map)) \<Rightarrow>
          Some (map_ok
            (\<lambda>storage_map. \<lparr>accounts_trie = account_v2, storage_trie_map = storage_map, ws_db = ws_db w\<rparr>)
            (try_fold (\<lambda>(address, storage_hash) storage_map.
               let storage_trie_v1 = (case map_of (storage_trie_map w) address of
                                        Some T \<Rightarrow> T
                                      | None \<Rightarrow> st_open V1 (ws_db w) storage_hash address)
               in map_ok (\<lambda>storage_trie_v2. hm_insert address storage_trie_v2 storage_map)
                    (st_upgrade E storage_trie_v1))
             (visit (hash_order E) storage_info_map) [])))"

section \<open>The relation to accounts and storages\<close>

definition storage_home :: "version \<Rightarrow> (bytes \<Rightarrow> bytes option) \<Rightarrow> b32 \<Rightarrow> storage_trie \<Rightarrow> bool" where
  "storage_home V s a T \<longleftrightarrow>
     storage (db (st_trie T)) = s \<and> prefix (db (st_trie T)) = b32_bytes a \<and>
     st_version T = V \<and> kdb_inv (db (st_trie T))"

text \<open>
  \<open>S a\<close> is the storage map of account \<open>a\<close>: the content of its opened trie, or of the trie
  stored under its storage hash, or empty.
\<close>

definition storage_rel :: "'t trie_model \<Rightarrow> world_state \<Rightarrow> content \<Rightarrow> b32 \<Rightarrow> bytes bytemap \<Rightarrow> bool" where
  "storage_rel M w m a s \<longleftrightarrow>
     (case map_of (storage_trie_map w) a of
        Some T \<Rightarrow> st_holds M T s \<and> storage_home (ws_version w) (ws_db w) a T
      | None \<Rightarrow>
          (case m (account_key (ws_version w) a StorageHash) of
             None \<Rightarrow> s = Map.empty
           | Some v \<Rightarrow> \<exists>h. v = b32_bytes h \<and> st_holds M (st_open (ws_version w) (ws_db w) h a) s))"

definition accounts_home :: "version \<Rightarrow> (bytes \<Rightarrow> bytes option) \<Rightarrow> accounts_trie \<Rightarrow> bool" where
  "accounts_home V s A \<longleftrightarrow>
     storage (db (at_trie A)) = s \<and> prefix (db (at_trie A)) = [] \<and>
     at_version A = V \<and> kdb_inv (db (at_trie A))"

definition ws_rel :: "'t trie_model \<Rightarrow> world_state \<Rightarrow> content \<Rightarrow> (b32 \<Rightarrow> bytes bytemap) \<Rightarrow> bool" where
  "ws_rel M w m S \<longleftrightarrow>
     at_holds M (accounts_trie w) m \<and> accounts_home (ws_version w) (ws_db w) (accounts_trie w) \<and>
     distinct (map fst (storage_trie_map w)) \<and> (\<forall>a. storage_rel M w m a (S a)) \<and>
     (ws_version w = V1 \<longrightarrow> (\<forall>a. map_of (storage_trie_map w) a \<noteq> None \<longrightarrow>
        m (account_key V1 a StorageHash) \<noteq> None))"

text \<open>The accounts without their storage hash: what a user of the accounts trie sets.\<close>

definition user_account :: "version \<Rightarrow> content \<Rightarrow> b32 \<Rightarrow> account" where
  "user_account V m a = (account_at V m a)\<lparr>storage_hash := []\<rparr>"

lemma user_account_storage_hash:
  "user_account V (put_content (account_key V a StorageHash) v m) b = user_account V m b"
proof (cases "v = []")
  case True
  then show ?thesis by (simp add: user_account_def put_content_def account_at_def)
next
  case False
  then show ?thesis by (simp add: user_account_def put_content_def account_at_upd)
qed

lemma storage_relD:
  "storage_rel M w m a s \<Longrightarrow> map_of (storage_trie_map w) a = Some T \<Longrightarrow>
     st_holds M T s \<and> storage_home (ws_version w) (ws_db w) a T"
  by (simp add: storage_rel_def)

lemma ws_storage_trie_eq: "ws_storage_trie = ws_storage_trie_mut"
  by (intro ext) (simp only: ws_storage_trie_def ws_storage_trie_mut_def)

text \<open>No trie of the world state collected a change in the keyspace of another one.\<close>

definition ws_apart :: "world_state \<Rightarrow> bool" where
  "ws_apart w \<longleftrightarrow>
     apart (db (at_trie (accounts_trie w))) \<and>
     (\<forall>a T. map_of (storage_trie_map w) a = Some T \<longrightarrow> apart (db (st_trie T)))"

lemma st_open_apart [simp]: "apart (db (st_trie (st_open V s h a)))"
  by (simp add: st_open_def mpt_open_def apart_def touched_def)

lemma frame_apart:
  "same_frame t t' \<Longrightarrow> apart (db t) \<Longrightarrow> kdb_version (db t) = V2 \<Longrightarrow> valid_prefix (prefix (db t)) \<Longrightarrow>
     apart (db t')"
  by (rule apart_grow [of "db t"]) (simp_all add: same_frame_def)

section \<open>New and open\<close>

lemma ws_new_ok:
  assumes "trie_contract E M"
  shows "ws_rel M (ws_new E V s) Map.empty (\<lambda>_. Map.empty)" and "ws_version (ws_new E V s) = V"
    and "V = V2 \<Longrightarrow> ws_apart (ws_new E V s)"
proof -
  note n = mpt_new_ok [OF assms, of "kdb_new V s []"]
  show v: "ws_version (ws_new E V s) = V"
    by (simp add: ws_version_def ws_new_def at_new_def at_version_def n)
  have "touched_by M (accounts_wf V1) (mpt_new E (kdb_new V s []))"
    by (rule mpt_new_touched [OF assms]) simp_all
  then show "ws_rel M (ws_new E V s) Map.empty (\<lambda>_. Map.empty)"
    using n v
    by (cases V) (simp_all add: ws_rel_def storage_rel_def at_holds_def accounts_home_def ws_new_def at_new_def
        at_version_def ws_version_def)
  show "V = V2 \<Longrightarrow> ws_apart (ws_new E V s)"
    unfolding ws_apart_def
    using own_keys_apart [of "db (mpt_new E (kdb_new V s []))"] n by (simp add: ws_new_def at_new_def)
qed

lemma ws_open_version [simp]: "ws_version (ws_open V s r) = V"
  by (simp add: ws_version_def ws_open_def at_open_def at_version_def mpt_open_def)

lemma ws_rel_wf: "ws_rel M w m S \<Longrightarrow> accounts_wf (ws_version w) m"
  using at_holds_wf by (auto simp: ws_rel_def ws_version_def)

lemma ws_open_fields [simp]:
  "accounts_trie (ws_open V s r) = at_open V s r" "storage_trie_map (ws_open V s r) = []"
  "ws_db (ws_open V s r) = s"
  by (simp_all add: ws_open_def)

lemma st_open_home [simp]: "storage_home V s a (st_open V s h a)"
  by (simp add: storage_home_def st_open_def st_version_def mpt_open_def)

lemma st_new_ok:
  assumes "trie_contract E M"
  shows "st_holds M (st_new E V s a) Map.empty" "storage_home V s a (st_new E V s a)"
    "st_root_hash (st_new E V s a) = null_root E" "own_keys (db (st_trie (st_new E V s a)))"
proof -
  note n = mpt_new_ok [OF assms, of "kdb_new V s (b32_bytes a)"]
  show "storage_home V s a (st_new E V s a)" "st_root_hash (st_new E V s a) = null_root E"
    "own_keys (db (st_trie (st_new E V s a)))"
    by (simp_all add: st_new_def storage_home_def st_version_def st_root_hash_def n)
  have "touched_by M (storage_wf V1) (mpt_new E (kdb_new V s (b32_bytes a)))"
    by (rule mpt_new_touched [OF assms]) simp_all
  then show "st_holds M (st_new E V s a) Map.empty"
    using st_holdsI [of M "st_new E V s a" Map.empty] n by (simp add: st_new_def)
qed

section \<open>Opening a storage trie\<close>

lemma at_set_storage_hash_ok:
  assumes "trie_contract E M" "at_holds M A m"
  shows "\<exists>A'. at_set_storage_hash E A a h = (Inr (), A') \<and>
     at_holds M A' (m(account_key (at_version A) a StorageHash \<mapsto> b32_bytes h)) \<and>
     same_frame (at_trie A) (at_trie A')"
  using at_set_ok [OF assms, of "b32_bytes h" StorageHash a]
  by (simp add: at_set_storage_hash_def Let_def field_ok_def put_content_def)

lemma accounts_home_frame:
  "accounts_home V s A \<Longrightarrow> same_frame (at_trie A) (at_trie A') \<Longrightarrow> accounts_home V s A'"
  by (simp add: accounts_home_def same_frame_def at_version_def)

lemma ws_rel_insert:
  assumes R: "ws_rel M w m S" and A: "at_holds M A m'" "same_frame (at_trie (accounts_trie w)) (at_trie A)"
    and m': "\<And>b. b \<noteq> a \<Longrightarrow>
        m' (account_key (ws_version w) b StorageHash) = m (account_key (ws_version w) b StorageHash)"
      "ws_version w = V1 \<Longrightarrow> m' (account_key V1 a StorageHash) \<noteq> None"
    and T: "st_holds M T s" "storage_home (ws_version w) (ws_db w) a T"
  shows "ws_rel M (w\<lparr>accounts_trie := A, storage_trie_map := hm_insert a T (storage_trie_map w)\<rparr>)
     m' (S(a := s))"
proof -
  let ?w = "w\<lparr>accounts_trie := A, storage_trie_map := hm_insert a T (storage_trie_map w)\<rparr>"
  have v: "ws_version ?w = ws_version w"
    using same_frame_version [OF A(2)] by (simp add: ws_version_def)
  have "storage_rel M ?w m' b ((S(a := s)) b)" for b
  proof (cases "b = a")
    case True
    then show ?thesis using T by (simp add: storage_rel_def v)
  next
    case False
    moreover have "storage_rel M w m b (S b)" using R by (simp add: ws_rel_def)
    ultimately show ?thesis
      using m'(1) [of b] by (simp add: storage_rel_def v cong: option.case_cong)
  qed
  moreover have "accounts_home (ws_version ?w) (ws_db ?w) A"
    using accounts_home_frame [OF _ A(2)] R by (simp add: ws_rel_def v)
  moreover have "ws_version w = V1 \<longrightarrow> map_of (storage_trie_map ?w) b \<noteq> None \<longrightarrow>
      m' (account_key V1 b StorageHash) \<noteq> None" for b
    using R m'(1) [of b] m'(2) by (cases "b = a") (auto simp: ws_rel_def, blast)
  ultimately show ?thesis
    using R A(1) unfolding ws_rel_def v by simp
qed

lemma ws_put_storage_ok:
  assumes R: "ws_rel M w m S" and T: "map_of (storage_trie_map w) a = Some T"
    and T': "st_holds M T' s" "same_frame (st_trie T) (st_trie T')"
  shows "ws_rel M (ws_put_storage a T' w) m (S(a := s))"
proof -
  have "storage_rel M w m a (S a)" using R by (simp add: ws_rel_def)
  then have "storage_home (ws_version w) (ws_db w) a T"
    using T by (simp add: storage_rel_def)
  then have "storage_home (ws_version w) (ws_db w) a T'"
    using T'(2) by (simp add: storage_home_def st_version_def same_frame_def)
  moreover have "ws_version w = V1 \<Longrightarrow> m (account_key V1 a StorageHash) \<noteq> None"
    "at_holds M (accounts_trie w) m"
    using R T by (auto simp: ws_rel_def)
  ultimately show ?thesis
    using ws_rel_insert [OF R _ same_frame_refl _ _ T'(1)] by (simp add: ws_put_storage_def)
qed

lemma accounts_frame_apart:
  "accounts_home V2 s A \<Longrightarrow> same_frame (at_trie A) (at_trie A') \<Longrightarrow> apart (db (at_trie A)) \<Longrightarrow>
     apart (db (at_trie A'))"
  by (rule frame_apart) (auto simp: accounts_home_def at_version_def)

lemma storage_frame_apart:
  "storage_home V2 s a T \<Longrightarrow> same_frame (st_trie T) (st_trie T') \<Longrightarrow> apart (db (st_trie T)) \<Longrightarrow>
     apart (db (st_trie T'))"
  by (rule frame_apart) (auto simp: storage_home_def st_version_def)

lemma ws_storage_trie_mut_stored:
  assumes C: "trie_contract E M" and R: "ws_rel M w m S"
    and None: "map_of (storage_trie_map w) a = None"
    and Some: "m (account_key (ws_version w) a StorageHash) = Some v"
  shows "\<exists>T w'. ws_storage_trie_mut E w a = Some (Inr T, w') \<and> st_holds M T (S a) \<and>
     w' = w\<lparr>storage_trie_map := hm_insert a T (storage_trie_map w)\<rparr> \<and> ws_rel M w' m S \<and>
     (ws_apart w \<longrightarrow> ws_apart w')"
proof -
  let ?V = "ws_version w" and ?A = "accounts_trie w"
  have A: "at_holds M ?A m" and rel: "storage_rel M w m a (S a)"
    using R by (simp_all add: ws_rel_def)
  have V: "at_version ?A = ?V" by (simp add: ws_version_def)
  obtain h where h: "v = b32_bytes h" "st_holds M (st_open ?V (ws_db w) h a) (S a)"
    using rel None Some by (auto simp: storage_rel_def)
  let ?T = "st_open ?V (ws_db w) h a"
  let ?w = "w\<lparr>storage_trie_map := hm_insert a ?T (storage_trie_map w)\<rparr>"
  have "ws_storage_trie_mut E w a = Some (Inr ?T, ?w)"
    using at_getters_ok(5) [OF C A, of a, unfolded V]
    by (simp add: ws_storage_trie_mut_def None Some h(1) Let_def)
  moreover have "ws_rel M ?w m S"
    using ws_rel_insert [OF R A same_frame_refl _ _ h(2), of a] Some
    by (cases "ws_version w") simp_all
  moreover have "ws_apart w \<longrightarrow> ws_apart ?w" by (simp add: ws_apart_def)
  ultimately show ?thesis using h(2) by blast
qed

lemma ws_storage_trie_mut_created:
  assumes C: "trie_contract E M" and R: "ws_rel M w m S"
    and None: "map_of (storage_trie_map w) a = None"
    and Nn: "m (account_key (ws_version w) a StorageHash) = None"
  defines "T \<equiv> st_new E (ws_version w) (ws_db w) a"
  defines "m' \<equiv> m(account_key (ws_version w) a StorageHash \<mapsto> b32_bytes (st_root_hash T))"
  shows "\<exists>A'. ws_storage_trie_mut E w a = Some (Inr T,
       w\<lparr>accounts_trie := A', storage_trie_map := hm_insert a T (storage_trie_map w)\<rparr>) \<and>
     S a = Map.empty \<and> same_frame (at_trie (accounts_trie w)) (at_trie A') \<and>
     ws_rel M (w\<lparr>accounts_trie := A', storage_trie_map := hm_insert a T (storage_trie_map w)\<rparr>) m' S"
proof -
  let ?V = "ws_version w" and ?A = "accounts_trie w"
  have A: "at_holds M ?A m" and rel: "storage_rel M w m a (S a)"
    using R by (simp_all add: ws_rel_def)
  have V: "at_version ?A = ?V" by (simp add: ws_version_def)
  note T = st_new_ok [OF C, of ?V "ws_db w" a, folded T_def]
  have S: "S a = Map.empty" using rel None Nn by (simp add: storage_rel_def)
  obtain A' where A': "at_set_storage_hash E ?A a (st_root_hash T) = (Inr (), A')"
    "at_holds M A' m'" "same_frame (at_trie ?A) (at_trie A')"
    using at_set_storage_hash_ok [OF C A, of a "st_root_hash T"] by (auto simp: V m'_def)
  let ?w = "w\<lparr>accounts_trie := A', storage_trie_map := hm_insert a T (storage_trie_map w)\<rparr>"
  have "ws_storage_trie_mut E w a = Some (Inr T, ?w)"
    using at_getters_ok(5) [OF C A, of a, unfolded V]
    by (simp add: ws_storage_trie_mut_def None Nn A'(1) Let_def flip: T_def split: unit.split)
  moreover have "ws_rel M ?w m' S"
    using ws_rel_insert [OF R A'(2,3) _ _ T(1,2)] S by (simp add: m'_def fun_upd_idem)
  ultimately show ?thesis using S A'(3) by blast
qed

lemma ws_storage_trie_mut_created_apart:
  assumes C: "trie_contract E M" and R: "ws_rel M w m S"
    and V: "ws_version w = V2" and w: "ws_apart w"
    and A': "same_frame (at_trie (accounts_trie w)) (at_trie A')"
  shows "ws_apart (w\<lparr>accounts_trie := A',
    storage_trie_map := hm_insert a (st_new E V2 (ws_db w) a) (storage_trie_map w)\<rparr>)"
proof -
  note T = st_new_ok [OF C, of V2 "ws_db w" a]
  have "apart (db (st_trie (st_new E V2 (ws_db w) a)))"
    by (rule own_keys_apart) (use T(2,4) in \<open>simp_all add: storage_home_def st_version_def\<close>)
  moreover have "apart (db (at_trie A'))"
    using accounts_frame_apart [OF _ A'] R V w by (auto simp: ws_rel_def ws_apart_def)
  ultimately show ?thesis using w by (simp add: ws_apart_def)
qed

lemma ws_storage_trie_mut_ok:
  assumes C: "trie_contract E M" and R: "ws_rel M w m S"
  shows "\<exists>T w' m'. ws_storage_trie_mut E w a = Some (Inr T, w') \<and> st_holds M T (S a) \<and>
     map_of (storage_trie_map w') a = Some T \<and> ws_rel M w' m' S \<and>
     ws_version w' = ws_version w \<and> ws_db w' = ws_db w \<and>
     (ws_version w = V2 \<and> ws_apart w \<longrightarrow> ws_apart w') \<and>
     (\<forall>b. user_account (ws_version w) m' b = user_account (ws_version w) m b)"
proof -
  let ?V = "ws_version w"
  have rel: "storage_rel M w m a (S a)" using R by (simp add: ws_rel_def)
  consider (opened) T where "map_of (storage_trie_map w) a = Some T"
    | (stored) v where "map_of (storage_trie_map w) a = None" "m (account_key ?V a StorageHash) = Some v"
    | (created) "map_of (storage_trie_map w) a = None" "m (account_key ?V a StorageHash) = None"
    by fastforce
  then show ?thesis
  proof cases
    case (opened T)
    then show ?thesis
      using R storage_relD [OF rel opened]
      by (intro exI [of _ T] exI [of _ w] exI [of _ m]) (simp add: ws_storage_trie_mut_def)
  next
    case (stored v)
    obtain T w' where w': "ws_storage_trie_mut E w a = Some (Inr T, w')" "st_holds M T (S a)"
      "w' = w\<lparr>storage_trie_map := hm_insert a T (storage_trie_map w)\<rparr>" "ws_rel M w' m S"
      "ws_apart w \<longrightarrow> ws_apart w'"
      using ws_storage_trie_mut_stored [OF C R stored] by blast
    then show ?thesis
      by (intro exI [of _ T] exI [of _ w'] exI [of _ m]) (simp add: ws_version_def)
  next
    case created
    let ?T = "st_new E ?V (ws_db w) a" and ?k = "account_key ?V a StorageHash"
    let ?m = "m(?k \<mapsto> b32_bytes (st_root_hash ?T))"
    obtain A' where A': "ws_storage_trie_mut E w a = Some (Inr ?T,
        w\<lparr>accounts_trie := A', storage_trie_map := hm_insert a ?T (storage_trie_map w)\<rparr>)"
      "S a = Map.empty" "same_frame (at_trie (accounts_trie w)) (at_trie A')"
      "ws_rel M (w\<lparr>accounts_trie := A', storage_trie_map := hm_insert a ?T (storage_trie_map w)\<rparr>) ?m S"
      using ws_storage_trie_mut_created [OF C R created] by blast
    let ?w = "w\<lparr>accounts_trie := A', storage_trie_map := hm_insert a ?T (storage_trie_map w)\<rparr>"
    have "user_account ?V ?m b = user_account ?V m b" for b
      using user_account_storage_hash [of ?V a "b32_bytes (st_root_hash ?T)" m b]
      by (simp add: put_content_def)
    moreover have "ws_version w = V2 \<and> ws_apart w \<longrightarrow> ws_apart ?w"
      using ws_storage_trie_mut_created_apart [OF C R _ _ A'(3)] by auto
    ultimately show ?thesis
      using A'(1,2,4) st_new_ok(1) [OF C, of ?V "ws_db w" a] same_frame_version [OF A'(3)]
      by (intro exI [of _ ?T] exI [of _ ?w] exI [of _ ?m]) (simp add: ws_version_def)
  qed
qed

section \<open>Upgrade\<close>

lemma st_upgrade_home:
  assumes "trie_contract E M" "st_holds M T s" "storage_home V1 d a T"
  shows "\<exists>T'. st_upgrade E T = Inr T' \<and> st_holds M T' s \<and> storage_home V2 d a T'"
  using st_upgrade_ok [OF assms(1,2)] assms(3) by (auto simp: storage_home_def)

lemma upgrade_storages_ok:
  assumes C: "trie_contract E M"
  shows "\<forall>(a, h) \<in> set es. st_holds M (src a h) (S a) \<and> storage_home V1 d a (src a h) \<Longrightarrow>
    distinct (map fst R) \<Longrightarrow>
    \<forall>a T. map_of R a = Some T \<longrightarrow> st_holds M T (S a) \<and> storage_home V2 d a T \<Longrightarrow>
    \<exists>R'. try_fold (\<lambda>(address, storage_hash) storage_map.
           let storage_trie_v1 = src address storage_hash
           in map_ok (\<lambda>storage_trie_v2. hm_insert address storage_trie_v2 storage_map)
                (st_upgrade E storage_trie_v1)) es R = Inr R' \<and>
      distinct (map fst R') \<and> dom (map_of R') = fst ` set es \<union> dom (map_of R) \<and>
      (\<forall>a T. map_of R' a = Some T \<longrightarrow> st_holds M T (S a) \<and> storage_home V2 d a T)"
proof (induction es arbitrary: R)
  case Nil
  then show ?case by simp
next
  case (Cons e es)
  obtain a h where e: "e = (a, h)" by (cases e)
  obtain T' where T': "st_upgrade E (src a h) = Inr T'" "st_holds M T' (S a)" "storage_home V2 d a T'"
    using st_upgrade_home [OF C, of "src a h" "S a" d a] Cons.prems(1) by (auto simp: e)
  let ?R = "hm_insert a T' R"
  have R: "\<forall>b T. map_of ?R b = Some T \<longrightarrow> st_holds M T (S b) \<and> storage_home V2 d b T"
    using Cons.prems(3) T'(2,3) by simp
  obtain R' where "try_fold (\<lambda>(address, storage_hash) storage_map.
           let storage_trie_v1 = src address storage_hash
           in map_ok (\<lambda>storage_trie_v2. hm_insert address storage_trie_v2 storage_map)
                (st_upgrade E storage_trie_v1)) es ?R = Inr R'"
    "distinct (map fst R')" "dom (map_of R') = fst ` set es \<union> dom (map_of ?R)"
    "\<forall>a T. map_of R' a = Some T \<longrightarrow> st_holds M T (S a) \<and> storage_home V2 d a T"
    using Cons.IH [OF _ _ R] Cons.prems(1,2) by (metis (no_types, lifting) distinct_hm_insert list.set_intros(2))
  then show ?case
    by (intro exI [of _ R']) (auto simp only: e T'(1) try_fold.simps map_ok.simps and_then.simps
        prod.case Let_def map_of_hm_insert dom_fun_upd list.set image_insert fst_conv option.distinct if_False)
qed

lemma upgrade_entry_iff:
  assumes "at_holds M T m" "at_version T = V1"
  shows "Option.bind (m (account_key V1 a StorageHash)) b32_try_from = None \<longleftrightarrow>
    m (account_key V1 a StorageHash) = None"
  using at_field [OF assms(1), of a StorageHash]
  by (cases "m (account_key V1 a StorageHash)") (simp_all add: assms(2) field_ok_def b32_try_from_def)

lemma upgrade_source:
  assumes rel: "storage_rel M w m a (S a)" and V: "ws_version w = V1"
    and h: "Option.bind (m (account_key V1 a StorageHash)) b32_try_from = Some h"
  defines "T \<equiv> case map_of (storage_trie_map w) a of Some T \<Rightarrow> T
     | None \<Rightarrow> st_open V1 (ws_db w) h a"
  shows "st_holds M T (S a) \<and> storage_home V1 (ws_db w) a T"
proof -
  obtain v where "m (account_key V1 a StorageHash) = Some v" "v = b32_bytes h"
    using h by (auto simp: bind_eq_Some_conv b32_try_from_Some_iff)
  then show ?thesis
    using rel V by (auto simp: T_def storage_rel_def split: option.splits)
qed

lemma upgraded_ws_rel:
  assumes R: "ws_rel M w m S" and V: "ws_version w = V1"
    and T2: "at_holds M T2 m2" "accounts_home V2 (ws_db w) T2"
    and no_hash: "\<And>a. m2 (account_key V2 a StorageHash) = None"
    and st: "distinct (map fst st)" "\<And>a T. map_of st a = Some T \<Longrightarrow> st_holds M T (S a) \<and> storage_home V2 (ws_db w) a T"
    and dom: "\<And>a. map_of st a = None \<Longrightarrow> m (account_key V1 a StorageHash) = None"
  shows "ws_rel M \<lparr>accounts_trie = T2, storage_trie_map = st, ws_db = ws_db w\<rparr> m2 S"
proof -
  let ?w2 = "\<lparr>accounts_trie = T2, storage_trie_map = st, ws_db = ws_db w\<rparr>"
  have ver: "ws_version ?w2 = V2" using T2(2) by (simp add: ws_version_def accounts_home_def)
  have "storage_rel M ?w2 m2 a (S a)" for a
  proof (cases "map_of st a")
    case (Some T)
    then show ?thesis using st(2) by (simp add: storage_rel_def ver)
  next
    case None
    have "storage_rel M w m a (S a)"
      "map_of (storage_trie_map w) a \<noteq> None \<longrightarrow> m (account_key V1 a StorageHash) \<noteq> None"
      using R V by (auto simp: ws_rel_def ws_version_def)
    then have "S a = Map.empty"
      using dom [OF None] V by (auto simp: storage_rel_def split: option.splits)
    then show ?thesis
      using None no_hash [of a] unfolding storage_rel_def ver by simp
  qed
  then show ?thesis using T2 st(1) by (simp add: ws_rel_def ver)
qed

lemma ws_upgrade_ok:
  assumes C: "trie_contract E M" and R: "ws_rel M w m S" and V: "ws_version w = V1"
  shows "\<exists>w2 m2. ws_upgrade E w = Some (Inr w2) \<and> ws_version w2 = V2 \<and> ws_db w2 = ws_db w \<and>
     ws_rel M w2 m2 S \<and> (\<forall>a. user_account V2 m2 a = user_account V1 m a) \<and>
     upgraded_content m m2 \<and>
     (\<forall>a. map_of (storage_trie_map w2) a \<noteq> None \<longleftrightarrow> m (account_key V1 a StorageHash) \<noteq> None)"
proof -
  have T: "at_holds M (accounts_trie w) m" "at_version (accounts_trie w) = V1"
    "accounts_home V1 (ws_db w) (accounts_trie w)"
    and srel: "\<And>a. storage_rel M w m a (S a)"
    using R V by (auto simp: ws_rel_def ws_version_def)
  obtain T2 st m2 where up: "at_upgrade E (accounts_trie w) = Some (Inr (T2, st))"
    "at_holds M T2 m2" "at_version T2 = V2" "upgraded_content m m2" "distinct (map fst st)"
    "\<And>a. map_of st a = Option.bind (m (account_key V1 a StorageHash)) b32_try_from"
    "storage (db (at_trie T2)) = storage (db (at_trie (accounts_trie w)))"
    "prefix (db (at_trie T2)) = prefix (db (at_trie (accounts_trie w)))"
    "kdb_inv (db (at_trie (accounts_trie w))) \<longrightarrow> kdb_inv (db (at_trie T2))"
    using at_upgrade_ok [OF C T(1,2)] by blast
  let ?es = "visit (hash_order E) st"
  have es: "map_of ?es = map_of st" "set ?es = set st"
    using visit_map [OF trie_visit [OF C] up(5)] visit_props [OF trie_visit [OF C]] by simp_all
  let ?src = "\<lambda>a h. case map_of (storage_trie_map w) a of Some T \<Rightarrow> T
                   | None \<Rightarrow> st_open V1 (ws_db w) h a"
  have src: "\<forall>(a, h) \<in> set ?es. st_holds M (?src a h) (S a) \<and> storage_home V1 (ws_db w) a (?src a h)"
  proof (clarify)
    fix a h assume "(a, h) \<in> set ?es"
    then have "map_of st a = Some h" using up(5) es(2) by simp
    then show "st_holds M (?src a h) (S a) \<and> storage_home V1 (ws_db w) a (?src a h)"
      by (intro upgrade_source [of M w m a S, OF srel V]) (simp add: up(6))
  qed
  obtain R' where R': "try_fold (\<lambda>(address, storage_hash) storage_map.
           let storage_trie_v1 = ?src address storage_hash
           in map_ok (\<lambda>storage_trie_v2. hm_insert address storage_trie_v2 storage_map)
                (st_upgrade E storage_trie_v1)) ?es [] = Inr R'"
    "distinct (map fst R')" "dom (map_of R') = fst ` set st"
    "\<And>a T. map_of R' a = Some T \<Longrightarrow> st_holds M T (S a) \<and> storage_home V2 (ws_db w) a T"
    using upgrade_storages_ok [OF C, of ?es ?src S "ws_db w" "[]", OF src] es(2) by auto
  let ?w2 = "\<lparr>accounts_trie = T2, storage_trie_map = R', ws_db = ws_db w\<rparr>"
  have eq: "ws_upgrade E w = Some (Inr ?w2)"
    unfolding ws_upgrade_def up(1) by (simp only: option.case sum.case prod.case R'(1) map_ok.simps)
  have ver: "ws_version ?w2 = V2" by (simp add: ws_version_def up(3))
  have none: "map_of R' a = None \<longleftrightarrow> m (account_key V1 a StorageHash) = None" for a
    using upgrade_entry_iff [OF T(1,2), of a] R'(3) up(6) by (metis dom_map_of_conv_image_fst domIff)
  have "ws_rel M ?w2 m2 S"
    by (rule upgraded_ws_rel [OF R V up(2)])
       (use up(3,4,7,8,9) T(3) R'(2,4) none in \<open>simp_all add: accounts_home_def upgraded_content_def\<close>)
  moreover have "user_account V2 m2 a = user_account V1 m a" for a
    using upgraded_content_accounts [OF up(4)] by (simp add: user_account_def)
  ultimately show ?thesis
    using up(4) none by (intro exI [of _ ?w2] exI [of _ m2]) (simp add: eq ver)
qed

section \<open>Properties\<close>

lemma ws_apart_put_storage:
  assumes R: "ws_rel M w m S" and V: "ws_version w = V2" "ws_apart w"
    and T: "map_of (storage_trie_map w) a = Some T" "same_frame (st_trie T) (st_trie T')"
  shows "ws_apart (ws_put_storage a T' w)"
proof -
  have "storage_rel M w m a (S a)" using R by (simp add: ws_rel_def)
  then have "storage_home V2 (ws_db w) a T" using T(1) V(1) by (simp add: storage_rel_def)
  moreover have "apart (db (st_trie T))" using V(2) T(1) by (simp add: ws_apart_def)
  ultimately have "apart (db (st_trie T'))" by (rule storage_frame_apart [OF _ T(2)])
  then show ?thesis using V(2) by (simp add: ws_apart_def ws_put_storage_def)
qed

lemma ws_put_storage_fields [simp]:
  "ws_version (ws_put_storage a T w) = ws_version w" "ws_db (ws_put_storage a T w) = ws_db w"
  by (simp_all add: ws_put_storage_def ws_version_def)

definition flat_world_accounts :: "version \<Rightarrow> (bytes \<times> bytes) list" where
  "flat_world_accounts V =
     [(account_key V (b32_fill 7) Nonce, u64_to_le 300),
      (account_key V (b32_fill 7) StorageHash,
       b32_bytes (st_root_hash (flat_storage_trie V (b32_fill 7) [([1], [2])])))]"

text \<open>One account with a nonce and one storage entry, stored by the concrete library.\<close>

definition flat_world :: "version \<Rightarrow> world_state" where
  "flat_world V =
     ws_open V (storage (db (st_trie (flat_storage_trie V (b32_fill 7) [([1], [2])]))) ++
                flat_storage V [] (flat_world_accounts V))
       (flat_hash (enc_entries (flat_world_accounts V)))"

lemma flat_world_rel:
  "ws_rel flat_model (flat_world V) (map_of (flat_world_accounts V))
     ((\<lambda>_. Map.empty)(b32_fill 7 := [[1] \<mapsto> [2]]))"
proof -
  let ?T = "flat_storage_trie V (b32_fill 7) [([1], [2])]"
  let ?s = "storage (db (st_trie ?T)) ++ flat_storage V [] (flat_world_accounts V)"
  have opened: "touched_by flat_model W (at_trie (at_open V ?s r))"
    "touched_by flat_model W (st_trie (st_open V ?s r a))" for W r a
    by (simp_all add: touched_by_none at_open_def st_open_def mpt_open_def)
  have len: "key_tag V (b32_bytes a) @ b32_bytes h \<noteq> key_tag V [] @ b32_bytes h'" for a h h'
    by (cases V) (auto simp: key_tag_def dest: arg_cong [of _ _ length])
  let ?A = "at_open V ?s (flat_hash (enc_entries (flat_world_accounts V)))"
  have ver: "at_version ?A = V" by (simp add: at_version_def at_open_def mpt_open_def)
  have A: "at_holds flat_model (flat_accounts V (flat_world_accounts V)) (map_of (flat_world_accounts V))"
    by (rule flat_accounts_hold) (auto simp: flat_world_accounts_def field_ok_def)
  then have "mpt_holds flat_model (at_trie ?A) (map_of (flat_world_accounts V))"
    by (simp add: at_holds_def mpt_holds_def flat_accounts_def flat_mpt_def mpt_open_def
        at_open_def flat_model_def ref_view_def kdb_get_fun build_key_tag flat_storage_def)
  then have accounts: "at_holds flat_model ?A (map_of (flat_world_accounts V))"
    using at_holds_wf [OF A] opened(1) unfolding at_holds_def ver flat_accounts_version by blast
  let ?T' = "st_open V ?s (st_root_hash ?T) (b32_fill 7)"
  have ver': "st_version ?T' = V" by (simp add: st_version_def st_open_def mpt_open_def)
  have "st_holds flat_model ?T (map_of [([1], [2])])"
    by (rule flat_storage_trie_holds) simp_all
  then obtain m where m: "mpt_holds flat_model (st_trie ?T) m" "storage_wf V m" "[[1] \<mapsto> [2]] = storage_at V m"
    by (auto elim: st_holdsE)
  have "mpt_holds flat_model (st_trie ?T') m"
    using m(1) by (simp add: mpt_holds_def flat_storage_trie_def flat_mpt_def
        mpt_open_def st_open_def st_root_hash_def flat_model_def ref_view_def kdb_get_fun build_key_tag
        flat_storage_def map_add_def len del: b32_bytes_fill)
  then have storage: "st_holds flat_model ?T' [[1] \<mapsto> [2]]"
    unfolding m(3) by (rule st_holdsI [of flat_model ?T' m, unfolded ver', OF _ m(2) opened(2)])
  show ?thesis
    using accounts storage
    by (auto simp: ws_rel_def flat_world_def accounts_home_def at_open_def mpt_open_def at_version_def
        storage_rel_def flat_world_accounts_def)
qed

lemma flat_world_version [simp]: "ws_version (flat_world V) = V"
  by (simp add: flat_world_def)

lemma ws_open_apart [simp]: "ws_apart (ws_open V s r)"
  by (simp add: ws_apart_def ws_open_def at_open_def mpt_open_def apart_def touched_def)

lemma flat_world_apart: "ws_apart (flat_world V)"
  by (simp add: flat_world_def)

text \<open>
  \<open>storage_trie_mut\<close>, and \<open>storage_trie\<close> alike, returns a trie with exactly the storage of
  the account, whether it was opened before, is stored in the database, or does not exist
  yet; the accounts and the storages of the world state stay what they were.
\<close>

theorem world_storage_trie:
  assumes "trie_contract E M" "ws_rel M w m S"
  shows "ws_storage_trie E w a = ws_storage_trie_mut E w a \<and>
    (\<exists>T w' m'. ws_storage_trie_mut E w a = Some (Inr T, w') \<and> st_holds M T (S a) \<and>
       map_of (storage_trie_map w') a = Some T \<and> ws_rel M w' m' S \<and>
       (ws_version w = V2 \<and> ws_apart w \<longrightarrow> ws_apart w') \<and>
       user_account (ws_version w) m' = user_account (ws_version w) m)"
  using ws_storage_trie_mut_ok [OF assms, of a] unfolding ws_storage_trie_eq fun_eq_iff by blast

theorem world_storage_trie_witness:
  "\<exists>T w'. ws_storage_trie_mut flat_lib (flat_world V1) (b32_fill 7) = Some (Inr T, w') \<and>
     st_holds flat_model T [[1] \<mapsto> [2]]"
  using world_storage_trie [OF flat_contract flat_world_rel, of V1 "b32_fill 7"] by auto

text \<open>
  C6: Writing one key through the reference that \<open>storage_trie_mut\<close> returns updates that key of
  that account's storage; every other storage and all accounts are unchanged, and reading the
  key back through \<open>storage_trie\<close> gives the written value.
\<close>

theorem world_storage_write:
  assumes "trie_contract E M" "ws_rel M w m S" "v \<noteq> []"
  shows "\<exists>T w1 T' w2 T'' m'. ws_storage_trie_mut E w a = Some (Inr T, w1) \<and>
    st_set E T k v = (Inr (), T') \<and>
    ws_rel M (ws_put_storage a T' w1) m' (S(a := (S a)(k \<mapsto> v))) \<and>
    user_account (ws_version w) m' = user_account (ws_version w) m \<and>
    (ws_version w = V2 \<and> ws_apart w \<longrightarrow> ws_apart (ws_put_storage a T' w1)) \<and>
    ws_storage_trie E (ws_put_storage a T' w1) a = Some (Inr T'', w2) \<and>
    st_get E T'' k = Inr (Some v)"
proof -
  obtain T w1 m' where o: "ws_storage_trie_mut E w a = Some (Inr T, w1)" "st_holds M T (S a)"
    "map_of (storage_trie_map w1) a = Some T" "ws_rel M w1 m' S" "ws_version w1 = ws_version w"
    "ws_version w = V2 \<and> ws_apart w \<longrightarrow> ws_apart w1"
    "\<And>b. user_account (ws_version w) m' b = user_account (ws_version w) m b"
    using ws_storage_trie_mut_ok [OF assms(1,2), of a] by blast
  obtain T' where T': "st_set E T k v = (Inr (), T')" "st_holds M T' ((S a)(k \<mapsto> v))"
    "same_frame (st_trie T) (st_trie T')"
    using st_set_ok [OF assms(1) o(2), of k v] assms(3) by (auto simp: put_content_def)
  note p = ws_put_storage_ok [OF o(4,3) T'(2,3)]
  obtain T'' w2 where r: "ws_storage_trie_mut E (ws_put_storage a T' w1) a = Some (Inr T'', w2)"
    "st_holds M T'' ((S(a := (S a)(k \<mapsto> v))) a)"
    using ws_storage_trie_mut_ok [OF assms(1) p, of a] by blast
  have "st_get E T'' k = Inr (Some v)"
    using st_get_ok [OF assms(1) r(2)] by simp
  moreover have "ws_version w = V2 \<and> ws_apart w \<longrightarrow> ws_apart (ws_put_storage a T' w1)"
    using ws_apart_put_storage [OF o(4) _ _ o(3) T'(3)] o(5,6) by simp
  ultimately show ?thesis
    using o(1,7) T'(1) p r(1) unfolding ws_storage_trie_eq fun_eq_iff by blast
qed

theorem world_storage_write_witness:
  "\<exists>T w1 T' m'. ws_storage_trie_mut flat_lib (flat_world V2) (b32_fill 7) = Some (Inr T, w1) \<and>
    st_set flat_lib T [5] [6] = (Inr (), T') \<and>
    ws_rel flat_model (ws_put_storage (b32_fill 7) T' w1) m'
      ((\<lambda>_. Map.empty)(b32_fill 7 := [[1] \<mapsto> [2], [5] \<mapsto> [6]]))"
  using world_storage_write [OF flat_contract flat_world_rel, of "[6]" V2 "b32_fill 7" "[5]"]
  by fastforce

text \<open>
  C4: Upgrading a version 1 world state succeeds without a panic and yields a version 2 world
  state with the same accounts and the same storage for every address, over the same
  database.
\<close>

theorem world_upgrade:
  assumes "trie_contract E M" "ws_rel M w m S" "ws_version w = V1"
  shows "\<exists>w2 m2. ws_upgrade E w = Some (Inr w2) \<and> ws_version w2 = V2 \<and> ws_db w2 = ws_db w \<and>
    ws_rel M w2 m2 S \<and> user_account V2 m2 = user_account V1 m"
  using ws_upgrade_ok [OF assms] unfolding fun_eq_iff by blast

theorem world_upgrade_witness:
  "\<exists>w2 m2. ws_upgrade flat_lib (flat_world V1) = Some (Inr w2) \<and>
     ws_rel flat_model w2 m2 ((\<lambda>_. Map.empty)(b32_fill 7 := [[1] \<mapsto> [2]]))"
  using world_upgrade [OF flat_contract flat_world_rel flat_world_version] by blast

end
