(* ===== verification/World_Close.thy ===== *)
theory World_Close
  imports World_State
begin

text \<open>
  Closing a world state and opening it again on the changed database.  The changes of all tries
  go to one database; each trie is found again when no other one changed a physical key of its
  nodes (\<open>separate\<close>).  In version 2 this holds of every world state whose tries collected their
  changes in version 2; in version 1, and for the first closing after an upgrade, it is a
  condition on the keys of the nodes.
\<close>

section \<open>Separate tries\<close>

text \<open>The physical keys of the nodes of a trie.\<close>

definition node_keys :: "'t trie_model \<Rightarrow> mpt \<Rightarrow> bytes set" where
  "node_keys M t = build_key (db t) ` nodes M (kdb_get (db t)) (root_hash t)"

lemma node_keys_keyspace: "node_keys M t \<subseteq> keyspace (kdb_version (db t)) (prefix (db t))"
  by (auto simp: node_keys_def)

lemma reopened_holds:
  assumes C: "trie_contract E M" and t: "mpt_holds M t m" "kdb_inv (db t)"
    and c: "\<And>x. x \<in> node_keys M t \<Longrightarrow> same_changes c (db t) x"
  shows "mpt_holds M (mpt_open (reopened c (db t)) (root_hash t)) m"
proof -
  have "kdb_get (reopened c (db t)) k = kdb_get (db t) k" if "k \<in> nodes M (kdb_get (db t)) (root_hash t)" for k
    by (rule reopen_get_at [OF t(2) c]) (use that in \<open>simp add: node_keys_def\<close>)
  then show ?thesis
    using trie_nodes [OF C, of "kdb_get (db t)" "root_hash t" m "kdb_get (reopened c (db t))"] t(1)
    by (simp add: mpt_holds_def mpt_open_def)
qed

text \<open>
  The tries at the time \<open>close\<close> hands out the changes: the accounts trie with the new storage
  hashes, the opened storage tries, and those left in the database.
\<close>

definition closing_accounts :: "'t trie_lib \<Rightarrow> world_state \<Rightarrow> accounts_trie" where
  "closing_accounts E w =
     snd (close_storages E (visit (hash_order E) (storage_trie_map w)) (accounts_trie w) (Map.empty, {}))"

definition closing_trie :: "'t trie_lib \<Rightarrow> world_state \<Rightarrow> b32 option \<Rightarrow> mpt option" where
  "closing_trie E w x =
     (case x of
        None \<Rightarrow> Some (at_trie (closing_accounts E w))
      | Some a \<Rightarrow>
     (case map_of (storage_trie_map w) a of
        Some T \<Rightarrow> Some (st_trie T)
      | None \<Rightarrow>
     (case at_storage_hash E (accounts_trie w) a of
        Some (Inr (Some h)) \<Rightarrow> Some (st_trie (st_open (ws_version w) (ws_db w) h a))
      | _ \<Rightarrow> None)))"

definition separate :: "'t trie_lib \<Rightarrow> 't trie_model \<Rightarrow> world_state \<Rightarrow> bool" where
  "separate E M w \<longleftrightarrow>
     (\<forall>x y t t'. closing_trie E w x = Some t \<longrightarrow> closing_trie E w y = Some t' \<longrightarrow> x \<noteq> y \<longrightarrow>
        node_keys M t \<inter> touched (db t') = {})"

fun home :: "b32 option \<Rightarrow> bytes" where
  "home None = []"
| "home (Some a) = b32_bytes a"

lemma home_inj [simp]: "home x = home y \<longleftrightarrow> x = y"
  by (cases x; cases y) (auto dest: arg_cong [of _ _ length])

lemma valid_home [simp]: "valid_prefix (home x)"
  by (cases x) simp_all

section \<open>Closing\<close>

abbreviation storage_dbs :: "(b32 \<times> storage_trie) list \<Rightarrow> kdb list" where
  "storage_dbs es \<equiv> map (\<lambda>e. db (st_trie (snd e))) es"

lemma st_close_eq:
  "fst (st_close T) = (inserts (db (st_trie T)), deletes (db (st_trie T)), st_root_hash T)"
  by (simp add: st_close_def mpt_close_ok st_root_hash_def)

lemma close_storages_ok:
  assumes C: "trie_contract E M"
  shows "at_holds M A m \<Longrightarrow> distinct (map fst es) \<Longrightarrow>
    \<exists>A' m'. close_storages E es A c =
        (Inr (fold (\<lambda>d i. i ++ inserts d) (storage_dbs es) (fst c),
              snd c \<union> \<Union>(deletes ` set (storage_dbs es))), A') \<and>
      at_holds M A' m' \<and> same_frame (at_trie A) (at_trie A') \<and>
      (\<forall>b. m' (account_key (at_version A) b StorageHash) =
         (case map_of es b of Some T \<Rightarrow> Some (b32_bytes (st_root_hash T))
                            | None \<Rightarrow> m (account_key (at_version A) b StorageHash))) \<and>
      (\<forall>b f. f \<noteq> StorageHash \<longrightarrow> m' (account_key (at_version A) b f) = m (account_key (at_version A) b f)) \<and>
      (\<forall>b. user_account (at_version A) m' b = user_account (at_version A) m b)"
proof (induction es arbitrary: A m c)
  case Nil
  then show ?case by (intro exI [of _ A] exI [of _ m]) simp
next
  case (Cons e es)
  obtain a T where e: "e = (a, T)" by (cases e)
  let ?V = "at_version A"
  define m1 where "m1 = m(account_key ?V a StorageHash \<mapsto> b32_bytes (st_root_hash T))"
  obtain A1 where A1: "at_set_storage_hash E A a (st_root_hash T) = (Inr (), A1)"
    "at_holds M A1 m1" "same_frame (at_trie A) (at_trie A1)"
    using at_set_storage_hash_ok [OF C Cons.prems(1), of a "st_root_hash T"] by (auto simp: m1_def)
  have v: "at_version A1 = ?V" by (rule same_frame_version [OF A1(3)])
  let ?c = "(fst c ++ inserts (db (st_trie T)), snd c \<union> deletes (db (st_trie T)))"
  obtain A' m' where IH: "close_storages E es A1 ?c =
        (Inr (fold (\<lambda>d i. i ++ inserts d) (storage_dbs es) (fst ?c),
              snd ?c \<union> \<Union>(deletes ` set (storage_dbs es))), A')"
    "at_holds M A' m'" "same_frame (at_trie A1) (at_trie A')"
    "\<And>b. m' (account_key ?V b StorageHash) =
         (case map_of es b of Some T \<Rightarrow> Some (b32_bytes (st_root_hash T))
                            | None \<Rightarrow> m1 (account_key ?V b StorageHash))"
    "\<And>b f. f \<noteq> StorageHash \<Longrightarrow> m' (account_key ?V b f) = m1 (account_key ?V b f)"
    "\<And>b. user_account ?V m' b = user_account ?V m1 b"
    using Cons.IH [OF A1(2), of ?c] Cons.prems(2) unfolding v by auto
  have close: "close_storages E (e # es) A c = close_storages E es A1 ?c"
    using A1(1) by (simp add: e st_close_eq split: unit.split)
  have user: "user_account ?V m1 b = user_account ?V m b" for b
    using user_account_storage_hash [of ?V a "b32_bytes (st_root_hash T)" m b]
    by (simp add: m1_def put_content_def)
  have a: "map_of es a = None"
    using Cons.prems(2) by (simp add: e map_of_eq_None_iff)
  have run: "close_storages E (e # es) A c =
      (Inr (fold (\<lambda>d i. i ++ inserts d) (storage_dbs (e # es)) (fst c),
            snd c \<union> \<Union>(deletes ` set (storage_dbs (e # es)))), A')"
    unfolding close IH(1) by (simp add: e Un_assoc)
  have hash: "m' (account_key ?V b StorageHash) =
      (case map_of (e # es) b of Some T \<Rightarrow> Some (b32_bytes (st_root_hash T))
                               | None \<Rightarrow> m (account_key ?V b StorageHash))" for b
    using a by (auto simp: IH(4) e m1_def split: option.split)
  have other: "f \<noteq> StorageHash \<Longrightarrow> m' (account_key ?V b f) = m (account_key ?V b f)" for b f
    by (simp add: IH(5) m1_def)
  show ?case
    by (rule exI [of _ A'], rule exI [of _ m'], intro conjI allI impI)
      (rule run IH(2) same_frame_trans [OF A1(3) IH(3)] hash other IH(6) [unfolded user] | assumption)+
qed

lemma ws_close_run:
  assumes C: "trie_contract E M" and R: "ws_rel M w m S"
  defines "es \<equiv> visit (hash_order E) (storage_trie_map w)"
  defines "A \<equiv> closing_accounts E w"
  shows "\<exists>m' w'. ws_close E w =
      (Inr (fst (joined (storage_dbs es @ [db (at_trie A)])),
            snd (joined (storage_dbs es @ [db (at_trie A)])), root_hash (at_trie A)), w') \<and>
    storage_trie_map w' = storage_trie_map w \<and>
    at_holds M A m' \<and> same_frame (at_trie (accounts_trie w)) (at_trie A) \<and>
    (\<forall>b. m' (account_key (ws_version w) b StorageHash) =
       (case map_of (storage_trie_map w) b of Some T \<Rightarrow> Some (b32_bytes (st_root_hash T))
          | None \<Rightarrow> m (account_key (ws_version w) b StorageHash))) \<and>
    (\<forall>b f. f \<noteq> StorageHash \<longrightarrow> m' (account_key (ws_version w) b f) = m (account_key (ws_version w) b f)) \<and>
    (\<forall>b. user_account (ws_version w) m' b = user_account (ws_version w) m b)"
proof -
  have d: "distinct (map fst (storage_trie_map w))" and A0: "at_holds M (accounts_trie w) m"
    using R by (simp_all add: ws_rel_def)
  have es: "distinct (map fst es)" "map_of es = map_of (storage_trie_map w)"
    using visit_map [OF trie_visit [OF C] d] by (simp_all add: es_def)
  obtain A' m' where A': "close_storages E es (accounts_trie w) (Map.empty, {}) =
        (Inr (fst (joined (storage_dbs es)), snd (joined (storage_dbs es))), A')"
    "at_holds M A' m'" "same_frame (at_trie (accounts_trie w)) (at_trie A')"
    "\<And>b. m' (account_key (ws_version w) b StorageHash) =
         (case map_of es b of Some T \<Rightarrow> Some (b32_bytes (st_root_hash T))
                            | None \<Rightarrow> m (account_key (ws_version w) b StorageHash))"
    "\<And>b f. f \<noteq> StorageHash \<Longrightarrow> m' (account_key (ws_version w) b f) = m (account_key (ws_version w) b f)"
    "\<And>b. user_account (ws_version w) m' b = user_account (ws_version w) m b"
    using close_storages_ok [OF C A0 es(1), of "(Map.empty, {})", folded ws_version_def]
    unfolding joined_def fst_conv snd_conv Un_empty_left by blast
  have "A' = A" using A'(1) by (simp add: A_def closing_accounts_def es_def)
  note A = A' [unfolded this]
  have close: "ws_close E w =
      (Inr (fst (joined (storage_dbs es @ [db (at_trie A)])),
            snd (joined (storage_dbs es @ [db (at_trie A)])), root_hash (at_trie A)),
       w\<lparr>accounts_trie := snd (at_close A)\<rparr>)"
    unfolding ws_close_def es_def [symmetric] A(1)
    by (simp add: at_close_def mpt_close_ok joined_snoc split: prod.split)
  show ?thesis
    by (rule exI [of _ m'], rule exI [of _ "w\<lparr>accounts_trie := snd (at_close A)\<rparr>"])
       (simp add: close A es(2) [symmetric])
qed

section \<open>Opening again\<close>

lemma closing_trie_home:
  assumes C: "trie_contract E M" and R: "ws_rel M w m S" and t: "closing_trie E w x = Some t"
  shows "prefix (db t) = home x" "kdb_version (db t) = ws_version w" "storage (db t) = ws_db w" "kdb_inv (db t)"
    and "ws_version w = V2 \<Longrightarrow> ws_apart w \<Longrightarrow> apart (db t)"
proof -
  have acc: "accounts_home (ws_version w) (ws_db w) (accounts_trie w)"
    and srel: "\<And>a. storage_rel M w m a (S a)"
    using R by (auto simp: ws_rel_def)
  have "prefix (db t) = home x \<and> kdb_version (db t) = ws_version w \<and> storage (db t) = ws_db w \<and>
      kdb_inv (db t) \<and> (ws_version w = V2 \<longrightarrow> ws_apart w \<longrightarrow> apart (db t))"
  proof (cases x)
    case None
    have f: "same_frame (at_trie (accounts_trie w)) (at_trie (closing_accounts E w))"
      using ws_close_run [OF C R] by blast
    have "ws_version w = V2 \<Longrightarrow> ws_apart w \<Longrightarrow> apart (db (at_trie (closing_accounts E w)))"
      using accounts_frame_apart [OF _ f] acc by (simp add: ws_apart_def)
    then show ?thesis
      using accounts_home_frame [OF acc f] t None
      by (auto simp: closing_trie_def accounts_home_def at_version_def)
  next
    case (Some a)
    show ?thesis
    proof (cases "map_of (storage_trie_map w) a")
      case (Some T)
      then show ?thesis
        using storage_relD [OF srel Some] t \<open>x = _\<close>
        by (auto simp: closing_trie_def storage_home_def st_version_def ws_apart_def)
    next
      case None
      then obtain h where "t = st_trie (st_open (ws_version w) (ws_db w) h a)"
        using t Some by (auto simp: closing_trie_def split: option.splits sum.splits)
      then show ?thesis
        using st_open_home [of "ws_version w" "ws_db w" a h] st_open_apart Some
        by (simp add: storage_home_def st_version_def)
    qed
  qed
  then show "prefix (db t) = home x" "kdb_version (db t) = ws_version w" "storage (db t) = ws_db w"
    "kdb_inv (db t)" "ws_version w = V2 \<Longrightarrow> ws_apart w \<Longrightarrow> apart (db t)"
    by simp_all
qed

text \<open>What \<open>close\<close> hands out is finite.\<close>

lemma ws_close_finite:
  assumes C: "trie_contract E M" and R: "ws_rel M w m S" and c: "ws_close E w = (Inr (ins, del, r), w')"
  shows "finite (dom ins)" "finite del"
proof -
  let ?es = "visit (hash_order E) (storage_trie_map w)"
  define ds where "ds = storage_dbs ?es @ [db (at_trie (closing_accounts E w))]"
  have "map_of ?es = map_of (storage_trie_map w)" "distinct (map fst ?es)"
    using visit_map [OF trie_visit [OF C], of "storage_trie_map w"] R by (simp_all add: ws_rel_def)
  then have opened: "closing_trie E w (Some a) = Some (st_trie T)" if "(a, T) \<in> set ?es" for a T
    using that by (metis (no_types, lifting) closing_trie_def map_of_is_SomeI option.case(2))
  have "kdb_inv d" if "d \<in> set ds" for d
    using that closing_trie_home(4) [OF C R, of None] closing_trie_home(4) [OF C R opened]
    by (auto simp: ds_def closing_trie_def)
  then have fin: "finite (dom (inserts d)) \<and> finite (deletes d)" if "d \<in> set ds" for d
    using that by (simp add: kdb_inv_def)
  have "finite (dom (fst (joined ds))) \<and> finite (snd (joined ds))"
    using fin
  proof (induction ds rule: rev_induct)
    case Nil
    show ?case by (simp add: joined_def)
  next
    case (snoc d ds)
    then show ?case by (simp add: joined_snoc)
  qed
  moreover have "ins = fst (joined ds)" "del = snd (joined ds)"
    using ws_close_run [OF C R] c by (auto simp: ds_def)
  ultimately show "finite (dom ins)" "finite del" by simp_all
qed

text \<open>In version 2 tries that collected their changes in version 2 are separate.\<close>

lemma v2_separate:
  assumes C: "trie_contract E M" and R: "ws_rel M w m S" and V: "ws_version w = V2" "ws_apart w"
  shows "separate E M w"
  unfolding separate_def
proof (intro allI impI)
  fix x y t t' assume t: "closing_trie E w x = Some t" "closing_trie E w y = Some t'" and "x \<noteq> y"
  then have "home x \<noteq> home y" by simp
  then have "touched (db t') \<inter> keyspace V2 (home x) = {}"
    using closing_trie_home(5) [OF C R t(2) V] closing_trie_home(1) [OF C R t(2)]
    unfolding apart_def by (metis valid_home)
  then show "node_keys M t \<inter> touched (db t') = {}"
    using node_keys_keyspace [of M t] closing_trie_home(1,2) [OF C R t(1)] V(1) by auto
qed

text \<open>So is the accounts trie of a world state without storages.\<close>

lemma no_storages_separate:
  assumes C: "trie_contract E M" and R: "ws_rel M w m S" and e: "storage_trie_map w = []"
    and h: "\<And>a. m (account_key (ws_version w) a StorageHash) = None"
  shows "separate E M w"
proof -
  have "at_storage_hash E (accounts_trie w) a = Some (Inr None)" for a
    using at_getters_ok(5) [OF C, of "accounts_trie w" m a] R h [of a]
    by (simp add: ws_rel_def ws_version_def)
  then have "closing_trie E w (Some a) = None" for a
    by (simp add: closing_trie_def e)
  then show ?thesis unfolding separate_def by (metis not_None_eq)
qed

lemma closing_same_changes:
  assumes C: "trie_contract E M" and R: "ws_rel M w m S" and sep: "separate E M w"
    and t: "closing_trie E w x = Some t" and k: "k \<in> node_keys M t"
  defines "ds \<equiv> storage_dbs (visit (hash_order E) (storage_trie_map w)) @ [db (at_trie (closing_accounts E w))]"
  shows "same_changes (joined ds) (db t) k"
proof -
  let ?es = "visit (hash_order E) (storage_trie_map w)"
  have es: "distinct (map fst ?es)" "map_of ?es = map_of (storage_trie_map w)"
    using visit_map [OF trie_visit [OF C], of "storage_trie_map w"] R by (simp_all add: ws_rel_def)
  have opened: "closing_trie E w (Some a) = Some (st_trie T)" if "(a, T) \<in> set ?es" for a T
    using es that by (metis (no_types, lifting) closing_trie_def map_of_is_SomeI option.case(2))
  have accounts: "closing_trie E w None = Some (at_trie (closing_accounts E w))"
    by (simp add: closing_trie_def)
  have ds: "\<exists>y t'. closing_trie E w y = Some t' \<and> d = db t'" if "d \<in> set ds" for d
    using that accounts by (fastforce simp: ds_def dest: opened)
  have pre: "map prefix ds = map home (map (Some \<circ> fst) ?es @ [None])"
    using closing_trie_home(1) [OF C R opened] closing_trie_home(1) [OF C R accounts] by (auto simp: ds_def)
  have "distinct (map (Some \<circ> fst) ?es)"
    using es(1) by (simp add: distinct_map inj_on_def)
  then have "distinct (map prefix ds)"
    unfolding pre by (auto simp: distinct_map inj_on_def dest: arg_cong [of _ _ length])
  moreover have other: "k \<notin> touched d" if d: "d \<in> set ds" "d \<noteq> db t" for d
  proof -
    obtain y t' where y: "closing_trie E w y = Some t'" "d = db t'" using ds [OF d(1)] by blast
    then have "x \<noteq> y" using t d(2) by auto
    then have "node_keys M t \<inter> touched d = {}" using sep t y unfolding separate_def by blast
    then show ?thesis using k by blast
  qed
  ultimately have same: "same_changes (joined ds) (db t) k" if "db t \<in> set ds"
    using joined_at [OF that] by metis
  show ?thesis
  proof (cases "db t \<in> set ds")
    case False
    then have "\<forall>d \<in> set ds. k \<notin> touched d" using other by metis
    moreover have "db (st_trie T) \<in> set ds" if "map_of (storage_trie_map w) a = Some T" for a T
      using map_of_SomeD [of ?es a T] that es(2) by (force simp: ds_def)
    then have "touched (db t) = {}"
      using t False
      by (auto simp: closing_trie_def ds_def st_open_def mpt_open_def touched_def
          split: option.splits sum.splits)
    ultimately show ?thesis
      using joined_none [of ds k] by (auto simp: same_changes_def touched_def)
  qed (rule same)
qed

text \<open>The database with the joined changes of all tries of the world state.\<close>

definition closed_db :: "'t trie_lib \<Rightarrow> world_state \<Rightarrow> bytes bytemap" where
  "closed_db E w = apply_changes
     (joined (storage_dbs (visit (hash_order E) (storage_trie_map w)) @ [db (at_trie (closing_accounts E w))]))
     (ws_db w)"

lemma closing_trie_found:
  assumes C: "trie_contract E M" and R: "ws_rel M w m S" and sep: "separate E M w"
    and t: "closing_trie E w x = Some t" "mpt_holds M t c"
  shows "mpt_holds M (mpt_open (kdb_new (ws_version w) (closed_db E w) (home x)) (root_hash t)) c"
  using reopened_holds [OF C t(2) closing_trie_home(4) [OF C R t(1)]
      closing_same_changes [OF C R sep t(1)]] closing_trie_home(1,2,3) [OF C R t(1)]
  by (simp add: reopened_def closed_db_def)

lemma closing_accounts_found:
  assumes C: "trie_contract E M" and R: "ws_rel M w m S" and sep: "separate E M w"
    and h: "at_holds M (closing_accounts E w) m'"
  shows "at_holds M (at_open (ws_version w) (closed_db E w) (root_hash (at_trie (closing_accounts E w)))) m'"
proof -
  have t: "closing_trie E w None = Some (at_trie (closing_accounts E w))"
    by (simp add: closing_trie_def)
  have "at_version (closing_accounts E w) = ws_version w"
    using closing_trie_home(2) [OF C R t] by (simp add: at_version_def)
  then show ?thesis
    using closing_trie_found [OF C R sep t, of m'] h
    by (simp add: at_holds_def at_open_def at_version_def mpt_open_def touched_by_none)
qed

lemma closing_storage_found:
  assumes C: "trie_contract E M" and R: "ws_rel M w m S" and sep: "separate E M w"
    and t: "closing_trie E w (Some a) = Some (st_trie T)" "st_holds M T c"
  shows "st_holds M (st_open (ws_version w) (closed_db E w) (st_root_hash T) a) c"
  using closing_trie_found [OF C R sep t(1)] t(2) closing_trie_home(2) [OF C R t(1)]
  by (auto simp: st_holds_def st_open_def mpt_open_def st_version_def st_root_hash_def touched_by_none)

lemma closing_storage_rel:
  assumes C: "trie_contract E M" and R: "ws_rel M w m S" and sep: "separate E M w"
    and m': "m' (account_key (ws_version w) a StorageHash) =
       (case map_of (storage_trie_map w) a of Some T \<Rightarrow> Some (b32_bytes (st_root_hash T))
          | None \<Rightarrow> m (account_key (ws_version w) a StorageHash))"
  shows "storage_rel M (ws_open (ws_version w) (closed_db E w) r) m' a (S a)"
proof -
  let ?V = "ws_version w"
  have rel: "storage_rel M w m a (S a)" and A: "at_holds M (accounts_trie w) m"
    using R by (simp_all add: ws_rel_def)
  show ?thesis
  proof (cases "map_of (storage_trie_map w) a")
    case (Some T)
    then have "st_holds M (st_open ?V (closed_db E w) (st_root_hash T) a) (S a)"
      using closing_storage_found [OF C R sep, of a T] storage_relD [OF rel Some]
      by (simp add: closing_trie_def)
    then show ?thesis using m' Some by (auto simp: storage_rel_def)
  next
    case None
    have "st_holds M (st_open ?V (closed_db E w) h a) (S a)"
      if "m (account_key ?V a StorageHash) = Some (b32_bytes h)" "st_holds M (st_open ?V (ws_db w) h a) (S a)" for h
      using closing_storage_found [OF C R sep _ that(2)] that(1) at_getters_ok(5) [OF C A, of a] None
      by (simp add: closing_trie_def ws_version_def st_open_def [of _ _ h] st_root_hash_def mpt_open_def)
    then show ?thesis
      using rel m' None by (auto simp: storage_rel_def split: option.splits)
  qed
qed

text \<open>
  A world state with separate tries, of any version, is found again on the changed database.
\<close>

lemma ws_close_ok:
  assumes C: "trie_contract E M" and R: "ws_rel M w m S" and sep: "separate E M w"
  shows "\<exists>ins del r w' m'. ws_close E w = (Inr (ins, del, r), w') \<and>
     storage_trie_map w' = storage_trie_map w \<and>
     ws_rel M (ws_open (ws_version w) (apply_changes (ins, del) (ws_db w)) r) m' S \<and>
     (\<forall>a. user_account (ws_version w) m' a = user_account (ws_version w) m a) \<and>
     (\<forall>b. m' (account_key (ws_version w) b StorageHash) =
       (case map_of (storage_trie_map w) b of Some T \<Rightarrow> Some (b32_bytes (st_root_hash T))
          | None \<Rightarrow> m (account_key (ws_version w) b StorageHash))) \<and>
     (\<forall>b f. f \<noteq> StorageHash \<longrightarrow> m' (account_key (ws_version w) b f) = m (account_key (ws_version w) b f))"
proof -
  let ?V = "ws_version w" and ?A = "closing_accounts E w"
  define c where
    "c = joined (storage_dbs (visit (hash_order E) (storage_trie_map w)) @ [db (at_trie ?A)])"
  obtain m' w' where run: "ws_close E w = (Inr (fst c, snd c, root_hash (at_trie ?A)), w')"
    "storage_trie_map w' = storage_trie_map w"
    "at_holds M ?A m'"
    "\<And>b. m' (account_key ?V b StorageHash) =
       (case map_of (storage_trie_map w) b of Some T \<Rightarrow> Some (b32_bytes (st_root_hash T))
          | None \<Rightarrow> m (account_key ?V b StorageHash))"
    "\<And>b. user_account ?V m' b = user_account ?V m b"
    "\<And>b f. f \<noteq> StorageHash \<Longrightarrow> m' (account_key ?V b f) = m (account_key ?V b f)"
    using ws_close_run [OF C R] unfolding c_def by blast
  have "ws_rel M (ws_open ?V (closed_db E w) (root_hash (at_trie ?A))) m' S"
    using closing_accounts_found [OF C R sep run(3)]
      closing_storage_rel [where S = S and m = m and m' = m', OF C R sep run(4)]
    by (simp add: ws_rel_def accounts_home_def at_open_def mpt_open_def at_version_def)
  moreover have "closed_db E w = apply_changes (fst c, snd c) (ws_db w)"
    by (simp add: closed_db_def c_def)
  ultimately show ?thesis
    using run(2,4,5,6)
    by (intro exI [of _ "fst c"] exI [of _ "snd c"]
        exI [of _ "root_hash (at_trie ?A)"] exI [of _ w'] exI [of _ m']) (simp add: run(1))
qed

section \<open>Properties\<close>

text \<open>
  C3: Closing a world state and opening a new one, over the database to which the changes were
  applied, at the returned root, gives back the same accounts and the same storage for every
  address: those edited since, those opened only and those never opened.  The tries have to be
  separate; a version 2 world state that collected its changes in version 2 is so.  The storage
  tries of the closed world state keep the changes they collected, since \<open>close\<close> works on
  clones of them.
\<close>

theorem world_close_open:
  assumes "trie_contract E M" "ws_rel M w m S"
    and "separate E M w \<or> ws_version w = V2 \<and> ws_apart w"
  shows "\<exists>ins del r w' m'. ws_close E w = (Inr (ins, del, r), w') \<and>
    storage_trie_map w' = storage_trie_map w \<and>
    ws_rel M (ws_open (ws_version w) (apply_changes (ins, del) (ws_db w)) r) m' S \<and>
    user_account (ws_version w) m' = user_account (ws_version w) m"
proof -
  have "separate E M w" using assms(3) v2_separate [OF assms(1,2)] by blast
  from ws_close_ok [OF assms(1,2) this] show ?thesis unfolding fun_eq_iff by blast
qed

theorem world_close_open_witness:
  "\<exists>ins del r w' m'. ws_close flat_lib (flat_world V2) = (Inr (ins, del, r), w') \<and>
     ws_rel flat_model (ws_open V2 (apply_changes (ins, del) (ws_db (flat_world V2))) r) m'
       ((\<lambda>_. Map.empty)(b32_fill 7 := [[1] \<mapsto> [2]]))"
  using world_close_open [OF flat_contract flat_world_rel, of V2] flat_world_apart [of V2]
  unfolding flat_world_version by blast

end
