(* ===== verification/Nas.thy ===== *)
theory Nas
  imports Prelude
begin

text \<open>
  The key-value interface of the network account (\<open>NetworkAccountStorage\<close> of
  \<open>network_account.rs\<close>).  Every operation may change the store it is called on and may
  panic: it returns an option of its result and the new store.  The locale states what the
  data structures of the network account rely on, over a relation between stores and the map
  they represent; \<open>kv_store\<close>, the hash map of the unit tests, is its first interpretation.
  A computation that gives a result on the map gives the same result on every lawful store
  (\<open>sim\<close>), so the data structures are verified on the map only.
\<close>

section \<open>The trait\<close>

record 's nas =
  nas_get :: "'s \<Rightarrow> bytes \<Rightarrow> (bytes option \<times> 's) option"
  nas_contains :: "'s \<Rightarrow> bytes \<Rightarrow> (bool \<times> 's) option"
  nas_set :: "'s \<Rightarrow> bytes \<Rightarrow> bytes \<Rightarrow> (unit \<times> 's) option"
  nas_delete :: "'s \<Rightarrow> bytes \<Rightarrow> (unit \<times> 's) option"

text \<open>\<open>KVStore\<close> of the unit tests of \<open>index_heap.rs\<close>.\<close>

definition kv_store :: "bytes bytemap nas" where
  "kv_store =
     \<lparr>nas_get = \<lambda>s k. Some (s k, s),
      nas_contains = \<lambda>s k. Some (s k \<noteq> None, s),
      nas_set = \<lambda>s k v. Some ((), s(k \<mapsto> v)),
      nas_delete = \<lambda>s k. Some ((), s(k := None))\<rparr>"

lemma kv_store_simps [simp]:
  "nas_get kv_store s k = Some (s k, s)"
  "nas_contains kv_store s k = Some (s k \<noteq> None, s)"
  "nas_set kv_store s k v = Some ((), s(k \<mapsto> v))"
  "nas_delete kv_store s k = Some ((), s(k := None))"
  by (simp_all add: kv_store_def)

section \<open>Simulation\<close>

text \<open>Every result that \<open>g\<close> gives on the map, \<open>f\<close> gives on the stores that represent it.\<close>

definition sim ::
    "('s \<Rightarrow> bytes bytemap \<Rightarrow> bool) \<Rightarrow> ('s \<Rightarrow> ('a \<times> 's) option) \<Rightarrow>
     (bytes bytemap \<Rightarrow> ('a \<times> bytes bytemap) option) \<Rightarrow> bool" where
  "sim rep f g \<longleftrightarrow>
     (\<forall>s \<sigma> a \<sigma>'. rep s \<sigma> \<longrightarrow> g \<sigma> = Some (a, \<sigma>') \<longrightarrow> (\<exists>s'. f s = Some (a, s') \<and> rep s' \<sigma>'))"

named_theorems sim_intros \<open>rules that carry a computation over to every lawful store\<close>

lemma simI:
  "(\<And>s \<sigma> a \<sigma>'. rep s \<sigma> \<Longrightarrow> g \<sigma> = Some (a, \<sigma>') \<Longrightarrow> \<exists>s'. f s = Some (a, s') \<and> rep s' \<sigma>') \<Longrightarrow> sim rep f g"
  by (simp add: sim_def)

lemma simD:
  "sim rep f g \<Longrightarrow> rep s \<sigma> \<Longrightarrow> g \<sigma> = Some (a, \<sigma>') \<Longrightarrow> \<exists>s'. f s = Some (a, s') \<and> rep s' \<sigma>'"
  by (simp add: sim_def)

lemma sim_return [sim_intros]: "sim rep (\<lambda>s. Some (a, s)) (\<lambda>s. Some (a, s))"
  by (simp add: sim_def)

lemma sim_panic [sim_intros]: "sim rep f (\<lambda>s. None)"
  by (simp add: sim_def)

lemma sim_bind [sim_intros]:
  assumes "sim rep f g" "\<And>a. sim rep (f' a) (g' a)"
  shows "sim rep (\<lambda>s. Option.bind (f s) (\<lambda>(a, s). f' a s)) (\<lambda>s. Option.bind (g s) (\<lambda>(a, s). g' a s))"
proof (rule simI)
  fix s \<sigma> b \<sigma>'
  assume "rep s \<sigma>" "Option.bind (g \<sigma>) (\<lambda>(a, s). g' a s) = Some (b, \<sigma>')"
  then obtain a \<sigma>1 where g: "g \<sigma> = Some (a, \<sigma>1)" "g' a \<sigma>1 = Some (b, \<sigma>')"
    by (auto simp: bind_eq_Some_conv)
  obtain s1 where s1: "f s = Some (a, s1)" "rep s1 \<sigma>1"
    using simD [OF assms(1) \<open>rep s \<sigma>\<close> g(1)] by blast
  then show "\<exists>s'. Option.bind (f s) (\<lambda>(a, s). f' a s) = Some (b, s') \<and> rep s' \<sigma>'"
    using simD [OF assms(2) s1(2) g(2)] by auto
qed

text \<open>A step that may panic and does not touch the store.\<close>

lemma sim_pure [sim_intros]:
  assumes "\<And>a. sim rep (f a) (g a)"
  shows "sim rep (\<lambda>s. Option.bind x (\<lambda>a. f a s)) (\<lambda>s. Option.bind x (\<lambda>a. g a s))"
  using assms by (cases x) (simp_all add: sim_def)

lemma sim_if [sim_intros]:
  "sim rep f g \<Longrightarrow> sim rep f' g' \<Longrightarrow> sim rep (\<lambda>s. if b then f s else f' s) (\<lambda>s. if b then g s else g' s)"
  by (simp add: sim_def)

lemma sim_option [sim_intros]:
  "sim rep f g \<Longrightarrow> (\<And>a. sim rep (f' a) (g' a)) \<Longrightarrow>
   sim rep (\<lambda>s. case x of None \<Rightarrow> f s | Some a \<Rightarrow> f' a s) (\<lambda>s. case x of None \<Rightarrow> g s | Some a \<Rightarrow> g' a s)"
  by (cases x) simp_all

lemma sim_sum [sim_intros]:
  "(\<And>a. sim rep (f a) (g a)) \<Longrightarrow> (\<And>a. sim rep (f' a) (g' a)) \<Longrightarrow>
   sim rep (\<lambda>s. case x of Inl a \<Rightarrow> f a s | Inr a \<Rightarrow> f' a s) (\<lambda>s. case x of Inl a \<Rightarrow> g a s | Inr a \<Rightarrow> g' a s)"
  by (cases x) simp_all

lemma sim_prod [sim_intros]:
  "(\<And>a b. sim rep (f a b) (g a b)) \<Longrightarrow>
   sim rep (\<lambda>s. case x of (a, b) \<Rightarrow> f a b s) (\<lambda>s. case x of (a, b) \<Rightarrow> g a b s)"
  by (cases x) simp_all

section \<open>The interface\<close>

text \<open>
  A lawful store represents a map: reads answer from it and writes of non-empty values
  update it.  (A trie treats an empty value as a deletion; no structure writes one.)
\<close>

locale network_account_storage =
  fixes N :: "'s nas" and rep :: "'s \<Rightarrow> bytes bytemap \<Rightarrow> bool"
  assumes get_law: "rep s \<sigma> \<Longrightarrow> \<exists>s'. nas_get N s k = Some (\<sigma> k, s') \<and> rep s' \<sigma>"
    and contains_law: "rep s \<sigma> \<Longrightarrow> \<exists>s'. nas_contains N s k = Some (\<sigma> k \<noteq> None, s') \<and> rep s' \<sigma>"
    and set_law: "rep s \<sigma> \<Longrightarrow> v \<noteq> [] \<Longrightarrow> \<exists>s'. nas_set N s k v = Some ((), s') \<and> rep s' (\<sigma>(k \<mapsto> v))"
    and delete_law: "rep s \<sigma> \<Longrightarrow> \<exists>s'. nas_delete N s k = Some ((), s') \<and> rep s' (\<sigma>(k := None))"
begin

lemma sim_get: "sim rep (\<lambda>s. nas_get N s k) (\<lambda>s. nas_get kv_store s k)"
  using get_law by (auto simp: sim_def)

lemma sim_contains: "sim rep (\<lambda>s. nas_contains N s k) (\<lambda>s. nas_contains kv_store s k)"
  using contains_law by (auto simp: sim_def)

lemma sim_set: "v \<noteq> [] \<Longrightarrow> sim rep (\<lambda>s. nas_set N s k v) (\<lambda>s. nas_set kv_store s k v)"
  using set_law by (auto simp: sim_def)

lemma sim_delete: "sim rep (\<lambda>s. nas_delete N s k) (\<lambda>s. nas_delete kv_store s k)"
  using delete_law by (auto simp: sim_def)

lemmas sim_store = sim_get sim_contains sim_set sim_delete

end

interpretation kv: network_account_storage kv_store "(=)"
  by unfold_locales auto

section \<open>Values\<close>

text \<open>
  What the structures need of the values they hold (\<open>KeySpaced\<close>, \<open>Into<Vec<u8>>\<close>,
  \<open>From<Vec<u8>>\<close>, \<open>PartialOrd\<close> and \<open>Ord\<close>).  \<open>From\<close> may panic.
\<close>

record 'v vops =
  vkey :: "'v \<Rightarrow> bytes"
  vinto :: "'v \<Rightarrow> bytes"
  vfrom :: "bytes \<Rightarrow> 'v option"
  vpartial_cmp :: "'v \<Rightarrow> 'v \<Rightarrow> ordering option"
  vcmp :: "'v \<Rightarrow> 'v \<Rightarrow> ordering"

text \<open>The operators \<open><\<close> and \<open>></\<close> of Rust go through \<open>partial_cmp\<close>.\<close>

definition v_lt :: "'v vops \<Rightarrow> 'v \<Rightarrow> 'v \<Rightarrow> bool" where
  "v_lt P a b \<longleftrightarrow> vpartial_cmp P a b = Some Less"

definition v_gt :: "'v vops \<Rightarrow> 'v \<Rightarrow> 'v \<Rightarrow> bool" where
  "v_gt P a b \<longleftrightarrow> vpartial_cmp P a b = Some Greater"

text \<open>
  A value is read back from its bytes, which are not empty, and \<open>partial_cmp\<close> is the comparison
  of a priority in a linear order; so is \<open>cmp\<close> on values of the same key.
\<close>

locale keyed_value =
  fixes P :: "'v vops" and prio :: "'v \<Rightarrow> 'p::linorder"
  assumes from_into: "vfrom P (vinto P v) = Some v"
    and into_nonempty: "vinto P v \<noteq> []"
    and partial_cmp_prio: "vpartial_cmp P v w = Some (cmp_of (prio v) (prio w))"
    and cmp_prio: "vkey P v = vkey P w \<Longrightarrow> vcmp P v w = cmp_of (prio v) (prio w)"
begin

lemma v_lt_prio: "v_lt P v w \<longleftrightarrow> prio v < prio w"
  by (simp add: v_lt_def partial_cmp_prio)

lemma v_gt_prio: "v_gt P v w \<longleftrightarrow> prio w < prio v"
  by (simp add: v_gt_def partial_cmp_prio)

lemma into_inj: "vinto P v = vinto P w \<longleftrightarrow> v = w"
  by (metis from_into option.inject)

lemmas value_simps = from_into into_nonempty v_lt_prio v_gt_prio

end

text \<open>Values of one type in one store: what an indexed structure works on.\<close>

locale stored_values =
  network_account_storage N rep + keyed_value P prio
  for N :: "'s nas" and rep :: "'s \<Rightarrow> bytes bytemap \<Rightarrow> bool"
    and P :: "'v vops" and prio :: "'v \<Rightarrow> 'p::linorder"

lemma stored_valuesD:
  "stored_values N rep P prio \<Longrightarrow> network_account_storage N rep"
  "stored_values N rep P prio \<Longrightarrow> keyed_value P prio"
  by (simp_all add: stored_values_def)

end
