(* ===== verification/Values.thy ===== *)
theory Values
  imports Nas
begin

text \<open>
  The values the network account keeps in its indexed structures: the address of a pool, the
  key of a pool with its power, and a stake (\<open>stake.rs\<close> and the value types of
  \<open>pool.rs\<close>).  Each is shown to be a \<open>keyed_value\<close>.  The borsh serialisation of
  \<open>pchain_types\<close> is a parameter with the round trips it documents; \<open>borsh_std\<close> is the
  published borsh format of the three types used.
\<close>

section \<open>Types\<close>

datatype stake = Stake (owner: b32) (stake_power: u64)

text \<open>\<open>StakeValue\<close> derefs to the stake inside, and is compared by its power only.\<close>

datatype stake_value = StakeValue (inner_stake: stake)

definition stake_value_new :: "stake \<Rightarrow> stake_value" where
  "stake_value_new stake = StakeValue stake"

datatype pool_address = PoolAddress (address_of: b32)

datatype pool_key = PoolKey (operator_of: b32) (power_of: u64)

definition pool_key_new :: "b32 \<Rightarrow> u64 \<Rightarrow> pool_key" where
  "pool_key_new a n = PoolKey a n"

section \<open>Serialisation\<close>

record borsh_lib =
  ser_stake :: "stake \<Rightarrow> bytes"
  de_stake :: "bytes \<Rightarrow> stake option"
  ser_stake_opt :: "stake option \<Rightarrow> bytes"
  de_stake_opt :: "bytes \<Rightarrow> stake option option"
  ser_pair :: "bytes \<times> u64 \<Rightarrow> bytes"
  de_pair :: "bytes \<Rightarrow> (bytes \<times> u64) option"

locale borsh_codec =
  fixes B :: borsh_lib
  assumes stake_roundtrip: "de_stake B (ser_stake B x) = Some x"
    and stake_opt_roundtrip: "de_stake_opt B (ser_stake_opt B y) = Some y"
    and pair_roundtrip: "length bs < 2 ^ 32 \<Longrightarrow> de_pair B (ser_pair B (bs, n)) = Some (bs, n)"
    and stake_nonempty: "ser_stake B x \<noteq> []"
    and stake_opt_nonempty: "ser_stake_opt B y \<noteq> []"
    and pair_nonempty: "ser_pair B z \<noteq> []"

text \<open>
  Fields one after the other, integers little-endian, a vector behind its \<open>u32\<close> length, an
  option behind a byte 0 or 1; reading must consume all bytes.
\<close>

fun std_ser_stake :: "stake \<Rightarrow> bytes" where
  "std_ser_stake (Stake a n) = b32_bytes a @ u64_to_le n"

definition std_de_stake :: "bytes \<Rightarrow> stake option" where
  "std_de_stake bs =
     do { a \<leftarrow> b32_try_from (take 32 bs); n \<leftarrow> u64_from_le (drop 32 bs); Some (Stake a n) }"

fun std_ser_stake_opt :: "stake option \<Rightarrow> bytes" where
  "std_ser_stake_opt None = [0]"
| "std_ser_stake_opt (Some x) = 1 # std_ser_stake x"

fun std_de_stake_opt :: "bytes \<Rightarrow> stake option option" where
  "std_de_stake_opt [] = None"
| "std_de_stake_opt (b # bs) =
     (if b = 0 then (if bs = [] then Some None else None)
      else if b = 1 then map_option Some (std_de_stake bs) else None)"

definition std_ser_pair :: "bytes \<times> u64 \<Rightarrow> bytes" where
  "std_ser_pair z = u32_to_le (of_nat (length (fst z))) @ fst z @ u64_to_le (snd z)"

definition std_de_pair :: "bytes \<Rightarrow> (bytes \<times> u64) option" where
  "std_de_pair bs = do {
     len \<leftarrow> u32_from_le (take 4 bs);
     let rest = drop 4 bs;
     n \<leftarrow> u64_from_le (drop (unat len) rest);
     Some (take (unat len) rest, n)
   }"

definition borsh_std :: borsh_lib where
  "borsh_std = \<lparr>ser_stake = std_ser_stake, de_stake = std_de_stake,
     ser_stake_opt = std_ser_stake_opt, de_stake_opt = std_de_stake_opt,
     ser_pair = std_ser_pair, de_pair = std_de_pair\<rparr>"

lemma std_stake_roundtrip [simp]: "std_de_stake (std_ser_stake x) = Some x"
  by (cases x) (simp add: std_de_stake_def)

interpretation std: borsh_codec borsh_std
proof
  fix x :: stake and y :: "stake option" and bs :: bytes and n :: u64 and z :: "bytes \<times> u64"
  show "de_stake borsh_std (ser_stake borsh_std x) = Some x" by (simp add: borsh_std_def)
  show "de_stake_opt borsh_std (ser_stake_opt borsh_std y) = Some y"
    by (cases y) (simp_all add: borsh_std_def)
  show "length bs < 2 ^ 32 \<Longrightarrow> de_pair borsh_std (ser_pair borsh_std (bs, n)) = Some (bs, n)"
    by (simp add: borsh_std_def std_ser_pair_def std_de_pair_def)
  show "ser_stake borsh_std x \<noteq> []" by (cases x) (simp add: borsh_std_def)
  show "ser_stake_opt borsh_std y \<noteq> []" by (cases y) (simp_all add: borsh_std_def)
  show "ser_pair borsh_std z \<noteq> []" by (simp add: borsh_std_def std_ser_pair_def)
qed

section \<open>Pool addresses\<close>

text \<open>The comparison is derived: that of the array.\<close>

definition pool_address_from :: "bytes \<Rightarrow> pool_address option" where
  "pool_address_from bs = map_option PoolAddress (b32_try_from bs)"

definition pool_address_ops :: "pool_address vops" where
  "pool_address_ops = \<lparr>vkey = (\<lambda>v. b32_bytes (address_of v)),
     vinto = (\<lambda>v. b32_bytes (address_of v)), vfrom = pool_address_from,
     vpartial_cmp = (\<lambda>v w. Some (cmp_of (address_of v) (address_of w))),
     vcmp = (\<lambda>v w. cmp_of (address_of v) (address_of w))\<rparr>"

lemma pool_address_key [simp]: "vkey pool_address_ops v = b32_bytes (address_of v)"
  by (simp add: pool_address_ops_def)

interpretation pool_address: keyed_value pool_address_ops address_of
  by unfold_locales (simp_all add: pool_address_ops_def pool_address_from_def)

interpretation kv_pool_address: stored_values kv_store "(=)" pool_address_ops address_of ..

section \<open>Pool keys\<close>

text \<open>Ordered by power, and by operator among pools of the same power.\<close>

definition pool_key_cmp :: "pool_key \<Rightarrow> pool_key \<Rightarrow> ordering" where
  "pool_key_cmp v w =
     (case cmp_of (power_of v) (power_of w) of
        Equal \<Rightarrow> cmp_of (operator_of v) (operator_of w)
      | compare \<Rightarrow> compare)"

definition pool_key_partial_cmp :: "pool_key \<Rightarrow> pool_key \<Rightarrow> ordering option" where
  "pool_key_partial_cmp v w =
     (case Some (cmp_of (power_of v) (power_of w)) of
        Some Equal \<Rightarrow> Some (cmp_of (operator_of v) (operator_of w))
      | Some compare \<Rightarrow> Some compare
      | None \<Rightarrow> None)"

definition pool_key_eq :: "pool_key \<Rightarrow> pool_key \<Rightarrow> bool" where
  "pool_key_eq v w =
     (if power_of v = power_of w then operator_of v = operator_of w else False)"

instantiation pool_key :: linorder
begin

definition less_eq_pool_key :: "pool_key \<Rightarrow> pool_key \<Rightarrow> bool" where
  "less_eq_pool_key v w \<longleftrightarrow>
     power_of v < power_of w \<or> power_of v = power_of w \<and> operator_of v \<le> operator_of w"

definition less_pool_key :: "pool_key \<Rightarrow> pool_key \<Rightarrow> bool" where
  "less_pool_key v w \<longleftrightarrow>
     power_of v < power_of w \<or> power_of v = power_of w \<and> operator_of v < operator_of w"

instance
  by standard
     (auto simp: less_eq_pool_key_def less_pool_key_def intro: pool_key.expand)

end

lemma pool_key_cmp_of [simp]: "pool_key_cmp v w = cmp_of v w"
proof -
  have e: "v = w \<longleftrightarrow> power_of v = power_of w \<and> operator_of v = operator_of w"
    by (auto intro: pool_key.expand)
  consider "power_of v < power_of w" | "power_of v = power_of w" | "power_of w < power_of v"
    by (metis neq_iff)
  then show ?thesis
    by cases (simp_all add: pool_key_cmp_def cmp_of_def less_pool_key_def e)
qed

lemma pool_key_partial_cmp_of [simp]: "pool_key_partial_cmp v w = Some (cmp_of v w)"
proof -
  have "pool_key_partial_cmp v w = Some (pool_key_cmp v w)"
    unfolding pool_key_cmp_def pool_key_partial_cmp_def by (auto split: ordering.split)
  then show ?thesis by simp
qed

lemma pool_key_eq_iff: "pool_key_eq v w \<longleftrightarrow> v = w"
  by (auto simp: pool_key_eq_def intro: pool_key.expand)

definition pool_key_into :: "borsh_lib \<Rightarrow> pool_key \<Rightarrow> bytes" where
  "pool_key_into B v = ser_pair B (b32_bytes (operator_of v), power_of v)"

definition pool_key_from :: "borsh_lib \<Rightarrow> bytes \<Rightarrow> pool_key option" where
  "pool_key_from B bs = do {
     (a, n) \<leftarrow> de_pair B bs;
     a \<leftarrow> b32_try_from a;
     Some (PoolKey a n)
   }"

definition pool_key_ops :: "borsh_lib \<Rightarrow> pool_key vops" where
  "pool_key_ops B = \<lparr>vkey = (\<lambda>v. b32_bytes (operator_of v)),
     vinto = pool_key_into B, vfrom = pool_key_from B,
     vpartial_cmp = pool_key_partial_cmp, vcmp = pool_key_cmp\<rparr>"

lemma pool_key_key [simp]: "vkey (pool_key_ops B) v = b32_bytes (operator_of v)"
  by (simp add: pool_key_ops_def)

sublocale borsh_codec \<subseteq> pool_key: keyed_value "pool_key_ops B" id
  by unfold_locales
     (simp_all add: pool_key_ops_def pool_key_from_def pool_key_into_def pair_roundtrip pair_nonempty)

section \<open>Stakes\<close>

definition stake_value_cmp :: "stake_value \<Rightarrow> stake_value \<Rightarrow> ordering" where
  "stake_value_cmp v w = cmp_of (stake_power (inner_stake v)) (stake_power (inner_stake w))"

definition stake_value_partial_cmp :: "stake_value \<Rightarrow> stake_value \<Rightarrow> ordering option" where
  "stake_value_partial_cmp v w =
     Some (cmp_of (stake_power (inner_stake v)) (stake_power (inner_stake w)))"

definition stake_value_eq :: "stake_value \<Rightarrow> stake_value \<Rightarrow> bool" where
  "stake_value_eq v w \<longleftrightarrow> stake_power (inner_stake v) = stake_power (inner_stake w)"

definition stake_value_into :: "borsh_lib \<Rightarrow> stake_value \<Rightarrow> bytes" where
  "stake_value_into B v = ser_stake B (inner_stake v)"

definition stake_value_from :: "borsh_lib \<Rightarrow> bytes \<Rightarrow> stake_value option" where
  "stake_value_from B bs = map_option StakeValue (de_stake B bs)"

definition stake_value_ops :: "borsh_lib \<Rightarrow> stake_value vops" where
  "stake_value_ops B = \<lparr>vkey = (\<lambda>v. b32_bytes (owner (inner_stake v))),
     vinto = stake_value_into B, vfrom = stake_value_from B,
     vpartial_cmp = stake_value_partial_cmp, vcmp = stake_value_cmp\<rparr>"

lemma stake_value_key [simp]: "vkey (stake_value_ops B) v = b32_bytes (owner (inner_stake v))"
  by (simp add: stake_value_ops_def)

sublocale borsh_codec \<subseteq> stake_value: keyed_value "stake_value_ops B" "\<lambda>v. stake_power (inner_stake v)"
  by unfold_locales
     (simp_all add: stake_value_ops_def stake_value_from_def stake_value_into_def
        stake_value_partial_cmp_def stake_value_cmp_def stake_roundtrip stake_nonempty)

context borsh_codec
begin

lemmas pool_key_values = pool_key.keyed_value_axioms
lemmas stake_value_values = stake_value.keyed_value_axioms

end

end
