(* ===== verification/Index_Map.thy ===== *)
theory Index_Map
  imports Values "HOL-Library.Multiset"
begin

text \<open>
  The indexed map (\<open>index_map.rs\<close>): values under consecutive indices, with a reverse index
  from keys, laid out in a key-value store.  \<open>im_rep\<close> states what the store holds for a
  list of values, including that it holds nothing else in the map's key range; the lemmas
  give the effect of every operation on the list.
\<close>

section \<open>Layout\<close>

record index_map =
  domain :: bytes
  capacity :: u32

datatype index_map_operation_error = IndexMapOperationError

definition prefix_len :: bytes where "prefix_len = [0]"

definition prefix_key_index :: bytes where "prefix_key_index = [1]"

definition prefix_index_value :: bytes where "prefix_index_value = [2]"

definition im_new :: "bytes \<Rightarrow> u32 \<Rightarrow> index_map" where
  "im_new d cap = \<lparr>domain = d, capacity = cap\<rparr>"

text \<open>The three keys each operation builds: of the length, of a key's index, of a value.\<close>

definition key_len :: "bytes \<Rightarrow> bytes" where
  "key_len d = d @ prefix_len"

definition key_ki :: "bytes \<Rightarrow> bytes \<Rightarrow> bytes" where
  "key_ki d key = d @ prefix_key_index @ key"

definition key_iv :: "bytes \<Rightarrow> u32 \<Rightarrow> bytes" where
  "key_iv d index = d @ prefix_index_value @ u32_to_le index"

section \<open>Operations\<close>

definition im_length :: "'s nas \<Rightarrow> index_map \<Rightarrow> 's \<Rightarrow> (u32 \<times> 's) option" where
  "im_length N m s = do {
     (length_bytes, s) \<leftarrow> nas_get N s (key_len (domain m));
     case length_bytes of
       None \<Rightarrow> Some (0, s)
     | Some length_bytes \<Rightarrow> do { n \<leftarrow> u32_from_le length_bytes; Some (n, s) }
   }"

definition im_set_length :: "'s nas \<Rightarrow> index_map \<Rightarrow> u32 \<Rightarrow> 's \<Rightarrow> (u32 \<times> 's) option" where
  "im_set_length N m n s = do {
     (_, s) \<leftarrow> nas_set N s (key_len (domain m)) (u32_to_le n);
     Some (n, s)
   }"

definition im_index_of_key :: "'s nas \<Rightarrow> index_map \<Rightarrow> bytes \<Rightarrow> 's \<Rightarrow> (u32 option \<times> 's) option" where
  "im_index_of_key N m key s = do {
     (index_bytes, s) \<leftarrow> nas_get N s (key_ki (domain m) key);
     case index_bytes of
       None \<Rightarrow> Some (None, s)
     | Some index_bytes \<Rightarrow> do { i \<leftarrow> u32_from_le index_bytes; Some (Some i, s) }
   }"

definition im_get :: "'s nas \<Rightarrow> 'v vops \<Rightarrow> index_map \<Rightarrow> u32 \<Rightarrow> 's \<Rightarrow> ('v option \<times> 's) option" where
  "im_get N P m index s =
     (if index \<ge> capacity m then Some (None, s)
      else do {
        (value, s) \<leftarrow> nas_get N s (key_iv (domain m) index);
        case value of
          None \<Rightarrow> Some (None, s)
        | Some value \<Rightarrow> do { v \<leftarrow> vfrom P value; Some (Some v, s) }
      })"

text \<open>\<open>get(\<dots>).unwrap()\<close>\<close>

definition im_get_unwrap :: "'s nas \<Rightarrow> 'v vops \<Rightarrow> index_map \<Rightarrow> u32 \<Rightarrow> 's \<Rightarrow> ('v \<times> 's) option" where
  "im_get_unwrap N P m index s = do {
     (value, s) \<leftarrow> im_get N P m index s;
     v \<leftarrow> value;
     Some (v, s)
   }"

definition im_get_by :: "'s nas \<Rightarrow> 'v vops \<Rightarrow> index_map \<Rightarrow> bytes \<Rightarrow> 's \<Rightarrow> ('v option \<times> 's) option" where
  "im_get_by N P m key s = do {
     (index, s) \<leftarrow> im_index_of_key N m key s;
     case index of
       None \<Rightarrow> Some (None, s)
     | Some index \<Rightarrow> im_get N P m index s
   }"

definition im_set :: "'s nas \<Rightarrow> 'v vops \<Rightarrow> index_map \<Rightarrow> u32 \<Rightarrow> 'v \<Rightarrow> 's \<Rightarrow> (unit \<times> 's) option" where
  "im_set N P m index value s = do {
     (_, s) \<leftarrow> nas_set N s (key_ki (domain m) (vkey P value)) (u32_to_le index);
     (_, s) \<leftarrow> nas_set N s (key_iv (domain m) index) (vinto P value);
     Some ((), s)
   }"

definition im_delete :: "'s nas \<Rightarrow> index_map \<Rightarrow> u32 \<Rightarrow> bytes \<Rightarrow> 's \<Rightarrow> (unit \<times> 's) option" where
  "im_delete N m index key s = do {
     (_, s) \<leftarrow> nas_delete N s (key_ki (domain m) key);
     (_, s) \<leftarrow> nas_delete N s (key_iv (domain m) index);
     Some ((), s)
   }"

definition im_push :: "'s nas \<Rightarrow> 'v vops \<Rightarrow> index_map \<Rightarrow> 'v \<Rightarrow> 's \<Rightarrow>
    ((index_map_operation_error + unit) \<times> 's) option" where
  "im_push N P m value s = do {
     (len, s) \<leftarrow> im_length N m s;
     if len \<ge> capacity m then Some (Inl IndexMapOperationError, s)
     else do {
       (_, s) \<leftarrow> im_set N P m len value s;
       len' \<leftarrow> u32_add len 1;
       (_, s) \<leftarrow> im_set_length N m len' s;
       Some (Inr (), s)
     }
   }"

text \<open>The loop of \<open>clear\<close> over the indices \<open>0..len\<close>.\<close>

fun im_delete_all :: "'s nas \<Rightarrow> 'v vops \<Rightarrow> index_map \<Rightarrow> u32 list \<Rightarrow> 's \<Rightarrow> (unit \<times> 's) option" where
  "im_delete_all N P m [] s = Some ((), s)"
| "im_delete_all N P m (i # is) s = do {
     (v, s) \<leftarrow> im_get_unwrap N P m i s;
     (_, s) \<leftarrow> im_delete N m i (vkey P v) s;
     im_delete_all N P m is s
   }"

definition indices :: "u32 \<Rightarrow> u32 list" where
  "indices len = map of_nat [0..<unat len]"

definition im_clear :: "'s nas \<Rightarrow> 'v vops \<Rightarrow> index_map \<Rightarrow> 's \<Rightarrow> (unit \<times> 's) option" where
  "im_clear N P m s = do {
     (len, s) \<leftarrow> im_length N m s;
     (_, s) \<leftarrow> im_delete_all N P m (indices len) s;
     (_, s) \<leftarrow> im_set_length N m 0 s;
     Some ((), s)
   }"

text \<open>The loop of \<open>reset\<close> over the enumerated values; \<open>i as u32\<close> truncates.\<close>

fun im_set_all :: "'s nas \<Rightarrow> 'v vops \<Rightarrow> index_map \<Rightarrow> nat \<Rightarrow> 'v list \<Rightarrow> 's \<Rightarrow> (unit \<times> 's) option" where
  "im_set_all N P m i [] s = Some ((), s)"
| "im_set_all N P m i (v # vs) s = do {
     (_, s) \<leftarrow> im_set N P m (of_nat i) v s;
     im_set_all N P m (Suc i) vs s
   }"

definition im_reset :: "'s nas \<Rightarrow> 'v vops \<Rightarrow> index_map \<Rightarrow> 'v list \<Rightarrow> 's \<Rightarrow>
    ((index_map_operation_error + unit) \<times> 's) option" where
  "im_reset N P m values s =
     (let v_len = of_nat (length values)
      in if v_len > capacity m then Some (Inl IndexMapOperationError, s)
         else do {
           (_, s) \<leftarrow> im_clear N P m s;
           (_, s) \<leftarrow> im_set_all N P m 0 values s;
           (_, s) \<leftarrow> im_set_length N m v_len s;
           Some (Inr (), s)
         })"

section \<open>On every lawful store\<close>

context network_account_storage
begin

lemma sim_im_length [sim_intros]: "sim rep (im_length N m) (im_length kv_store m)"
  unfolding im_length_def by (intro sim_intros sim_store)

lemma sim_im_set_length [sim_intros]: "sim rep (im_set_length N m n) (im_set_length kv_store m n)"
  unfolding im_set_length_def by (intro sim_intros sim_store) simp

lemma sim_im_index_of_key [sim_intros]:
  "sim rep (im_index_of_key N m k) (im_index_of_key kv_store m k)"
  unfolding im_index_of_key_def by (intro sim_intros sim_store)

lemma sim_im_get [sim_intros]: "sim rep (im_get N P m i) (im_get kv_store P m i)"
  unfolding im_get_def by (intro sim_intros sim_store)

lemma sim_im_get_unwrap [sim_intros]: "sim rep (im_get_unwrap N P m i) (im_get_unwrap kv_store P m i)"
  unfolding im_get_unwrap_def by (intro sim_intros)

lemma sim_im_get_by [sim_intros]: "sim rep (im_get_by N P m k) (im_get_by kv_store P m k)"
  unfolding im_get_by_def by (intro sim_intros)

lemma sim_im_delete [sim_intros]: "sim rep (im_delete N m i k) (im_delete kv_store m i k)"
  unfolding im_delete_def by (intro sim_intros sim_store)

lemma sim_im_delete_all [sim_intros]: "sim rep (im_delete_all N P m is) (im_delete_all kv_store P m is)"
proof (induction "is")
  case (Cons i "is")
  have eq: "im_delete_all N P m (i # is) = (\<lambda>s. do {
     (v, s) \<leftarrow> im_get_unwrap N P m i s; (_, s) \<leftarrow> im_delete N m i (vkey P v) s;
     im_delete_all N P m is s })" for N :: "'x nas"
    by (rule ext) simp
  show ?case unfolding eq by (intro sim_intros Cons)
qed (simp add: sim_def)

lemma sim_im_clear [sim_intros]: "sim rep (im_clear N P m) (im_clear kv_store P m)"
  unfolding im_clear_def by (intro sim_intros)

end

context stored_values
begin

lemma sim_im_set [sim_intros]: "sim rep (im_set N P m i v) (im_set kv_store P m i v)"
  unfolding im_set_def by (intro sim_intros sim_store) (simp_all add: into_nonempty)

lemma sim_im_push [sim_intros]: "sim rep (im_push N P m v) (im_push kv_store P m v)"
  unfolding im_push_def by (intro sim_intros)

lemma sim_im_set_all [sim_intros]: "sim rep (im_set_all N P m i vs) (im_set_all kv_store P m i vs)"
proof (induction vs arbitrary: i)
  case (Cons v vs)
  have eq: "im_set_all N P m i (v # vs) = (\<lambda>s. do {
     (_, s) \<leftarrow> im_set N P m (of_nat i) v s; im_set_all N P m (Suc i) vs s })" for N :: "'x nas"
    by (rule ext) simp
  show ?case unfolding eq by (intro sim_intros Cons)
qed (simp add: sim_def)

lemma sim_im_reset [sim_intros]: "sim rep (im_reset N P m vs) (im_reset kv_store P m vs)"
  unfolding im_reset_def Let_def by (intro sim_intros)

end

section \<open>What the store holds\<close>

definition im_keys :: "bytes \<Rightarrow> bytes set" where
  "im_keys d = {key_len d} \<union> range (key_ki d) \<union> range (key_iv d)"

definition im_rep :: "'v vops \<Rightarrow> bytes \<Rightarrow> 'v list \<Rightarrow> bytes bytemap \<Rightarrow> bool" where
  "im_rep P d xs \<sigma> \<longleftrightarrow>
     distinct (map (vkey P) xs) \<and> length xs < 2 ^ 32 \<and>
     (\<sigma> (key_len d) = Some (u32_to_le (of_nat (length xs))) \<or> xs = [] \<and> \<sigma> (key_len d) = None) \<and>
     (\<forall>n < 2 ^ 32. \<sigma> (key_iv d (of_nat n)) = (if n < length xs then Some (vinto P (xs ! n)) else None)) \<and>
     (\<forall>n < length xs. \<sigma> (key_ki d (vkey P (xs ! n))) = Some (u32_to_le (of_nat n))) \<and>
     (\<forall>k. k \<notin> vkey P ` set xs \<longrightarrow> \<sigma> (key_ki d k) = None)"

text \<open>The two stores differ in the key range of \<open>d\<close> only.\<close>

definition same_but :: "bytes \<Rightarrow> bytes bytemap \<Rightarrow> bytes bytemap \<Rightarrow> bool" where
  "same_but d \<sigma> \<sigma>' \<longleftrightarrow> (\<forall>x. x \<notin> im_keys d \<longrightarrow> \<sigma>' x = \<sigma> x)"

lemma same_but_refl [simp, intro]: "same_but d \<sigma> \<sigma>"
  by (simp add: same_but_def)

lemma same_but_trans: "same_but d \<sigma> \<sigma>1 \<Longrightarrow> same_but d \<sigma>1 \<sigma>2 \<Longrightarrow> same_but d \<sigma> \<sigma>2"
  by (simp add: same_but_def)

lemma same_but_upd [simp]:
  "same_but d \<sigma> (\<sigma>1(key_len d := b)) = same_but d \<sigma> \<sigma>1"
  "same_but d \<sigma> (\<sigma>1(key_ki d k := b)) = same_but d \<sigma> \<sigma>1"
  "same_but d \<sigma> (\<sigma>1(key_iv d i := b)) = same_but d \<sigma> \<sigma>1"
  by (auto simp: same_but_def im_keys_def)

lemma im_keys_simps [simp, key_simps]:
  "key_len d \<noteq> key_ki d k" "key_len d \<noteq> key_iv d i" "key_ki d k \<noteq> key_len d"
  "key_iv d i \<noteq> key_len d" "key_ki d k \<noteq> key_iv d i" "key_iv d i \<noteq> key_ki d k"
  "key_ki d k = key_ki d k' \<longleftrightarrow> k = k'" "key_iv d i = key_iv d j \<longleftrightarrow> i = j"
  by (simp_all add: key_len_def key_ki_def key_iv_def prefix_len_def prefix_key_index_def
      prefix_index_value_def)

lemma of_nat_u32_inj: "m < 2 ^ 32 \<Longrightarrow> n < 2 ^ 32 \<Longrightarrow> (of_nat m :: u32) = of_nat n \<longleftrightarrow> m = n"
  by (metis unat_of_nat_u32)

lemma same_but_upd_left [simp]:
  "same_but d (\<sigma>(key_len d := b)) \<sigma>1 = same_but d \<sigma> \<sigma>1"
  "same_but d (\<sigma>(key_ki d k := b)) \<sigma>1 = same_but d \<sigma> \<sigma>1"
  "same_but d (\<sigma>(key_iv d i := b)) \<sigma>1 = same_but d \<sigma> \<sigma>1"
  by (auto simp: same_but_def im_keys_def)

text \<open>The facts of the representation, one by one.\<close>

lemma im_repD:
  assumes "im_rep P d xs \<sigma>"
  shows im_rep_distinct: "distinct (map (vkey P) xs)" and im_rep_size: "length xs < 2 ^ 32"
    and im_rep_len: "\<sigma> (key_len d) = Some (u32_to_le (of_nat (length xs))) \<or>
      xs = [] \<and> \<sigma> (key_len d) = None"
    and im_rep_iv: "n < 2 ^ 32 \<Longrightarrow>
      \<sigma> (key_iv d (of_nat n)) = (if n < length xs then Some (vinto P (xs ! n)) else None)"
    and im_rep_ki: "n < length xs \<Longrightarrow> \<sigma> (key_ki d (vkey P (xs ! n))) = Some (u32_to_le (of_nat n))"
    and im_rep_no_ki: "k \<notin> vkey P ` set xs \<Longrightarrow> \<sigma> (key_ki d k) = None"
  using assms by (auto simp: im_rep_def)

lemma im_rep_key_inj:
  "im_rep P d xs \<sigma> \<Longrightarrow> i < length xs \<Longrightarrow> j < length xs \<Longrightarrow>
     vkey P (xs ! i) = vkey P (xs ! j) \<longleftrightarrow> i = j"
  using nth_eq_iff_index_eq [of "map (vkey P) xs" i j] by (simp add: im_rep_distinct)

lemma im_rep_same:
  "im_rep P d xs \<sigma> \<Longrightarrow> (\<And>x. x \<in> im_keys d \<Longrightarrow> \<sigma>' x = \<sigma> x) \<Longrightarrow> im_rep P d xs \<sigma>'"
  unfolding im_rep_def im_keys_def by simp

lemma im_rep_empty: "(\<And>x. x \<in> im_keys d \<Longrightarrow> \<sigma> x = None) \<Longrightarrow> im_rep P d [] \<sigma>"
  unfolding im_rep_def im_keys_def by simp

lemma im_rep_push:
  assumes R: "im_rep P d xs \<sigma>" and v: "vkey P v \<notin> vkey P ` set xs" and n: "length xs + 1 < 2 ^ 32"
  shows "im_rep P d (xs @ [v]) (\<sigma>(key_ki d (vkey P v) \<mapsto> u32_to_le (of_nat (length xs)),
     key_iv d (of_nat (length xs)) \<mapsto> vinto P v, key_len d \<mapsto> u32_to_le (of_nat (length xs + 1))))"
  unfolding im_rep_def
proof (intro conjI allI impI)
  show "distinct (map (vkey P) (xs @ [v]))" using im_rep_distinct [OF R] v by simp
next
  fix j assume "j < length (xs @ [v])"
  moreover have "vkey P (xs ! j) \<noteq> vkey P v" if "j < length xs" using v that by (metis image_eqI nth_mem)
  ultimately show "(\<sigma>(key_ki d (vkey P v) \<mapsto> u32_to_le (of_nat (length xs)),
     key_iv d (of_nat (length xs)) \<mapsto> vinto P v, key_len d \<mapsto> u32_to_le (of_nat (length xs + 1))))
     (key_ki d (vkey P ((xs @ [v]) ! j))) = Some (u32_to_le (of_nat j))"
    using im_rep_ki [OF R, of j] by (cases "j = length xs") (simp_all add: nth_append)
qed (use n im_rep_iv [OF R] im_rep_no_ki [OF R] in
    \<open>auto simp: of_nat_u32_inj nth_append simp del: of_nat_Suc\<close>)

lemma im_rep_update:
  assumes R: "im_rep P d xs \<sigma>" and j: "j < length xs" and v: "vkey P v = vkey P (xs ! j)"
  shows "im_rep P d (xs[j := v]) (\<sigma>(key_ki d (vkey P v) \<mapsto> u32_to_le (of_nat j),
     key_iv d (of_nat j) \<mapsto> vinto P v))"
proof -
  have k: "map (vkey P) (xs[j := v]) = map (vkey P) xs"
    using j v by (metis list_update_id map_update nth_map)
  then have s: "vkey P ` set (xs[j := v]) = vkey P ` set xs" by (metis set_map)
  have "vkey P v \<in> vkey P ` set xs" using v j by simp
  then show ?thesis
    using im_repD [OF R] j v im_rep_key_inj [OF R] less_trans [OF _ im_rep_size [OF R]]
    unfolding im_rep_def k s by (auto simp: of_nat_u32_inj nth_list_update)
qed

text \<open>Two values change places.\<close>

definition swap_at :: "'a list \<Rightarrow> nat \<Rightarrow> nat \<Rightarrow> 'a list" where
  "swap_at xs i j = xs[i := xs ! j, j := xs ! i]"

lemma length_swap_at [simp]: "length (swap_at xs i j) = length xs"
  by (simp add: swap_at_def)

lemma nth_swap_at:
  "i < length xs \<Longrightarrow> j < length xs \<Longrightarrow> n < length xs \<Longrightarrow>
     swap_at xs i j ! n = (if n = j then xs ! i else if n = i then xs ! j else xs ! n)"
  by (auto simp: swap_at_def nth_list_update)

lemma mset_swap_at [simp]:
  "i < length xs \<Longrightarrow> j < length xs \<Longrightarrow> mset (swap_at xs i j) = mset xs"
  by (simp add: swap_at_def mset_swap)

lemma set_swap_at [simp]:
  "i < length xs \<Longrightarrow> j < length xs \<Longrightarrow> set (swap_at xs i j) = set xs"
  by (metis mset_swap_at set_mset_mset)

lemma distinct_map_swap_at [simp]:
  "i < length xs \<Longrightarrow> j < length xs \<Longrightarrow> distinct (map f (swap_at xs i j)) = distinct (map f xs)"
  by (metis mset_swap_at mset_map mset_eq_imp_distinct_iff)

lemma im_rep_swap:
  assumes R: "im_rep P d xs \<sigma>" and ij: "i < length xs" "j < length xs" "i \<noteq> j"
  shows "im_rep P d (swap_at xs i j)
    (\<sigma>(key_ki d (vkey P (xs ! j)) \<mapsto> u32_to_le (of_nat i), key_iv d (of_nat i) \<mapsto> vinto P (xs ! j),
       key_ki d (vkey P (xs ! i)) \<mapsto> u32_to_le (of_nat j), key_iv d (of_nat j) \<mapsto> vinto P (xs ! i)))"
    (is "im_rep P d _ ?\<sigma>")
  unfolding im_rep_def
proof (intro conjI allI impI)
  fix n assume "n < length (swap_at xs i j)"
  then show "?\<sigma> (key_ki d (vkey P (swap_at xs i j ! n))) = Some (u32_to_le (of_nat n))"
    using im_rep_ki [OF R, of n] im_rep_key_inj [OF R] ij by (auto simp: nth_swap_at)
next
  fix k assume "k \<notin> vkey P ` set (swap_at xs i j)"
  then have "k \<notin> vkey P ` set xs" using ij by simp
  moreover from this have "k \<noteq> vkey P (xs ! i)" "k \<noteq> vkey P (xs ! j)" using ij by auto
  ultimately show "?\<sigma> (key_ki d k) = None" using im_rep_no_ki [OF R] by simp
next
  fix n :: nat assume "n < 2 ^ 32"
  moreover have "i < 2 ^ 32" "j < 2 ^ 32" using ij im_rep_size [OF R] by linarith+
  ultimately show "?\<sigma> (key_iv d (of_nat n)) =
      (if n < length (swap_at xs i j) then Some (vinto P (swap_at xs i j ! n)) else None)"
    using im_rep_iv [OF R, of n] ij by (auto simp: nth_swap_at of_nat_u32_inj)
qed (use im_repD [OF R] ij in auto)

text \<open>The last value goes.\<close>

lemma im_rep_pop:
  assumes R: "im_rep P d (xs @ [v]) \<sigma>"
  shows "im_rep P d xs (\<sigma>(key_ki d (vkey P v) := None, key_iv d (of_nat (length xs)) := None,
     key_len d \<mapsto> u32_to_le (of_nat (length xs))))" (is "im_rep P d _ ?\<sigma>")
  unfolding im_rep_def
proof (intro conjI allI impI)
  fix n assume n: "n < length xs"
  then have "xs ! n \<in> set xs" by simp
  moreover have "vkey P v \<notin> vkey P ` set xs" using im_rep_distinct [OF R] by auto
  ultimately have "vkey P (xs ! n) \<noteq> vkey P v" by (metis image_eqI)
  then show "?\<sigma> (key_ki d (vkey P (xs ! n))) = Some (u32_to_le (of_nat n))"
    using im_rep_ki [OF R, of n] n by (simp add: nth_append)
next
  fix n :: nat assume n: "n < 2 ^ 32"
  have "length xs < 2 ^ 32" using im_rep_size [OF R] by simp
  with n show "?\<sigma> (key_iv d (of_nat n)) = (if n < length xs then Some (vinto P (xs ! n)) else None)"
    using im_rep_iv [OF R, of n] by (auto simp: of_nat_u32_inj nth_append)
qed (use im_repD [OF R] in auto)

text \<open>The last value takes the place of another one, which goes.\<close>

lemma im_rep_replace:
  assumes R: "im_rep P d (xs @ [v]) \<sigma>" and j: "j < length xs"
  shows "im_rep P d (xs[j := v])
    (\<sigma>(key_iv d (of_nat (length xs)) := None, key_ki d (vkey P (xs ! j)) := None,
       key_ki d (vkey P v) \<mapsto> u32_to_le (of_nat j), key_iv d (of_nat j) \<mapsto> vinto P v,
       key_len d \<mapsto> u32_to_le (of_nat (length xs))))" (is "im_rep P d _ ?\<sigma>")
proof -
  have d: "distinct (map (vkey P) xs)" "vkey P v \<notin> vkey P ` set xs"
    using im_rep_distinct [OF R] by auto
  have inj: "vkey P (xs ! n) = vkey P (xs ! j) \<longleftrightarrow> n = j" if "n < length xs" for n
    using nth_eq_iff_index_eq [OF d(1), of n j] that j by simp
  have nv: "vkey P (xs ! n) \<noteq> vkey P v" if "n < length xs" for n
    using d(2) that by (metis image_eqI nth_mem)
  have keys: "vkey P ` set (xs[j := v]) = insert (vkey P v) (vkey P ` set xs - {vkey P (xs ! j)})"
  proof -
    have "set (xs[j := v]) = insert v (set xs - {xs ! j})"
      using d(1) j by (intro set_update_distinct) (auto simp: distinct_map)
    moreover have "vkey P ` (set xs - {xs ! j}) = vkey P ` set xs - {vkey P (xs ! j)}"
      using d(1) j by (subst inj_on_image_set_diff [where C = "set xs"]) (auto simp: distinct_map)
    ultimately show ?thesis by simp
  qed
  have size: "length xs < 2 ^ 32" "j < 2 ^ 32" using im_rep_size [OF R] j by simp_all
  show ?thesis
    unfolding im_rep_def
  proof (intro conjI allI impI)
    show "distinct (map (vkey P) (xs[j := v]))"
      using d by (simp add: map_update distinct_list_update)
  next
    fix n assume n: "n < length (xs[j := v])"
    then show "?\<sigma> (key_ki d (vkey P (xs[j := v] ! n))) = Some (u32_to_le (of_nat n))"
      using im_rep_ki [OF R, of n] inj [of n] nv [of n] nv [of j] j
      by (cases "n = j") (simp_all add: nth_append)
  next
    fix k assume "k \<notin> vkey P ` set (xs[j := v])"
    then show "?\<sigma> (key_ki d k) = None"
      using im_rep_no_ki [OF R, of k] by (auto simp: keys)
  next
    fix n :: nat assume "n < 2 ^ 32"
    then show "?\<sigma> (key_iv d (of_nat n)) =
        (if n < length (xs[j := v]) then Some (vinto P (xs[j := v] ! n)) else None)"
      using im_rep_iv [OF R, of n] size j by (auto simp: of_nat_u32_inj nth_append nth_list_update)
  qed (use size in auto)
qed

section \<open>The operations on the list of values\<close>

definition im_ok :: "'v vops \<Rightarrow> index_map \<Rightarrow> 'v list \<Rightarrow> bytes bytemap \<Rightarrow> bool" where
  "im_ok P m xs \<sigma> \<longleftrightarrow> im_rep P (domain m) xs \<sigma> \<and> length xs \<le> unat (capacity m)"

lemma im_okD:
  "im_ok P m xs \<sigma> \<Longrightarrow> im_rep P (domain m) xs \<sigma>" "im_ok P m xs \<sigma> \<Longrightarrow> length xs \<le> unat (capacity m)"
  by (simp_all add: im_ok_def)

lemma unat_capacity: "unat (c :: u32) < 2 ^ 32"
  by (rule unat_u32_less)

lemma kv_set [simp]:
  "im_set kv_store P m i v \<sigma> = Some ((), \<sigma>(key_ki (domain m) (vkey P v) \<mapsto> u32_to_le i,
     key_iv (domain m) i \<mapsto> vinto P v))"
  by (simp add: im_set_def)

lemma kv_set_length [simp]:
  "im_set_length kv_store m n \<sigma> = Some (n, \<sigma>(key_len (domain m) \<mapsto> u32_to_le n))"
  by (simp add: im_set_length_def)

lemma kv_delete [simp]:
  "im_delete kv_store m i k \<sigma> = Some ((), \<sigma>(key_ki (domain m) k := None, key_iv (domain m) i := None))"
  by (simp add: im_delete_def)

lemma kv_length:
  "im_rep P (domain m) xs \<sigma> \<Longrightarrow> im_length kv_store m \<sigma> = Some (of_nat (length xs), \<sigma>)"
  using im_rep_len [of P "domain m" xs \<sigma>] by (auto simp: im_length_def)

lemma kv_index_of_key:
  "im_rep P (domain m) xs \<sigma> \<Longrightarrow> n < length xs \<Longrightarrow>
     im_index_of_key kv_store m (vkey P (xs ! n)) \<sigma> = Some (Some (of_nat n), \<sigma>)"
  by (simp add: im_index_of_key_def im_rep_ki)

lemma kv_index_of_key_none:
  "im_rep P (domain m) xs \<sigma> \<Longrightarrow> k \<notin> vkey P ` set xs \<Longrightarrow>
     im_index_of_key kv_store m k \<sigma> = Some (None, \<sigma>)"
  by (simp add: im_index_of_key_def im_rep_no_ki)

lemma kv_get_none:
  assumes "im_ok P m xs \<sigma>" "length xs \<le> unat i"
  shows "im_get kv_store P m i \<sigma> = Some (None, \<sigma>)"
  using im_rep_iv [OF im_okD(1) [OF assms(1)], of "unat i"] assms(2) unat_u32_less [of i]
  by (simp add: im_get_def)

context keyed_value
begin

lemma kv_get_raw:
  "\<sigma> (key_iv (domain m) (of_nat n)) = Some (vinto P v) \<Longrightarrow> n < unat (capacity m) \<Longrightarrow>
     im_get kv_store P m (of_nat n) \<sigma> = Some (Some v, \<sigma>)"
  using unat_capacity [of "capacity m"]
  by (simp add: im_get_def word_le_nat_alt from_into)

lemma kv_get:
  "im_ok P m xs \<sigma> \<Longrightarrow> n < length xs \<Longrightarrow> im_get kv_store P m (of_nat n) \<sigma> = Some (Some (xs ! n), \<sigma>)"
  using im_rep_iv [of P "domain m" xs \<sigma> n] im_rep_size [of P "domain m" xs \<sigma>]
  by (intro kv_get_raw) (auto simp: im_ok_def)

lemma kv_get_unwrap:
  "im_ok P m xs \<sigma> \<Longrightarrow> n < length xs \<Longrightarrow> im_get_unwrap kv_store P m (of_nat n) \<sigma> = Some (xs ! n, \<sigma>)"
  by (simp add: im_get_unwrap_def kv_get)

lemma kv_get_by:
  assumes "im_ok P m xs \<sigma>"
  shows "im_get_by kv_store P m k \<sigma> = Some (List.find (\<lambda>v. vkey P v = k) xs, \<sigma>)"
proof (cases "k \<in> vkey P ` set xs")
  case True
  then obtain n where n: "n < length xs" "k = vkey P (xs ! n)"
    by (auto simp: in_set_conv_nth)
  have "List.find (\<lambda>v. vkey P v = k) xs = Some (xs ! n)"
    using n im_rep_key_inj [OF im_okD(1) [OF assms]] by (auto simp: find_Some_iff)
  then show ?thesis
    using n by (simp add: im_get_by_def kv_index_of_key [OF im_okD(1) [OF assms]] kv_get [OF assms])
next
  case False
  then have "List.find (\<lambda>v. vkey P v = k) xs = None" by (auto simp: find_None_iff)
  then show ?thesis
    using False by (simp add: im_get_by_def kv_index_of_key_none [OF im_okD(1) [OF assms]])
qed

lemma kv_push:
  assumes R: "im_ok P m xs \<sigma>" and v: "vkey P v \<notin> vkey P ` set xs"
    and n: "length xs < unat (capacity m)"
  shows "\<exists>\<sigma>'. im_push kv_store P m v \<sigma> = Some (Inr (), \<sigma>') \<and> im_ok P m (xs @ [v]) \<sigma>' \<and>
     same_but (domain m) \<sigma> \<sigma>'"
proof -
  have l: "length xs + 1 < 2 ^ 32" using n unat_capacity [of "capacity m"] by linarith
  have "\<not> capacity m \<le> of_nat (length xs)" using n l by (simp add: word_le_nat_alt)
  moreover have "u32_add (of_nat (length xs)) 1 = Some (of_nat (length xs + 1))"
    using u32_add_of_nat [of "length xs" 1] l by simp
  ultimately show ?thesis
    using im_rep_push [OF im_okD(1) [OF R] v l] n
    by (simp add: im_push_def kv_length [OF im_okD(1) [OF R]] im_ok_def del: of_nat_Suc of_nat_add)
qed

lemma kv_push_full:
  assumes "im_ok P m xs \<sigma>" "length xs = unat (capacity m)"
  shows "im_push kv_store P m v \<sigma> = Some (Inl IndexMapOperationError, \<sigma>)"
  using assms(2) by (simp add: im_push_def kv_length [OF im_okD(1) [OF assms(1)]])

lemma kv_delete_all:
  assumes "i \<le> n" "n \<le> unat (capacity m)"
    and "\<And>j. i \<le> j \<Longrightarrow> j < n \<Longrightarrow> \<sigma> (key_iv (domain m) (of_nat j)) = Some (vinto P (xs ! j))"
  shows "im_delete_all kv_store P m (map of_nat [i..<n]) \<sigma> = Some ((), \<lambda>x.
     if \<exists>j. i \<le> j \<and> j < n \<and> (x = key_ki (domain m) (vkey P (xs ! j)) \<or> x = key_iv (domain m) (of_nat j))
     then None else \<sigma> x)"
  using assms
proof (induction arbitrary: \<sigma> rule: inc_induct)
  case base
  then show ?case by (auto simp: fun_eq_iff)
next
  case (step i)
  let ?\<sigma> = "\<sigma>(key_ki (domain m) (vkey P (xs ! i)) := None, key_iv (domain m) (of_nat i) := None)"
  have lt: "n < 2 ^ 32" using step.prems(1) unat_capacity [of "capacity m"] by linarith
  have "im_get_unwrap kv_store P m (of_nat i) \<sigma> = Some (xs ! i, \<sigma>)"
    using kv_get_raw [of \<sigma> m i "xs ! i"] step.prems step.hyps by (simp add: im_get_unwrap_def)
  moreover have "im_delete_all kv_store P m (map of_nat [Suc i..<n]) ?\<sigma> = Some ((), \<lambda>x.
     if \<exists>j. Suc i \<le> j \<and> j < n \<and>
         (x = key_ki (domain m) (vkey P (xs ! j)) \<or> x = key_iv (domain m) (of_nat j))
     then None else ?\<sigma> x)"
    using step.prems step.hyps lt by (intro step.IH) (auto simp: of_nat_u32_inj)
  ultimately show ?case
    using step.hyps
    by (auto simp: upt_conv_Cons fun_eq_iff simp del: upt_Suc intro: le_neq_implies_less)
       (metis Suc_leI le_neq_implies_less)+
qed

lemma kv_clear:
  assumes R: "im_ok P m xs \<sigma>"
  shows "\<exists>\<sigma>'. im_clear kv_store P m \<sigma> = Some ((), \<sigma>') \<and> im_ok P m [] \<sigma>' \<and> same_but (domain m) \<sigma> \<sigma>'"
proof -
  note R1 = im_okD(1) [OF R]
  let ?\<sigma> = "\<lambda>x. if \<exists>j. 0 \<le> j \<and> j < length xs \<and>
      (x = key_ki (domain m) (vkey P (xs ! j)) \<or> x = key_iv (domain m) (of_nat j))
     then None else \<sigma> x"
  have lt: "length xs < 2 ^ 32" by (rule im_rep_size [OF R1])
  have "im_delete_all kv_store P m (indices (of_nat (length xs))) \<sigma> = Some ((), ?\<sigma>)"
    using kv_delete_all [of 0 "length xs" m \<sigma> xs] im_rep_iv [OF R1] lt im_okD(2) [OF R]
    by (simp add: indices_def)
  then have eq: "im_clear kv_store P m \<sigma> = Some ((), ?\<sigma>(key_len (domain m) \<mapsto> u32_to_le 0))"
    by (simp add: im_clear_def kv_length [OF R1])
  have "\<sigma> (key_ki (domain m) k) = None" if "\<forall>j < length xs. k \<noteq> vkey P (xs ! j)" for k
    using that by (intro im_rep_no_ki [OF R1]) (auto simp: in_set_conv_nth)
  then have "im_ok P m [] (?\<sigma>(key_len (domain m) \<mapsto> u32_to_le 0))"
    using im_rep_iv [OF R1] by (auto simp: im_ok_def im_rep_def)
  moreover have "same_but (domain m) \<sigma> (?\<sigma>(key_len (domain m) \<mapsto> u32_to_le 0))"
    by (auto simp: same_but_def im_keys_def)
  ultimately show ?thesis using eq by blast
qed

end

context keyed_value
begin

lemma kv_set_all:
  assumes "im_rep P d ys (\<sigma>(key_len d \<mapsto> u32_to_le (of_nat (length ys))))" "d = domain m"
    and "distinct (map (vkey P) (ys @ vs))" "length ys + length vs < 2 ^ 32"
  shows "\<exists>\<sigma>'. im_set_all kv_store P m (length ys) vs \<sigma> = Some ((), \<sigma>') \<and>
     im_rep P d (ys @ vs) (\<sigma>'(key_len d \<mapsto> u32_to_le (of_nat (length (ys @ vs))))) \<and>
     same_but d \<sigma> \<sigma>'"
  using assms
proof (induction vs arbitrary: ys \<sigma>)
  case Nil
  then show ?case by simp
next
  case (Cons v vs)
  let ?\<sigma> = "\<sigma>(key_ki d (vkey P v) \<mapsto> u32_to_le (of_nat (length ys)),
    key_iv d (of_nat (length ys)) \<mapsto> vinto P v)"
  have "im_rep P d (ys @ [v]) (\<sigma>(key_len d \<mapsto> u32_to_le (of_nat (length ys)),
      key_ki d (vkey P v) \<mapsto> u32_to_le (of_nat (length ys)),
      key_iv d (of_nat (length ys)) \<mapsto> vinto P v,
      key_len d \<mapsto> u32_to_le (of_nat (length ys + 1))))"
    by (rule im_rep_push [OF Cons.prems(1)]) (use Cons.prems(3,4) in auto)
  then have "im_rep P d (ys @ [v]) (?\<sigma>(key_len d \<mapsto> u32_to_le (of_nat (length (ys @ [v])))))"
    by (rule im_rep_same) (simp del: of_nat_Suc of_nat_add)
  moreover have "distinct (map (vkey P) ((ys @ [v]) @ vs))" "length (ys @ [v]) + length vs < 2 ^ 32"
    using Cons.prems(3,4) by auto
  ultimately obtain \<sigma>' where 1: "im_set_all kv_store P m (length (ys @ [v])) vs ?\<sigma> = Some ((), \<sigma>')"
    "im_rep P d ((ys @ [v]) @ vs) (\<sigma>'(key_len d \<mapsto> u32_to_le (of_nat (length ((ys @ [v]) @ vs)))))"
    "same_but d ?\<sigma> \<sigma>'"
    using Cons.IH Cons.prems(2) by blast
  have "im_set_all kv_store P m (length ys) (v # vs) \<sigma> = Some ((), \<sigma>')"
    by (simp add: 1(1) [simplified] Cons.prems(2) [symmetric])
  moreover have "same_but d \<sigma> \<sigma>'"
    using 1(3) by (simp only: same_but_upd_left)
  moreover have "im_rep P d (ys @ v # vs) (\<sigma>'(key_len d \<mapsto> u32_to_le (of_nat (length (ys @ v # vs)))))"
    using 1(2) by (simp only: append_assoc append.simps)
  ultimately show ?case by blast
qed

lemma kv_reset:
  assumes R: "im_ok P m xs \<sigma>" and d: "distinct (map (vkey P) vs)" and n: "length vs \<le> unat (capacity m)"
  shows "\<exists>\<sigma>'. im_reset kv_store P m vs \<sigma> = Some (Inr (), \<sigma>') \<and> im_ok P m vs \<sigma>' \<and>
     same_but (domain m) \<sigma> \<sigma>'"
proof -
  have l: "length vs < 2 ^ 32" using n unat_capacity [of "capacity m"] by linarith
  obtain \<sigma>1 where 1: "im_clear kv_store P m \<sigma> = Some ((), \<sigma>1)" "im_ok P m [] \<sigma>1"
    "same_but (domain m) \<sigma> \<sigma>1"
    using kv_clear [OF R] by blast
  have "im_rep P (domain m) [] (\<sigma>1(key_len (domain m) \<mapsto> u32_to_le (of_nat (length ([] :: 'a list)))))"
    using im_okD(1) [OF 1(2)] by (simp add: im_rep_def)
  from kv_set_all [OF this refl, of vs] d l obtain \<sigma>2 where
    2: "im_set_all kv_store P m 0 vs \<sigma>1 = Some ((), \<sigma>2)" "same_but (domain m) \<sigma>1 \<sigma>2"
    "im_rep P (domain m) vs (\<sigma>2(key_len (domain m) \<mapsto> u32_to_le (of_nat (length vs))))"
    by auto
  have "\<not> capacity m < of_nat (length vs)" using n l by (simp add: word_less_nat_alt)
  then show ?thesis
    using 1 2 n by (auto simp: im_reset_def im_ok_def intro: same_but_trans)
qed

lemma kv_reset_full:
  "unat (capacity m) < length vs \<Longrightarrow> length vs < 2 ^ 32 \<Longrightarrow>
     im_reset kv_store P m vs \<sigma> = Some (Inl IndexMapOperationError, \<sigma>)"
  by (simp add: im_reset_def word_less_nat_alt)

end

subsection \<open>Left-over entries\<close>

text \<open>
  A map whose length was set to 0 from outside keeps its entries.  \<open>im_live\<close> states the part
  that matters from there on: the entries of the values below the length.
\<close>

definition im_live :: "'v vops \<Rightarrow> index_map \<Rightarrow> 'v list \<Rightarrow> bytes bytemap \<Rightarrow> bool" where
  "im_live P m xs \<sigma> \<longleftrightarrow>
     distinct (map (vkey P) xs) \<and> length xs \<le> unat (capacity m) \<and>
     (\<sigma> (key_len (domain m)) = Some (u32_to_le (of_nat (length xs))) \<or>
        xs = [] \<and> \<sigma> (key_len (domain m)) = None) \<and>
     (\<forall>n < length xs. \<sigma> (key_iv (domain m) (of_nat n)) = Some (vinto P (xs ! n)) \<and>
        \<sigma> (key_ki (domain m) (vkey P (xs ! n))) = Some (u32_to_le (of_nat n)))"

lemma im_ok_live: "im_ok P m xs \<sigma> \<Longrightarrow> im_live P m xs \<sigma>"
  using im_rep_iv [of P "domain m" xs \<sigma>] im_rep_size [of P "domain m" xs \<sigma>]
  by (auto simp: im_ok_def im_live_def im_rep_distinct im_rep_ki dest: im_rep_len)

lemma im_live_same:
  "im_live P m xs \<sigma> \<Longrightarrow> (\<And>x. x \<in> im_keys (domain m) \<Longrightarrow> \<sigma>' x = \<sigma> x) \<Longrightarrow> im_live P m xs \<sigma>'"
  unfolding im_live_def im_keys_def by simp

lemma im_live_cleared: "im_live P m [] (\<sigma>(key_len (domain m) \<mapsto> u32_to_le 0))"
  by (simp add: im_live_def)

lemma kv_live_length: "im_live P m xs \<sigma> \<Longrightarrow> im_length kv_store m \<sigma> = Some (of_nat (length xs), \<sigma>)"
  by (auto simp: im_live_def im_length_def)

context keyed_value
begin

lemma kv_live_get:
  "im_live P m xs \<sigma> \<Longrightarrow> n < length xs \<Longrightarrow> im_get kv_store P m (of_nat n) \<sigma> = Some (Some (xs ! n), \<sigma>)"
  by (intro kv_get_raw) (auto simp: im_live_def)

lemma kv_live_get_by:
  assumes "im_live P m xs \<sigma>" "v \<in> set xs"
  shows "im_get_by kv_store P m (vkey P v) \<sigma> = Some (Some v, \<sigma>)"
proof -
  obtain n where n: "n < length xs" "xs ! n = v" using assms(2) by (auto simp: in_set_conv_nth)
  then have "\<sigma> (key_ki (domain m) (vkey P v)) = Some (u32_to_le (of_nat n))"
    using assms(1) by (auto simp: im_live_def)
  then show ?thesis
    using kv_live_get [OF assms(1) n(1)] n(2) by (simp add: im_get_by_def im_index_of_key_def)
qed

lemma kv_live_push:
  assumes R: "im_live P m xs \<sigma>" and v: "vkey P v \<notin> vkey P ` set xs"
    and n: "length xs < unat (capacity m)"
  shows "\<exists>\<sigma>'. im_push kv_store P m v \<sigma> = Some (Inr (), \<sigma>') \<and> im_live P m (xs @ [v]) \<sigma>' \<and>
     same_but (domain m) \<sigma> \<sigma>'"
proof -
  have l: "length xs + 1 < 2 ^ 32" using n unat_capacity [of "capacity m"] by linarith
  have "\<not> capacity m \<le> of_nat (length xs)" using n l by (simp add: word_le_nat_alt)
  moreover have "u32_add (of_nat (length xs)) 1 = Some (of_nat (length xs + 1))"
    using u32_add_of_nat [of "length xs" 1] l by simp
  ultimately have push: "im_push kv_store P m v \<sigma> = Some (Inr (),
      \<sigma>(key_ki (domain m) (vkey P v) \<mapsto> u32_to_le (of_nat (length xs)),
        key_iv (domain m) (of_nat (length xs)) \<mapsto> vinto P v,
        key_len (domain m) \<mapsto> u32_to_le (of_nat (length xs + 1))))" (is "_ = Some (_, ?\<sigma>)")
    by (simp add: im_push_def kv_live_length [OF R] del: of_nat_Suc of_nat_add)
  have old: "vkey P (xs ! i) \<noteq> vkey P v" "(of_nat i :: u32) \<noteq> of_nat (length xs)"
    if "i < length xs" for i
    using v that l by (metis image_eqI nth_mem, simp add: of_nat_u32_inj)
  have "?\<sigma> (key_iv (domain m) (of_nat i)) = Some (vinto P ((xs @ [v]) ! i)) \<and>
      ?\<sigma> (key_ki (domain m) (vkey P ((xs @ [v]) ! i))) = Some (u32_to_le (of_nat i))"
    if "i < length (xs @ [v])" for i
    using R old that by (cases "i = length xs") (simp_all add: im_live_def nth_append)
  then have "im_live P m (xs @ [v]) ?\<sigma>"
    using R v n by (simp add: im_live_def del: of_nat_Suc)
  with push show ?thesis by simp
qed

lemma kv_live_push_full:
  "im_live P m xs \<sigma> \<Longrightarrow> length xs = unat (capacity m) \<Longrightarrow>
     im_push kv_store P m v \<sigma> = Some (Inl IndexMapOperationError, \<sigma>)"
  by (simp add: im_push_def kv_live_length)

end

section \<open>Properties\<close>

text \<open>Every list of values with distinct keys that fits can be stored.\<close>

lemma im_ok_exists:
  assumes "keyed_value P prio" "distinct (map (vkey P) xs)" "length xs \<le> unat (capacity m)"
  shows "\<exists>\<sigma>. im_ok P m xs \<sigma>"
proof -
  have "im_ok P m [] Map.empty"
    by (simp add: im_ok_def im_rep_empty)
  then show ?thesis
    using keyed_value.kv_reset [OF assms(1) _ assms(2,3)] by blast
qed

text \<open>
  On any lawful store that holds the values \<open>xs\<close>, \<open>length\<close> is their number, \<open>get\<close> returns
  the value at an index below the length and nothing at any other \<open>u32\<close>, \<open>get_by\<close> returns the
  one value with the given key, and none of them changes what is stored or panics.
\<close>

theorem index_map_reads:
  assumes V: "stored_values N rep P prio" and s: "rep s \<sigma>" and xs: "im_ok P m xs \<sigma>"
  shows "(\<exists>s'. im_length N m s = Some (of_nat (length xs), s') \<and> rep s' \<sigma>) \<and>
    (\<exists>s'. im_get N P m i s =
       Some (if unat i < length xs then Some (xs ! unat i) else None, s') \<and> rep s' \<sigma>) \<and>
    (\<exists>s'. im_get_by N P m k s = Some (List.find (\<lambda>v. vkey P v = k) xs, s') \<and> rep s' \<sigma>)"
proof -
  note K = stored_valuesD(2) [OF V] and S = stored_valuesD(1) [OF V]
  have "im_get kv_store P m i \<sigma> = Some (if unat i < length xs then Some (xs ! unat i) else None, \<sigma>)"
    using keyed_value.kv_get [OF K xs, of "unat i"] kv_get_none [OF xs, of i] by simp
  from simD [OF network_account_storage.sim_im_get [OF S] s this] show ?thesis
    using simD [OF network_account_storage.sim_im_length [OF S] s kv_length [OF im_okD(1) [OF xs]]]
      simD [OF network_account_storage.sim_im_get_by [OF S] s keyed_value.kv_get_by [OF K xs]]
    by blast
qed

theorem index_map_reads_witness:
  "\<exists>\<sigma> s'. im_get kv_store pool_address_ops (im_new [1] 64) 1 \<sigma> = Some (Some (PoolAddress (b32_fill 5)), s')"
proof -
  obtain \<sigma> where s: "im_ok pool_address_ops (im_new [1] 64)
      [PoolAddress (b32_fill 4), PoolAddress (b32_fill 5)] \<sigma>"
    using im_ok_exists [OF pool_address.keyed_value_axioms,
        of "[PoolAddress (b32_fill 4), PoolAddress (b32_fill 5)]" "im_new [1] 64"]
    by (auto simp: im_new_def simp del: b32_bytes_fill)
  show ?thesis
    using index_map_reads [OF kv_pool_address.stored_values_axioms refl s, of 1] by auto
qed

text \<open>
  C28: \<open>push\<close> of a value with a new key appends it while there is room and is refused with an
  error, without any change, when the capacity is reached; \<open>clear\<close> leaves an empty map without
  any left-over entry, and \<open>reset\<close> leaves exactly the given values, or is refused when they do
  not fit.  Nothing outside the key range of the map is touched.
\<close>

theorem index_map_writes:
  assumes V: "stored_values N rep P prio" and s: "rep s \<sigma>" and xs: "im_ok P m xs \<sigma>"
    and v: "vkey P v \<notin> vkey P ` set xs" and vs: "distinct (map (vkey P) vs)" "length vs < 2 ^ 32"
  shows "(if length xs < unat (capacity m)
      then \<exists>s' \<sigma>'. im_push N P m v s = Some (Inr (), s') \<and> rep s' \<sigma>' \<and> im_ok P m (xs @ [v]) \<sigma>' \<and>
        same_but (domain m) \<sigma> \<sigma>'
      else \<exists>s'. im_push N P m v s = Some (Inl IndexMapOperationError, s') \<and> rep s' \<sigma>) \<and>
    (\<exists>s' \<sigma>'. im_clear N P m s = Some ((), s') \<and> rep s' \<sigma>' \<and> im_ok P m [] \<sigma>' \<and>
       same_but (domain m) \<sigma> \<sigma>') \<and>
    (if length vs \<le> unat (capacity m)
      then \<exists>s' \<sigma>'. im_reset N P m vs s = Some (Inr (), s') \<and> rep s' \<sigma>' \<and> im_ok P m vs \<sigma>' \<and>
        same_but (domain m) \<sigma> \<sigma>'
      else \<exists>s'. im_reset N P m vs s = Some (Inl IndexMapOperationError, s') \<and> rep s' \<sigma>)"
proof -
  note K = stored_valuesD(2) [OF V] and S = stored_valuesD(1) [OF V]
  note push = simD [OF stored_values.sim_im_push [OF V] s]
    and clear = simD [OF network_account_storage.sim_im_clear [OF S] s]
    and reset = simD [OF stored_values.sim_im_reset [OF V] s]
  have "length xs = unat (capacity m)" if "\<not> length xs < unat (capacity m)"
    using that im_okD(2) [OF xs] by simp
  then have 1: "if length xs < unat (capacity m)
      then \<exists>s' \<sigma>'. im_push N P m v s = Some (Inr (), s') \<and> rep s' \<sigma>' \<and> im_ok P m (xs @ [v]) \<sigma>' \<and>
        same_but (domain m) \<sigma> \<sigma>'
      else \<exists>s'. im_push N P m v s = Some (Inl IndexMapOperationError, s') \<and> rep s' \<sigma>"
    using push keyed_value.kv_push [OF K xs v] keyed_value.kv_push_full [OF K xs, of v]
    by (cases "length xs < unat (capacity m)") (simp, metis, simp)
  have 2: "\<exists>s' \<sigma>'. im_clear N P m s = Some ((), s') \<and> rep s' \<sigma>' \<and> im_ok P m [] \<sigma>' \<and>
       same_but (domain m) \<sigma> \<sigma>'"
    using clear keyed_value.kv_clear [OF K xs] by metis
  have 3: "if length vs \<le> unat (capacity m)
      then \<exists>s' \<sigma>'. im_reset N P m vs s = Some (Inr (), s') \<and> rep s' \<sigma>' \<and> im_ok P m vs \<sigma>' \<and>
        same_but (domain m) \<sigma> \<sigma>'
      else \<exists>s'. im_reset N P m vs s = Some (Inl IndexMapOperationError, s') \<and> rep s' \<sigma>"
    using reset keyed_value.kv_reset [OF K xs vs(1)] keyed_value.kv_reset_full [OF K _ vs(2), of m \<sigma>]
    by (cases "length vs \<le> unat (capacity m)") (simp, metis, simp)
  show ?thesis using 1 2 3 by blast
qed

theorem index_map_writes_witness:
  "\<exists>\<sigma> s'. im_push kv_store pool_address_ops (im_new [1] 1) (PoolAddress (b32_fill 5)) \<sigma> =
     Some (Inl IndexMapOperationError, s')"
proof -
  obtain \<sigma> where s: "im_ok pool_address_ops (im_new [1] 1) [PoolAddress (b32_fill 4)] \<sigma>"
    using im_ok_exists [OF pool_address.keyed_value_axioms,
        of "[PoolAddress (b32_fill 4)]" "im_new [1] 1"] by (auto simp: im_new_def)
  show ?thesis
    using index_map_writes [OF kv_pool_address.stored_values_axioms refl s,
        of "PoolAddress (b32_fill 5)" "[]"]
    by (auto simp: im_new_def simp del: b32_bytes_fill)
qed

end
