(* ===== verification/Heap_List.thy ===== *)
theory Heap_List
  imports Index_Map
begin

text \<open>
  Binary minimum heaps in lists: the reference for the heap over the indexed map.  The two
  sift functions are the loops of \<open>down_heapify\<close> and \<open>up_heapify\<close> on a plain list; the
  lemmas show that they keep the elements and restore the heap order when it is broken at
  one place.
\<close>

section \<open>Heap order\<close>

definition parent :: "nat \<Rightarrow> nat" where
  "parent i = (i - 1) div 2"

lemma parent_less: "0 < i \<Longrightarrow> parent i < i"
  by (simp add: parent_def)

lemma parent_child [simp]: "parent (2 * i + 1) = i" "parent (Suc (2 * i)) = i"
  "parent (2 * i + 2) = i" "parent (Suc (Suc (2 * i))) = i"
  by (simp_all add: parent_def)

lemma parent_eq_iff: "0 < j \<Longrightarrow> parent j = i \<longleftrightarrow> j = 2 * i + 1 \<or> j = 2 * i + 2"
  by (auto simp: parent_def)

definition heap :: "('v \<Rightarrow> 'p::linorder) \<Rightarrow> 'v list \<Rightarrow> bool" where
  "heap p xs \<longleftrightarrow> (\<forall>i. 0 < i \<longrightarrow> i < length xs \<longrightarrow> p (xs ! parent i) \<le> p (xs ! i))"

lemma heap_min: "heap p xs \<Longrightarrow> i < length xs \<Longrightarrow> p (xs ! 0) \<le> p (xs ! i)"
proof (induction i rule: less_induct)
  case (less i)
  show ?case
  proof (cases "i = 0")
    case False
    then have "p (xs ! 0) \<le> p (xs ! parent i)"
      using less.prems parent_less [of i] by (intro less.IH) auto
    also have "\<dots> \<le> p (xs ! i)" using less.prems False by (simp add: heap_def)
    finally show ?thesis .
  qed simp
qed

lemma heap_min_set: "heap p xs \<Longrightarrow> x \<in> set xs \<Longrightarrow> p (xs ! 0) \<le> p x"
  by (metis heap_min in_set_conv_nth)

lemma heap_Nil [simp]: "heap p []" and heap_single [simp]: "heap p [x]"
  by (simp_all add: heap_def)

lemma heap_butlast: "heap p (xs @ [x]) \<Longrightarrow> heap p xs"
  unfolding heap_def
proof (intro allI impI)
  fix i assume h: "\<forall>i. 0 < i \<longrightarrow> i < length (xs @ [x]) \<longrightarrow>
      p ((xs @ [x]) ! parent i) \<le> p ((xs @ [x]) ! i)" and i: "0 < i" "i < length xs"
  then have "parent i < length xs" using parent_less [of i] by simp
  with h i show "p (xs ! parent i) \<le> p (xs ! i)"
    by (metis length_append_singleton less_SucI nth_append)
qed

lemma heap_cong: "map p xs = map p ys \<Longrightarrow> heap p xs = heap p ys"
proof -
  assume e: "map p xs = map p ys"
  then have l: "length xs = length ys" by (metis length_map)
  have n: "p (xs ! i) = p (ys ! i)" if "i < length xs" for i
    using e l that by (metis nth_map)
  have "p (xs ! parent i) \<le> p (xs ! i) \<longleftrightarrow> p (ys ! parent i) \<le> p (ys ! i)"
    if "0 < i" "i < length xs" for i
    using n [of i] n [of "parent i"] parent_less [OF that(1)] that by simp
  then show ?thesis unfolding heap_def using l by auto
qed

text \<open>
  The order may be broken between \<open>i\<close> and its children (\<open>down\<close>), or between \<open>i\<close> and its
  parent (\<open>up\<close>); across \<open>i\<close> it holds in both cases.
\<close>

definition heap_but_below :: "('v \<Rightarrow> 'p::linorder) \<Rightarrow> nat \<Rightarrow> 'v list \<Rightarrow> bool" where
  "heap_but_below p i xs \<longleftrightarrow>
     (\<forall>j. 0 < j \<longrightarrow> j < length xs \<longrightarrow> parent j \<noteq> i \<longrightarrow> p (xs ! parent j) \<le> p (xs ! j)) \<and>
     (\<forall>j. 0 < j \<longrightarrow> j < length xs \<longrightarrow> parent j = i \<longrightarrow> 0 < i \<longrightarrow> p (xs ! parent i) \<le> p (xs ! j))"

definition heap_but_above :: "('v \<Rightarrow> 'p::linorder) \<Rightarrow> nat \<Rightarrow> 'v list \<Rightarrow> bool" where
  "heap_but_above p i xs \<longleftrightarrow>
     (\<forall>j. 0 < j \<longrightarrow> j < length xs \<longrightarrow> j \<noteq> i \<longrightarrow> p (xs ! parent j) \<le> p (xs ! j)) \<and>
     (\<forall>j. 0 < j \<longrightarrow> j < length xs \<longrightarrow> parent j = i \<longrightarrow> 0 < i \<longrightarrow> p (xs ! parent i) \<le> p (xs ! j))"

lemma heap_across:
  "heap p xs \<Longrightarrow> 0 < j \<Longrightarrow> j < length xs \<Longrightarrow> 0 < parent j \<Longrightarrow>
     p (xs ! parent (parent j)) \<le> p (xs ! j)"
  unfolding heap_def by (metis less_trans order_trans parent_less)

lemma heap_update_down:
  assumes h: "heap p xs" and i: "i < length xs" and v: "p (xs ! i) \<le> p v"
  shows "heap_but_below p i (xs[i := v])"
  unfolding heap_but_below_def length_list_update
proof (intro conjI allI impI)
  fix j assume j: "0 < j" "j < length xs" "parent j \<noteq> i"
  then have "p (xs ! parent j) \<le> p (xs ! j)" using h by (simp add: heap_def)
  with j v show "p (xs[i := v] ! parent j) \<le> p (xs[i := v] ! j)"
    by (cases "j = i") (auto intro: order_trans)
next
  fix j assume j: "0 < j" "j < length xs" "parent j = i" "0 < i"
  then show "p (xs[i := v] ! parent i) \<le> p (xs[i := v] ! j)"
    using heap_across [OF h j(1,2)] parent_less [OF j(1)] parent_less [OF j(4)] by simp
qed

lemma heap_update_up:
  assumes h: "heap p xs" and i: "i < length xs" and v: "p v \<le> p (xs ! i)"
  shows "heap_but_above p i (xs[i := v])"
  unfolding heap_but_above_def length_list_update
proof (intro conjI allI impI)
  fix j assume j: "0 < j" "j < length xs" "j \<noteq> i"
  then have "p (xs ! parent j) \<le> p (xs ! j)" using h by (simp add: heap_def)
  with j v i show "p (xs[i := v] ! parent j) \<le> p (xs[i := v] ! j)"
    by (cases "parent j = i") (auto intro: order_trans)
next
  fix j assume j: "0 < j" "j < length xs" "parent j = i" "0 < i"
  then show "p (xs[i := v] ! parent i) \<le> p (xs[i := v] ! j)"
    using heap_across [OF h j(1,2)] parent_less [OF j(1)] parent_less [OF j(4)] by simp
qed

lemma heap_snoc:
  assumes h: "heap p xs"
  shows "heap_but_above p (length xs) (xs @ [v])"
  unfolding heap_but_above_def
proof (intro conjI allI impI)
  fix j assume j: "0 < j" "j < length (xs @ [v])" "j \<noteq> length xs"
  then have "j < length xs" "parent j < length xs" using parent_less [OF j(1)] by auto
  then show "p ((xs @ [v]) ! parent j) \<le> p ((xs @ [v]) ! j)"
    using h j(1) by (simp add: heap_def nth_append)
next
  fix j assume "0 < j" "j < length (xs @ [v])" "parent j = length xs"
  then have False using parent_less [of j] by simp
  then show "p ((xs @ [v]) ! parent (length xs)) \<le> p ((xs @ [v]) ! j)" ..
qed

section \<open>Sifting down\<close>

text \<open>The smaller of \<open>i\<close> and its children, as the loop of the code finds it.\<close>

definition head_of :: "('v \<Rightarrow> 'p::linorder) \<Rightarrow> nat \<Rightarrow> 'v list \<Rightarrow> nat" where
  "head_of p i xs =
     (let left = 2 * i + 1; right = 2 * i + 2;
          head = (if left < length xs \<and> p (xs ! left) < p (xs ! i) then left else i)
      in if right < length xs \<and> p (xs ! right) < p (xs ! head) then right else head)"

lemma head_of_cases:
  "head_of p i xs = i \<or> i < head_of p i xs \<and> head_of p i xs < length xs \<and> parent (head_of p i xs) = i"
  by (auto simp: head_of_def Let_def)

lemma head_of_min: "i < length xs \<Longrightarrow> j = i \<or> 0 < j \<and> parent j = i \<Longrightarrow> j < length xs \<Longrightarrow>
    p (xs ! head_of p i xs) \<le> p (xs ! j)"
proof -
  assume j: "i < length xs" "j = i \<or> 0 < j \<and> parent j = i" "j < length xs"
  then have "j = i \<or> j = 2 * i + 1 \<or> j = 2 * i + 2" using parent_eq_iff by blast
  then show ?thesis
    using j(3) by (elim disjE) (auto simp: head_of_def Let_def not_less)
qed

function sift_down :: "('v \<Rightarrow> 'p::linorder) \<Rightarrow> nat \<Rightarrow> 'v list \<Rightarrow> 'v list" where
  "sift_down p i xs =
     (let head = head_of p i xs
      in if head \<noteq> i then sift_down p head (swap_at xs i head) else xs)"
  by pat_completeness auto
termination
proof (relation "measure (\<lambda>(p, i, xs). length xs - i)")
  fix p :: "'v \<Rightarrow> 'p::linorder" and i xs head
  assume "head = head_of p i xs" "head \<noteq> i"
  then show "((p, head, swap_at xs i head), p, i, xs) \<in> measure (\<lambda>(p, i, xs). length xs - i)"
    using head_of_cases [of p i xs] by auto
qed simp

declare sift_down.simps [simp del]

lemma sift_down_step:
  assumes h: "heap_but_below p i xs" and i: "i < length xs" and head: "head_of p i xs \<noteq> i"
  shows "heap_but_below p (head_of p i xs) (swap_at xs i (head_of p i xs))"
proof -
  let ?h = "head_of p i xs"
  have hd: "i < ?h" "?h < length xs" "parent ?h = i"
    using head_of_cases [of p i xs] head by auto
  have min: "p (xs ! ?h) \<le> p (xs ! j)" if "j = i \<or> 0 < j \<and> parent j = i" "j < length xs" for j
    using head_of_min [OF i that] .
  have nth: "swap_at xs i ?h ! n = (if n = ?h then xs ! i else if n = i then xs ! ?h else xs ! n)"
    if "n < length xs" for n
    using nth_swap_at [OF i hd(2) that] .
  have lt: "parent j < length xs" if "0 < j" "j < length xs" for j
    using parent_less [OF that(1)] that(2) by simp
  have up: "p (xs ! parent i) \<le> p (xs ! ?h)" if "0 < i"
    using h hd that unfolding heap_but_below_def by (metis less_trans)
  show ?thesis
    unfolding heap_but_below_def length_swap_at
  proof (intro conjI allI impI)
    fix j assume j: "0 < j" "j < length xs" "parent j \<noteq> ?h"
    show "p (swap_at xs i ?h ! parent j) \<le> p (swap_at xs i ?h ! j)"
    proof (cases "parent j = i")
      case True
      then show ?thesis
        using min [of j] min [of i] j i hd(1) parent_less [OF j(1)]
        by (cases "j = ?h") (simp_all add: nth)
    next
      case False
      then have ne: "j \<noteq> ?h" using hd(3) by auto
      show ?thesis
        using up False ne j lt [OF j(1,2)] h parent_less [OF j(1)]
        by (cases "j = i") (simp_all add: nth heap_but_below_def)
    qed
  next
    fix j assume j: "0 < j" "j < length xs" "parent j = ?h"
    then have "j \<noteq> i" "j \<noteq> ?h" using hd(1) parent_less [OF j(1)] by auto
    moreover have "p (xs ! ?h) \<le> p (xs ! j)"
      using h j hd(1) unfolding heap_but_below_def by (metis less_irrefl)
    ultimately show "p (swap_at xs i ?h ! parent ?h) \<le> p (swap_at xs i ?h ! j)"
      using j hd i by (simp add: nth)
  qed
qed

lemma sift_down_heap: "heap_but_below p i xs \<Longrightarrow> i < length xs \<Longrightarrow> heap p (sift_down p i xs)"
proof (induction p i xs rule: sift_down.induct)
  case (1 p i xs)
  show ?case
  proof (cases "head_of p i xs = i")
    case True
    have "p (xs ! i) \<le> p (xs ! j)" if "0 < j" "j < length xs" "parent j = i" for j
      using head_of_min [OF 1(3), of j p] that True by simp
    then have "heap p xs"
      using 1(2) unfolding heap_def heap_but_below_def by metis
    then show ?thesis using True by (simp add: sift_down.simps [of p i xs])
  next
    case False
    then show ?thesis
      using "1.IH" [OF refl False sift_down_step [OF 1(2,3) False]] head_of_cases [of p i xs]
      by (simp add: sift_down.simps [of p i xs] Let_def)
  qed
qed

lemma sift_down_mset: "i < length xs \<Longrightarrow> mset (sift_down p i xs) = mset xs"
proof (induction p i xs rule: sift_down.induct)
  case (1 p i xs)
  then show ?case
    using head_of_cases [of p i xs] by (auto simp: sift_down.simps [of p i xs] Let_def)
qed

section \<open>Sifting up\<close>

function sift_up :: "('v \<Rightarrow> 'p::linorder) \<Rightarrow> nat \<Rightarrow> 'v list \<Rightarrow> 'v list" where
  "sift_up p i xs =
     (if i = 0 then xs
      else if p (xs ! i) < p (xs ! parent i) then sift_up p (parent i) (swap_at xs i (parent i))
      else xs)"
  by pat_completeness auto
termination
  by (relation "measure (\<lambda>(p, i, xs). i)") (auto simp: parent_less)

declare sift_up.simps [simp del]

lemma sift_up_step:
  assumes h: "heap_but_above p i xs" and i: "0 < i" "i < length xs"
    and less: "p (xs ! i) < p (xs ! parent i)"
  shows "heap_but_above p (parent i) (swap_at xs i (parent i))"
proof -
  let ?q = "parent i"
  have q: "?q < i" "?q < length xs" using parent_less [OF i(1)] i(2) by auto
  have nth: "swap_at xs i ?q ! n = (if n = ?q then xs ! i else if n = i then xs ! ?q else xs ! n)"
    if "n < length xs" for n
    using nth_swap_at [OF i(2) q(2) that] .
  have lt: "parent j < j" "parent j < length xs" if "0 < j" "j < length xs" for j
    using parent_less [OF that(1)] that(2) by auto
  have o: "p (xs ! parent j) \<le> p (xs ! j)" if "0 < j" "j < length xs" "j \<noteq> i" for j
    using h that unfolding heap_but_above_def by blast
  have across: "p (xs ! ?q) \<le> p (xs ! j)" if "0 < j" "j < length xs" "parent j = i" for j
    using h that i(1) unfolding heap_but_above_def by blast
  show ?thesis
    unfolding heap_but_above_def length_swap_at
  proof (intro conjI allI impI)
    fix j assume j: "0 < j" "j < length xs" "j \<noteq> ?q"
    consider "j = i" | "j \<noteq> i" "parent j = i" | "j \<noteq> i" "parent j = ?q"
      | "j \<noteq> i" "parent j \<noteq> i" "parent j \<noteq> ?q" by blast
    then show "p (swap_at xs i ?q ! parent j) \<le> p (swap_at xs i ?q ! j)"
      using j lt [OF j(1,2)] q o [OF j(1,2)] across [OF j(1,2)] less
      by cases (auto simp: nth)
  next
    fix j assume j: "0 < j" "j < length xs" "parent j = ?q" "0 < ?q"
    have q2: "parent ?q < ?q" using parent_less [OF j(4)] .
    have "p (xs ! parent ?q) \<le> p (xs ! ?q)" using o [OF j(4) q(2)] q(1) by simp
    moreover have "p (xs ! ?q) \<le> p (xs ! j)" if "j \<noteq> i" using o [OF j(1,2) that] j(3) by simp
    ultimately show "p (swap_at xs i ?q ! parent ?q) \<le> p (swap_at xs i ?q ! j)"
      using j q q2 lt [OF j(1,2)] by (auto simp: nth)
  qed
qed

lemma sift_up_heap: "heap_but_above p i xs \<Longrightarrow> i < length xs \<Longrightarrow> heap p (sift_up p i xs)"
proof (induction p i xs rule: sift_up.induct)
  case (1 p i xs)
  show ?case
  proof (cases "0 < i \<and> p (xs ! i) < p (xs ! parent i)")
    case True
    then have "heap p (sift_up p (parent i) (swap_at xs i (parent i)))"
      using 1 sift_up_step [OF 1(2)] parent_less [of i] by auto
    then show ?thesis using True by (simp add: sift_up.simps [of p i xs])
  next
    case False
    then have "heap p xs"
      using 1(2) unfolding heap_def heap_but_above_def by (metis not_le)
    then show ?thesis using False by (auto simp: sift_up.simps [of p i xs])
  qed
qed

lemma sift_up_mset: "i < length xs \<Longrightarrow> mset (sift_up p i xs) = mset xs"
proof (induction p i xs rule: sift_up.induct)
  case (1 p i xs)
  then show ?case
    using parent_less [of i] by (auto simp: sift_up.simps [of p i xs])
qed

lemmas sift_simps = sift_down_heap sift_up_heap sift_down_mset sift_up_mset

end
