(* ===== verification/Index_Heap.thy ===== *)
theory Index_Heap
  imports Heap_List
begin

text \<open>
  The binary minimum heap over the indexed map (\<open>index_heap.rs\<close>).  The operations are the
  code's, with \<open>u32\<close> arithmetic that panics on overflow; the lemmas show that on a store that
  holds a heap they compute the list functions of \<open>Heap_List\<close>, keep the representation of
  \<open>Index_Map\<close> exact and touch no key outside the heap's range.  An \<open>IndexHeap\<close> wraps an
  \<open>IndexMap\<close> and dereferences to it, so it is the same record here.
\<close>

section \<open>Operations\<close>

datatype index_heap_operation_error = IndexHeapOperationError

definition ih_new :: "bytes \<Rightarrow> u32 \<Rightarrow> index_map" where
  "ih_new d cap = im_new d cap"

definition ih_replace :: "'s nas \<Rightarrow> 'v vops \<Rightarrow> index_map \<Rightarrow> u32 \<Rightarrow> 'v \<Rightarrow> u32 \<Rightarrow> 'v \<Rightarrow> 's \<Rightarrow>
    (unit \<times> 's) option" where
  "ih_replace N P m to_index to_v from_index from_v s = do {
     (_, s) \<leftarrow> nas_delete N s (key_iv (domain m) from_index);
     (_, s) \<leftarrow> nas_delete N s (key_ki (domain m) (vkey P to_v));
     im_set N P m to_index from_v s
   }"

definition ih_swap :: "'s nas \<Rightarrow> 'v vops \<Rightarrow> index_map \<Rightarrow> u32 \<Rightarrow> 'v \<Rightarrow> u32 \<Rightarrow> 'v \<Rightarrow> 's \<Rightarrow>
    (unit \<times> 's) option" where
  "ih_swap N P m i i_v j j_v s = do {
     (_, s) \<leftarrow> im_set N P m i j_v s;
     im_set N P m j i_v s
   }"

text \<open>
  One round of the loop of \<open>down_heapify\<close>: the index to go on with, or none at the
  \<open>break\<close>.
\<close>

definition ih_down_step :: "'s nas \<Rightarrow> 'v vops \<Rightarrow> index_map \<Rightarrow> u32 \<Rightarrow> u32 \<Rightarrow> 's \<Rightarrow>
    (u32 option \<times> 's) option" where
  "ih_down_step N P m index len s = do {
     twice \<leftarrow> u32_mul 2 index;
     left \<leftarrow> u32_add twice 1;
     right \<leftarrow> u32_add twice 2;
     (head, s) \<leftarrow> (if left < len then do {
         (value, s) \<leftarrow> im_get_unwrap N P m index s;
         (left_v, s) \<leftarrow> im_get_unwrap N P m left s;
         Some (if v_lt P left_v value then left else index, s)
       } else Some (index, s));
     (head, s) \<leftarrow> (if right < len then do {
         (value, s) \<leftarrow> im_get_unwrap N P m head s;
         (right_v, s) \<leftarrow> im_get_unwrap N P m right s;
         Some (if v_lt P right_v value then right else head, s)
       } else Some (head, s));
     if head \<noteq> index then do {
       (value, s) \<leftarrow> im_get_unwrap N P m index s;
       (head_v, s) \<leftarrow> im_get_unwrap N P m head s;
       (_, s) \<leftarrow> ih_swap N P m index value head head_v s;
       Some (Some head, s)
     } else Some (None, s)
   }"

lemma ih_down_step_next:
  assumes "ih_down_step N P m index len s = Some (Some i, s')"
  shows "unat index < unat i \<and> unat i < unat len"
proof -
  obtain twice left right where a: "u32_mul 2 index = Some twice" "u32_add twice 1 = Some left"
    "u32_add twice 2 = Some right"
    using assms by (auto simp: ih_down_step_def bind_eq_Some_conv)
  have b: "unat left = 2 * unat index + 1" "unat right = 2 * unat index + 2"
    using u32_mul_SomeD [OF a(1)] u32_add_SomeD [OF a(2)] u32_add_SomeD [OF a(3)] by simp_all
  have "i = left \<and> left < len \<or> i = right \<and> right < len"
    using assms by (auto simp: ih_down_step_def a bind_eq_Some_conv split: if_splits)
  then show ?thesis using b by (auto simp: word_less_nat_alt)
qed

function ih_down_heapify :: "'s nas \<Rightarrow> 'v vops \<Rightarrow> index_map \<Rightarrow> u32 \<Rightarrow> u32 \<Rightarrow> 's \<Rightarrow>
    (unit \<times> 's) option" where
  "ih_down_heapify N P m index len s =
     (case ih_down_step N P m index len s of
        None \<Rightarrow> None
      | Some (None, s) \<Rightarrow> Some ((), s)
      | Some (Some i, s) \<Rightarrow> ih_down_heapify N P m i len s)"
  by pat_completeness auto
termination
  by (relation "measure (\<lambda>(N, P, m, index, len, s). unat len - unat index)")
     (auto dest: ih_down_step_next)

text \<open>One round of the loop of \<open>up_heapify\<close>.\<close>

definition ih_up_step :: "'s nas \<Rightarrow> 'v vops \<Rightarrow> index_map \<Rightarrow> u32 \<Rightarrow> 's \<Rightarrow>
    (u32 option \<times> 's) option" where
  "ih_up_step N P m index s =
     (if index = 0 then Some (None, s)
      else do {
        pred \<leftarrow> u32_sub index 1;
        let parent = pred div 2;
        (value, s) \<leftarrow> im_get_unwrap N P m index s;
        (parent_v, s) \<leftarrow> im_get_unwrap N P m parent s;
        if v_lt P value parent_v then do {
          (_, s) \<leftarrow> ih_swap N P m index value parent parent_v s;
          Some (Some parent, s)
        } else Some (None, s)
      })"

lemma ih_up_step_next:
  assumes "ih_up_step N P m index s = Some (Some i, s')"
  shows "unat i < unat index"
proof -
  obtain pred where a: "u32_sub index 1 = Some pred" "i = pred div 2" "index \<noteq> 0"
    using assms by (auto simp: ih_up_step_def Let_def bind_eq_Some_conv split: if_splits)
  then have "unat i = (unat index - 1) div 2" "unat index \<noteq> 0"
    using u32_sub_SomeD [OF a(1)] by (simp_all add: unat_div unat_eq_zero)
  then show ?thesis by simp
qed

function ih_up_heapify :: "'s nas \<Rightarrow> 'v vops \<Rightarrow> index_map \<Rightarrow> u32 \<Rightarrow> 's \<Rightarrow>
    (unit \<times> 's) option" where
  "ih_up_heapify N P m index s =
     (case ih_up_step N P m index s of
        None \<Rightarrow> None
      | Some (None, s) \<Rightarrow> Some ((), s)
      | Some (Some i, s) \<Rightarrow> ih_up_heapify N P m i s)"
  by pat_completeness auto
termination
  by (relation "measure (\<lambda>(N, P, m, index, s). unat index)") (auto dest: ih_up_step_next)

declare ih_down_heapify.simps [simp del] ih_up_heapify.simps [simp del]

definition ih_extract :: "'s nas \<Rightarrow> 'v vops \<Rightarrow> index_map \<Rightarrow> 's \<Rightarrow> ('v option \<times> 's) option" where
  "ih_extract N P m s = do {
     (len, s) \<leftarrow> im_length N m s;
     if len = 0 then Some (None, s)
     else do {
       (ret, s) \<leftarrow> im_get_unwrap N P m 0 s;
       if len = 1 then do {
         (_, s) \<leftarrow> im_set_length N m 0 s;
         (_, s) \<leftarrow> im_delete N m 0 (vkey P ret) s;
         Some (Some ret, s)
       } else do {
         (first_v, s) \<leftarrow> im_get_unwrap N P m 0 s;
         last \<leftarrow> u32_sub len 1;
         (last_v, s) \<leftarrow> im_get_unwrap N P m last s;
         (_, s) \<leftarrow> ih_replace N P m 0 first_v last last_v s;
         (_, s) \<leftarrow> im_set_length N m last s;
         (_, s) \<leftarrow> ih_down_heapify N P m 0 last s;
         Some (Some ret, s)
       }
     }
   }"

definition ih_insert :: "'s nas \<Rightarrow> 'v vops \<Rightarrow> index_map \<Rightarrow> 'v \<Rightarrow> 's \<Rightarrow>
    ((index_heap_operation_error + unit) \<times> 's) option" where
  "ih_insert N P m value s = do {
     (len, s) \<leftarrow> im_length N m s;
     if capacity m = len then Some (Inl IndexHeapOperationError, s)
     else do {
       (_, s) \<leftarrow> im_set N P m len value s;
       len' \<leftarrow> u32_add len 1;
       (_, s) \<leftarrow> im_set_length N m len' s;
       (_, s) \<leftarrow> ih_up_heapify N P m len s;
       Some (Inr (), s)
     }
   }"

text \<open>\<open>insert(\<dots>).unwrap()\<close>\<close>

definition ih_insert_unwrap :: "'s nas \<Rightarrow> 'v vops \<Rightarrow> index_map \<Rightarrow> 'v \<Rightarrow> 's \<Rightarrow> (unit \<times> 's) option" where
  "ih_insert_unwrap N P m value s = do {
     (r, s) \<leftarrow> ih_insert N P m value s;
     case r of Inl _ \<Rightarrow> None | Inr u \<Rightarrow> Some (u, s)
   }"

definition ih_insert_extract :: "'s nas \<Rightarrow> 'v vops \<Rightarrow> index_map \<Rightarrow> 'v \<Rightarrow> 's \<Rightarrow>
    ((index_heap_operation_error + 'v option) \<times> 's) option" where
  "ih_insert_extract N P m value s = do {
     (len, s) \<leftarrow> im_length N m s;
     if len = 0 then do {
       (_, s) \<leftarrow> ih_insert_unwrap N P m value s;
       Some (Inr None, s)
     } else do {
       (first_v, s) \<leftarrow> im_get_unwrap N P m 0 s;
       if len = capacity m then
         if v_lt P value first_v then Some (Inl IndexHeapOperationError, s)
         else do {
           (replaced, s) \<leftarrow> ih_extract N P m s;
           (_, s) \<leftarrow> ih_insert_unwrap N P m value s;
           Some (Inr replaced, s)
         }
       else do {
         (_, s) \<leftarrow> ih_insert_unwrap N P m value s;
         Some (Inr None, s)
       }
     }
   }"

definition ih_change_key :: "'s nas \<Rightarrow> 'v vops \<Rightarrow> index_map \<Rightarrow> 'v \<Rightarrow> 's \<Rightarrow> (unit \<times> 's) option" where
  "ih_change_key N P m value s = do {
     (len, s) \<leftarrow> im_length N m s;
     (index, s) \<leftarrow> im_index_of_key N m (vkey P value) s;
     case index of
       None \<Rightarrow> Some ((), s)
     | Some index \<Rightarrow>
         if index < len then do {
           (old_value, s) \<leftarrow> im_get_unwrap N P m index s;
           if vcmp P old_value value = Less then do {
             (_, s) \<leftarrow> im_set N P m index value s;
             ih_down_heapify N P m index len s
           } else if vcmp P old_value value = Greater then do {
             (_, s) \<leftarrow> im_set N P m index value s;
             ih_up_heapify N P m index s
           } else Some ((), s)
         } else Some ((), s)
   }"

text \<open>The loop of \<open>unordered_values\<close>.\<close>

fun ih_collect :: "'s nas \<Rightarrow> 'v vops \<Rightarrow> index_map \<Rightarrow> u32 list \<Rightarrow> 's \<Rightarrow> ('v list \<times> 's) option" where
  "ih_collect N P m [] s = Some ([], s)"
| "ih_collect N P m (i # is) s = do {
     (v, s) \<leftarrow> im_get_unwrap N P m i s;
     (vs, s) \<leftarrow> ih_collect N P m is s;
     Some (v # vs, s)
   }"

definition ih_unordered_values :: "'s nas \<Rightarrow> 'v vops \<Rightarrow> index_map \<Rightarrow> 's \<Rightarrow> ('v list \<times> 's) option" where
  "ih_unordered_values N P m s = do {
     (len, s) \<leftarrow> im_length N m s;
     ih_collect N P m (indices len) s
   }"

definition ih_remove_item :: "'s nas \<Rightarrow> 'v vops \<Rightarrow> index_map \<Rightarrow> bytes \<Rightarrow> 's \<Rightarrow> (unit \<times> 's) option" where
  "ih_remove_item N P m key s = do {
     (len, s) \<leftarrow> im_length N m s;
     (index, s) \<leftarrow> im_index_of_key N m key s;
     case index of
       None \<Rightarrow> Some ((), s)
     | Some index \<Rightarrow>
         if index < len then
           if index = 0 then do { (_, s) \<leftarrow> ih_extract N P m s; Some ((), s) }
           else do {
             last \<leftarrow> u32_sub len 1;
             if index = last then do {
               (_, s) \<leftarrow> im_delete N m index key s;
               (_, s) \<leftarrow> im_set_length N m last s;
               Some ((), s)
             } else do {
               (this_v, s) \<leftarrow> im_get_unwrap N P m index s;
               (last_v, s) \<leftarrow> im_get_unwrap N P m last s;
               (_, s) \<leftarrow> ih_replace N P m index this_v last last_v s;
               (_, s) \<leftarrow> im_set_length N m last s;
               if v_lt P this_v last_v then ih_down_heapify N P m index last s
               else if v_gt P this_v last_v then ih_up_heapify N P m index s
               else Some ((), s)
             }
           }
         else Some ((), s)
   }"

section \<open>On every lawful store\<close>

context stored_values
begin

lemma sim_ih_replace [sim_intros]:
  "sim rep (ih_replace N P m i v j w) (ih_replace kv_store P m i v j w)"
  unfolding ih_replace_def by (intro sim_intros sim_store)

lemma sim_ih_swap [sim_intros]: "sim rep (ih_swap N P m i v j w) (ih_swap kv_store P m i v j w)"
  unfolding ih_swap_def by (intro sim_intros)

lemma sim_ih_down_step [sim_intros]:
  "sim rep (ih_down_step N P m i n) (ih_down_step kv_store P m i n)"
  unfolding ih_down_step_def by (intro sim_intros)

lemma sim_ih_up_step [sim_intros]: "sim rep (ih_up_step N P m i) (ih_up_step kv_store P m i)"
  unfolding ih_up_step_def Let_def by (intro sim_intros)

lemma sim_ih_down_heapify [sim_intros]:
  "sim rep (ih_down_heapify N P m i n) (ih_down_heapify kv_store P m i n)"
proof (induction "unat n - unat i" arbitrary: i rule: less_induct)
  case less
  show ?case
  proof (rule simI)
    fix s \<sigma> a \<sigma>'
    assume r: "rep s \<sigma>" and k: "ih_down_heapify kv_store P m i n \<sigma> = Some (a, \<sigma>')"
    then obtain nx \<sigma>1 where 1: "ih_down_step kv_store P m i n \<sigma> = Some (nx, \<sigma>1)"
      unfolding ih_down_heapify.simps [of kv_store P m i n \<sigma>] by (auto split: option.splits)
    obtain s1 where 2: "ih_down_step N P m i n s = Some (nx, s1)" "rep s1 \<sigma>1"
      using simD [OF sim_ih_down_step r 1] by blast
    show "\<exists>s'. ih_down_heapify N P m i n s = Some (a, s') \<and> rep s' \<sigma>'"
    proof (cases nx)
      case None
      then show ?thesis
        using k 2 unfolding ih_down_heapify.simps [of kv_store P m i n \<sigma>]
          ih_down_heapify.simps [of N P m i n s] 1 by simp
    next
      case (Some j)
      then have "unat n - unat j < unat n - unat i"
        using ih_down_step_next [OF 1 [unfolded Some]] by linarith
      then show ?thesis
        using simD [OF less 2(2)] k unfolding ih_down_heapify.simps [of kv_store P m i n \<sigma>]
          ih_down_heapify.simps [of N P m i n s] 1 2(1) Some by simp
    qed
  qed
qed

lemma sim_ih_up_heapify [sim_intros]:
  "sim rep (ih_up_heapify N P m i) (ih_up_heapify kv_store P m i)"
proof (induction "unat i" arbitrary: i rule: less_induct)
  case less
  show ?case
  proof (rule simI)
    fix s \<sigma> a \<sigma>'
    assume r: "rep s \<sigma>" and k: "ih_up_heapify kv_store P m i \<sigma> = Some (a, \<sigma>')"
    then obtain nx \<sigma>1 where 1: "ih_up_step kv_store P m i \<sigma> = Some (nx, \<sigma>1)"
      unfolding ih_up_heapify.simps [of kv_store P m i \<sigma>] by (auto split: option.splits)
    obtain s1 where 2: "ih_up_step N P m i s = Some (nx, s1)" "rep s1 \<sigma>1"
      using simD [OF sim_ih_up_step r 1] by blast
    show "\<exists>s'. ih_up_heapify N P m i s = Some (a, s') \<and> rep s' \<sigma>'"
    proof (cases nx)
      case None
      then show ?thesis
        using k 2 unfolding ih_up_heapify.simps [of kv_store P m i \<sigma>]
          ih_up_heapify.simps [of N P m i s] 1 by simp
    next
      case (Some j)
      then have "unat j < unat i" using ih_up_step_next [OF 1 [unfolded Some]] by blast
      then show ?thesis
        using simD [OF less 2(2)] k unfolding ih_up_heapify.simps [of kv_store P m i \<sigma>]
          ih_up_heapify.simps [of N P m i s] 1 2(1) Some by simp
    qed
  qed
qed

lemma sim_ih_extract [sim_intros]: "sim rep (ih_extract N P m) (ih_extract kv_store P m)"
  unfolding ih_extract_def by (intro sim_intros)

lemma sim_ih_insert [sim_intros]: "sim rep (ih_insert N P m v) (ih_insert kv_store P m v)"
  unfolding ih_insert_def by (intro sim_intros)

lemma sim_ih_insert_unwrap [sim_intros]:
  "sim rep (ih_insert_unwrap N P m v) (ih_insert_unwrap kv_store P m v)"
  unfolding ih_insert_unwrap_def by (intro sim_intros)

lemma sim_ih_insert_extract [sim_intros]:
  "sim rep (ih_insert_extract N P m v) (ih_insert_extract kv_store P m v)"
  unfolding ih_insert_extract_def by (intro sim_intros)

lemma sim_ih_change_key [sim_intros]: "sim rep (ih_change_key N P m v) (ih_change_key kv_store P m v)"
  unfolding ih_change_key_def by (intro sim_intros)

lemma sim_ih_collect [sim_intros]: "sim rep (ih_collect N P m is) (ih_collect kv_store P m is)"
proof (induction "is")
  case (Cons i "is")
  have eq: "ih_collect N P m (i # is) = (\<lambda>s. do {
     (v, s) \<leftarrow> im_get_unwrap N P m i s; (vs, s) \<leftarrow> ih_collect N P m is s; Some (v # vs, s) })"
    for N :: "'x nas"
    by (rule ext) simp
  show ?case unfolding eq by (intro sim_intros Cons)
qed (simp add: sim_def)

lemma sim_ih_unordered_values [sim_intros]:
  "sim rep (ih_unordered_values N P m) (ih_unordered_values kv_store P m)"
  unfolding ih_unordered_values_def by (intro sim_intros)

lemma sim_ih_remove_item [sim_intros]: "sim rep (ih_remove_item N P m k) (ih_remove_item kv_store P m k)"
  unfolding ih_remove_item_def by (intro sim_intros)

end

section \<open>The operations on the list of values\<close>

lemma u32_less_of_nat:
  "a < 2 ^ 32 \<Longrightarrow> b < 2 ^ 32 \<Longrightarrow> (of_nat a :: u32) < of_nat b \<longleftrightarrow> a < b"
  by (simp add: word_less_nat_alt)

lemma u32_of_nat_less_ne: "n < unat c \<Longrightarrow> (of_nat n :: u32) \<noteq> c"
  by (metis less_irrefl order_less_trans unat_of_nat_u32 unat_u32_less)

text \<open>
  The store holds a heap.  The capacity bound keeps \<open>2 * index + 2\<close> below \<open>2 ^ 32\<close>; the
  network account uses capacities of 16 bits.
\<close>

definition ih_ok :: "'v vops \<Rightarrow> ('v \<Rightarrow> 'p::linorder) \<Rightarrow> index_map \<Rightarrow> 'v list \<Rightarrow> bytes bytemap \<Rightarrow> bool" where
  "ih_ok P prio m xs \<sigma> \<longleftrightarrow> im_ok P m xs \<sigma> \<and> heap prio xs \<and> unat (capacity m) < 2 ^ 31"

lemma ih_okD:
  assumes "ih_ok P prio m xs \<sigma>"
  shows "im_ok P m xs \<sigma>" "im_rep P (domain m) xs \<sigma>" "heap prio xs" "unat (capacity m) < 2 ^ 31"
    "length xs \<le> unat (capacity m)" "length xs < 2 ^ 31"
  using assms by (auto simp: ih_ok_def im_ok_def)

lemma im_ok_step:
  "im_rep P (domain m) ys \<sigma>' \<Longrightarrow> length ys \<le> unat (capacity m) \<Longrightarrow> im_ok P m ys \<sigma>'"
  by (simp add: im_ok_def)

context keyed_value
begin

lemma kv_swap:
  assumes "im_ok P m xs \<sigma>" "i < length xs" "j < length xs" "i \<noteq> j"
  shows "\<exists>\<sigma>'. ih_swap kv_store P m (of_nat i) (xs ! i) (of_nat j) (xs ! j) \<sigma> = Some ((), \<sigma>') \<and>
     im_ok P m (swap_at xs i j) \<sigma>' \<and> same_but (domain m) \<sigma> \<sigma>'"
  using im_rep_swap [OF im_okD(1) [OF assms(1)] assms(2-4)] im_okD(2) [OF assms(1)]
  by (simp add: ih_swap_def im_ok_def)

text \<open>The comparison with one child: the lesser of the element so far and the child, if there is one.\<close>

lemma kv_lesser_child:
  assumes R: "im_ok P m xs \<sigma>" and k: "k < length xs" and c: "c < 2 ^ 32" "length xs < 2 ^ 32"
  shows "(if (of_nat c :: u32) < of_nat (length xs) then do {
        (value, s) \<leftarrow> im_get_unwrap kv_store P m (of_nat k) \<sigma>;
        (child_v, s) \<leftarrow> im_get_unwrap kv_store P m (of_nat c) s;
        Some (if v_lt P child_v value then of_nat c else of_nat k, s)
      } else Some (of_nat k, \<sigma>)) =
    Some (of_nat (if c < length xs \<and> prio (xs ! c) < prio (xs ! k) then c else k), \<sigma>)"
  using kv_get_unwrap [OF R k] kv_get_unwrap [OF R, of c] u32_less_of_nat [OF c]
  by (auto simp: v_lt_prio)

lemma kv_down_step:
  assumes R: "im_ok P m xs \<sigma>" and i: "i < length xs" and c: "unat (capacity m) < 2 ^ 31"
  defines "h \<equiv> head_of prio i xs"
  shows "if h = i then ih_down_step kv_store P m (of_nat i) (of_nat (length xs)) \<sigma> = Some (None, \<sigma>)
     else \<exists>\<sigma>'. ih_down_step kv_store P m (of_nat i) (of_nat (length xs)) \<sigma> =
            Some (Some (of_nat h), \<sigma>') \<and>
          im_ok P m (swap_at xs i h) \<sigma>' \<and> same_but (domain m) \<sigma> \<sigma>'"
proof -
  have len: "length xs < 2 ^ 31" using im_okD(2) [OF R] c by simp
  have arith: "u32_mul 2 (of_nat i) = Some (of_nat (2 * i))"
    "u32_add (of_nat (2 * i)) 1 = Some (of_nat (2 * i + 1))"
    "u32_add (of_nat (2 * i)) 2 = Some (of_nat (2 * i + 2))"
    using u32_mul_of_nat [of 2 i] u32_add_of_nat [of "2 * i" 1] u32_add_of_nat [of "2 * i" 2] i len
    by simp_all
  have len32: "length xs < 2 ^ 32" and child: "2 * i + 1 < 2 ^ 32" "2 * i + 2 < 2 ^ 32"
    using i len by simp_all
  define h1 where "h1 = (if 2 * i + 1 < length xs \<and> prio (xs ! (2 * i + 1)) < prio (xs ! i)
      then 2 * i + 1 else i)"
  have h1: "h1 < length xs" using i by (simp add: h1_def)
  have h: "h = (if 2 * i + 2 < length xs \<and> prio (xs ! (2 * i + 2)) < prio (xs ! h1)
      then 2 * i + 2 else h1)"
    by (simp add: h_def head_of_def Let_def h1_def)
  have hl: "h < length xs" using h1 by (simp add: h)
  note get = kv_get_unwrap [OF R]
  note first = kv_lesser_child [OF R i, of "2 * i + 1", folded h1_def]
  note second = kv_lesser_child [OF R h1, of "2 * i + 2", folded h]
  have ne: "(of_nat h :: u32) \<noteq> of_nat i \<longleftrightarrow> h \<noteq> i"
    using of_nat_u32_inj [of h i] hl i len by simp
  have step: "ih_down_step kv_store P m (of_nat i) (of_nat (length xs)) \<sigma> =
      (if h \<noteq> i then do {
         (_, s) \<leftarrow> ih_swap kv_store P m (of_nat i) (xs ! i) (of_nat h) (xs ! h) \<sigma>;
         Some (Some (of_nat h), s)
       } else Some (None, \<sigma>))"
    unfolding ih_down_step_def arith bind.bind_lunit first [OF child(1) len32] second [OF child(2) len32] prod.case ne
    using get [OF i] get [OF hl] by simp
  show ?thesis
    using kv_swap [OF R i hl] unfolding step by auto
qed

lemma kv_down_heapify:
  "im_ok P m xs \<sigma> \<Longrightarrow> i < length xs \<Longrightarrow> unat (capacity m) < 2 ^ 31 \<Longrightarrow>
   \<exists>\<sigma>'. ih_down_heapify kv_store P m (of_nat i) (of_nat (length xs)) \<sigma> = Some ((), \<sigma>') \<and>
     im_ok P m (sift_down prio i xs) \<sigma>' \<and> same_but (domain m) \<sigma> \<sigma>'"
proof (induction p \<equiv> prio i xs arbitrary: \<sigma> rule: sift_down.induct)
  case (1 i xs)
  note step = kv_down_step [OF 1(2-4)]
  show ?case
  proof (cases "head_of prio i xs = i")
    case True
    then show ?thesis
      using step 1(2) by (intro exI [of _ \<sigma>])
        (simp add: ih_down_heapify.simps [of kv_store P m "of_nat i" _ \<sigma>] sift_down.simps [of prio i xs])
  next
    case False
    let ?h = "head_of prio i xs"
    obtain \<sigma>1 where s: "ih_down_step kv_store P m (of_nat i) (of_nat (length xs)) \<sigma> =
        Some (Some (of_nat ?h), \<sigma>1)" "im_ok P m (swap_at xs i ?h) \<sigma>1" "same_but (domain m) \<sigma> \<sigma>1"
      using step False by auto
    have "?h < length (swap_at xs i ?h)" using head_of_cases [of prio i xs] 1(3) by auto
    then obtain \<sigma>' where "ih_down_heapify kv_store P m (of_nat ?h) (of_nat (length xs)) \<sigma>1 = Some ((), \<sigma>')"
      "im_ok P m (sift_down prio ?h (swap_at xs i ?h)) \<sigma>'" "same_but (domain m) \<sigma>1 \<sigma>'"
      using 1(1) [OF refl False s(2) _ 1(4)] by auto
    then show ?thesis
      using False s by (intro exI [of _ \<sigma>'])
        (simp add: ih_down_heapify.simps [of kv_store P m "of_nat i" _ \<sigma>] sift_down.simps [of prio i xs]
          Let_def same_but_trans [OF s(3)])
  qed
qed

lemma kv_up_step:
  assumes R: "im_ok P m xs \<sigma>" and i: "i < length xs"
  shows "if 0 < i \<and> prio (xs ! i) < prio (xs ! parent i)
     then \<exists>\<sigma>'. ih_up_step kv_store P m (of_nat i) \<sigma> = Some (Some (of_nat (parent i)), \<sigma>') \<and>
          im_ok P m (swap_at xs i (parent i)) \<sigma>' \<and> same_but (domain m) \<sigma> \<sigma>'
     else ih_up_step kv_store P m (of_nat i) \<sigma> = Some (None, \<sigma>)"
proof (cases "i = 0")
  case True
  then show ?thesis by (simp add: ih_up_step_def)
next
  case False
  have len: "i < 2 ^ 32" using i im_rep_size [OF im_okD(1) [OF R]] by simp
  have q: "parent i < length xs" "parent i \<noteq> i" using parent_less [of i] False i by auto
  have "u32_sub (of_nat i) 1 = Some (of_nat (i - 1))"
    using u32_sub_of_nat [of 1 i] False len by simp
  moreover have "(of_nat (i - 1) :: u32) div 2 = of_nat (parent i)"
    using len by (simp add: word_unat_eq_iff unat_div parent_def)
  moreover have "(of_nat i :: u32) \<noteq> 0"
    using False of_nat_u32_inj [OF len, of 0] by simp
  ultimately have "ih_up_step kv_store P m (of_nat i) \<sigma> =
      (if prio (xs ! i) < prio (xs ! parent i) then do {
         (_, s) \<leftarrow> ih_swap kv_store P m (of_nat i) (xs ! i) (of_nat (parent i)) (xs ! parent i) \<sigma>;
         Some (Some (of_nat (parent i)), s)
       } else Some (None, \<sigma>))"
    using kv_get_unwrap [OF R i] kv_get_unwrap [OF R q(1)]
    by (simp add: ih_up_step_def v_lt_prio Let_def)
  then show ?thesis
    using kv_swap [OF R i q(1)] q(2) False by auto
qed

lemma kv_up_heapify:
  "im_ok P m xs \<sigma> \<Longrightarrow> i < length xs \<Longrightarrow>
   \<exists>\<sigma>'. ih_up_heapify kv_store P m (of_nat i) \<sigma> = Some ((), \<sigma>') \<and>
     im_ok P m (sift_up prio i xs) \<sigma>' \<and> same_but (domain m) \<sigma> \<sigma>'"
proof (induction p \<equiv> prio i xs arbitrary: \<sigma> rule: sift_up.induct)
  case (1 i xs)
  note step = kv_up_step [OF 1(2,3)]
  show ?case
  proof (cases "0 < i \<and> prio (xs ! i) < prio (xs ! parent i)")
    case False
    then have "ih_up_step kv_store P m (of_nat i) \<sigma> = Some (None, \<sigma>)" using step by simp
    then show ?thesis
      using 1(2) False by (intro exI [of _ \<sigma>])
        (auto simp: ih_up_heapify.simps [of kv_store P m "of_nat i" \<sigma>] sift_up.simps [of prio i xs])
  next
    case True
    let ?q = "parent i"
    obtain \<sigma>1 where s: "ih_up_step kv_store P m (of_nat i) \<sigma> = Some (Some (of_nat ?q), \<sigma>1)"
      "im_ok P m (swap_at xs i ?q) \<sigma>1" "same_but (domain m) \<sigma> \<sigma>1"
      using step True by auto
    have "?q < length (swap_at xs i ?q)" using parent_less [of i] True 1(3) by auto
    then obtain \<sigma>' where "ih_up_heapify kv_store P m (of_nat ?q) \<sigma>1 = Some ((), \<sigma>')"
      "im_ok P m (sift_up prio ?q (swap_at xs i ?q)) \<sigma>'" "same_but (domain m) \<sigma>1 \<sigma>'"
      using 1(1) [OF _ _ s(2)] True by auto
    then show ?thesis
      using True s by (intro exI [of _ \<sigma>'])
        (auto simp: ih_up_heapify.simps [of kv_store P m "of_nat i" \<sigma>] sift_up.simps [of prio i xs]
          intro: same_but_trans [OF s(3)])
  qed
qed

end

context keyed_value
begin

lemma kv_replace:
  assumes R: "im_ok P m (ys @ [v]) \<sigma>" and j: "j < length ys"
  shows "\<exists>\<sigma>'. ih_replace kv_store P m (of_nat j) (ys ! j) (of_nat (length ys)) v \<sigma> = Some ((), \<sigma>') \<and>
     im_ok P m (ys[j := v]) (\<sigma>'(key_len (domain m) \<mapsto> u32_to_le (of_nat (length ys)))) \<and>
     same_but (domain m) \<sigma> \<sigma>'"
  using im_rep_replace [OF im_okD(1) [OF R] j] im_okD(2) [OF R]
  by (simp add: ih_replace_def im_ok_def)

lemma kv_extract_empty: "im_ok P m [] \<sigma> \<Longrightarrow> ih_extract kv_store P m \<sigma> = Some (None, \<sigma>)"
  using kv_length [OF im_okD(1), of P m "[]" \<sigma>] by (simp add: ih_extract_def)

lemma kv_extract_single:
  assumes R: "ih_ok P prio m [x] \<sigma>"
  shows "\<exists>\<sigma>'. ih_extract kv_store P m \<sigma> = Some (Some x, \<sigma>') \<and> ih_ok P prio m [] \<sigma>' \<and>
     same_but (domain m) \<sigma> \<sigma>'"
proof -
  note D = ih_okD [OF R]
  let ?\<sigma> = "\<sigma>(key_len (domain m) \<mapsto> u32_to_le 0, key_ki (domain m) (vkey P x) := None,
    key_iv (domain m) 0 := None)"
  have "im_get_unwrap kv_store P m 0 \<sigma> = Some (x, \<sigma>)"
    using kv_get_unwrap [OF D(1), of 0] by simp
  then have "ih_extract kv_store P m \<sigma> = Some (Some x, ?\<sigma>)"
    using kv_length [OF D(2)] by (simp add: ih_extract_def)
  moreover have "im_rep P (domain m) [] ?\<sigma>"
    by (rule im_rep_same [OF im_rep_pop [of P "domain m" "[]" x \<sigma>]]) (use D(2) in auto)
  ultimately show ?thesis
    using D(4) by (simp add: ih_ok_def im_ok_def)
qed

lemma kv_extract_more:
  assumes R: "ih_ok P prio m (ys @ [v]) \<sigma>" and ys: "ys \<noteq> []"
  shows "\<exists>\<sigma>'. ih_extract kv_store P m \<sigma> = Some (Some (ys ! 0), \<sigma>') \<and>
     ih_ok P prio m (sift_down prio 0 (ys[0 := v])) \<sigma>' \<and> same_but (domain m) \<sigma> \<sigma>'"
proof -
  note D = ih_okD [OF R]
  have j: "0 < length ys" using ys by simp
  have get: "im_get_unwrap kv_store P m 0 \<sigma> = Some (ys ! 0, \<sigma>)"
    "im_get_unwrap kv_store P m (of_nat (length ys)) \<sigma> = Some (v, \<sigma>)"
    using kv_get_unwrap [OF D(1), of 0] kv_get_unwrap [OF D(1), of "length ys"] j
    by (simp_all add: nth_append)
  have arith: "u32_sub (of_nat (length ys + 1)) 1 = Some (of_nat (length ys))"
    "(of_nat (length ys + 1) :: u32) \<noteq> 0" "(of_nat (length ys + 1) :: u32) \<noteq> 1"
    using u32_sub_of_nat [of 1 "length ys + 1"] of_nat_u32_inj [of "length ys + 1" 0]
      of_nat_u32_inj [of "length ys + 1" 1] D(6) j
    by simp_all
  obtain \<sigma>1 where 1: "ih_replace kv_store P m 0 (ys ! 0) (of_nat (length ys)) v \<sigma> = Some ((), \<sigma>1)"
    "im_ok P m (ys[0 := v]) (\<sigma>1(key_len (domain m) \<mapsto> u32_to_le (of_nat (length ys))))"
    "same_but (domain m) \<sigma> \<sigma>1"
    using kv_replace [OF D(1) j] by auto
  let ?\<sigma> = "\<sigma>1(key_len (domain m) \<mapsto> u32_to_le (of_nat (length ys)))"
  obtain \<sigma>2 where 2: "ih_down_heapify kv_store P m 0 (of_nat (length ys)) ?\<sigma> = Some ((), \<sigma>2)"
    "im_ok P m (sift_down prio 0 (ys[0 := v])) \<sigma>2" "same_but (domain m) ?\<sigma> \<sigma>2"
    using kv_down_heapify [OF 1(2), of 0] j D(4) by auto
  have "ih_extract kv_store P m \<sigma> = Some (Some (ys ! 0), \<sigma>2)"
    using kv_length [OF D(2)] arith get 1(1) 2(1)
    by (simp add: ih_extract_def del: of_nat_add of_nat_Suc)
  moreover have "heap prio (sift_down prio 0 (ys[0 := v]))"
  proof (rule sift_down_heap)
    have "prio (ys ! 0) \<le> prio v"
      using heap_min [OF D(3), of "length ys"] j by (simp add: nth_append)
    then show "heap_but_below prio 0 (ys[0 := v])"
      using heap_update_down [OF heap_butlast [OF D(3)] j] by simp
  qed (use j in simp)
  moreover have "same_but (domain m) \<sigma> \<sigma>2"
    using same_but_trans [OF 1(3)] 2(3) by simp
  ultimately show ?thesis
    using 2(2) D(4) by (auto simp: ih_ok_def)
qed

lemma kv_extract:
  assumes R: "ih_ok P prio m xs \<sigma>" and xs: "xs \<noteq> []"
  shows "\<exists>\<sigma>' zs. ih_extract kv_store P m \<sigma> = Some (Some (xs ! 0), \<sigma>') \<and> ih_ok P prio m zs \<sigma>' \<and>
     mset zs = mset xs - {#xs ! 0#} \<and> same_but (domain m) \<sigma> \<sigma>'"
proof -
  obtain ys v where y: "xs = ys @ [v]" using xs by (metis rev_exhaust)
  show ?thesis
  proof (cases "ys = []")
    case True
    obtain \<sigma>' where "ih_extract kv_store P m \<sigma> = Some (Some v, \<sigma>')" "ih_ok P prio m [] \<sigma>'"
      "same_but (domain m) \<sigma> \<sigma>'"
      using kv_extract_single [of m v \<sigma>] R by (auto simp: y True)
    then show ?thesis by (intro exI [of _ \<sigma>'] exI [of _ "[]"]) (simp add: y True)
  next
    case False
    have "mset (sift_down prio 0 (ys[0 := v])) = mset xs - {#xs ! 0#}"
      using False by (simp add: y sift_down_mset mset_update nth_append)
    moreover have "xs ! 0 = ys ! 0" using False by (simp add: y nth_append)
    ultimately show ?thesis
      using kv_extract_more [OF R [unfolded y] False] by metis
  qed
qed

lemma kv_insert:
  assumes R: "ih_ok P prio m xs \<sigma>" and v: "vkey P v \<notin> vkey P ` set xs"
    and n: "length xs < unat (capacity m)"
  shows "\<exists>\<sigma>' zs. ih_insert kv_store P m v \<sigma> = Some (Inr (), \<sigma>') \<and> ih_ok P prio m zs \<sigma>' \<and>
     mset zs = add_mset v (mset xs) \<and> same_but (domain m) \<sigma> \<sigma>'"
proof -
  note D = ih_okD [OF R]
  let ?\<sigma> = "\<sigma>(key_ki (domain m) (vkey P v) \<mapsto> u32_to_le (of_nat (length xs)),
     key_iv (domain m) (of_nat (length xs)) \<mapsto> vinto P v,
     key_len (domain m) \<mapsto> u32_to_le (of_nat (length xs + 1)))"
  have "im_ok P m (xs @ [v]) ?\<sigma>"
    using im_rep_push [OF D(2) v] D(6) n by (simp add: im_ok_def)
  then obtain \<sigma>' where 1: "ih_up_heapify kv_store P m (of_nat (length xs)) ?\<sigma> = Some ((), \<sigma>')"
    "im_ok P m (sift_up prio (length xs) (xs @ [v])) \<sigma>'" "same_but (domain m) ?\<sigma> \<sigma>'"
    using kv_up_heapify [of m "xs @ [v]" ?\<sigma> "length xs"] by auto
  have "capacity m \<noteq> of_nat (length xs)" using n D(6) by auto
  moreover have "u32_add (of_nat (length xs)) 1 = Some (of_nat (length xs + 1))"
    using u32_add_of_nat [of "length xs" 1] D(6) by simp
  ultimately have "ih_insert kv_store P m v \<sigma> = Some (Inr (), \<sigma>')"
    using kv_length [OF D(2)] 1(1) by (simp add: ih_insert_def del: of_nat_add of_nat_Suc)
  moreover have "heap prio (sift_up prio (length xs) (xs @ [v]))"
    using sift_up_heap [OF heap_snoc [OF D(3)]] by simp
  moreover have "same_but (domain m) \<sigma> \<sigma>'" using 1(3) by simp
  moreover have "mset (sift_up prio (length xs) (xs @ [v])) = add_mset v (mset xs)"
    by (simp add: sift_up_mset)
  ultimately show ?thesis
    using 1(2) D(4) by (auto simp: ih_ok_def)
qed

lemma kv_insert_full:
  assumes "im_ok P m xs \<sigma>" "length xs = unat (capacity m)"
  shows "ih_insert kv_store P m v \<sigma> = Some (Inl IndexHeapOperationError, \<sigma>)"
  using assms(2) by (simp add: ih_insert_def kv_length [OF im_okD(1) [OF assms(1)]])

end

context keyed_value
begin

lemma kv_insert_unwrap:
  assumes "ih_ok P prio m xs \<sigma>" "vkey P v \<notin> vkey P ` set xs" "length xs < unat (capacity m)"
  shows "\<exists>\<sigma>' zs. ih_insert_unwrap kv_store P m v \<sigma> = Some ((), \<sigma>') \<and> ih_ok P prio m zs \<sigma>' \<and>
     mset zs = add_mset v (mset xs) \<and> same_but (domain m) \<sigma> \<sigma>'"
  using kv_insert [OF assms] by (auto simp: ih_insert_unwrap_def)

lemma kv_insert_extract_room:
  assumes R: "ih_ok P prio m xs \<sigma>" and v: "vkey P v \<notin> vkey P ` set xs"
    and n: "length xs < unat (capacity m)"
  shows "\<exists>\<sigma>' zs. ih_insert_extract kv_store P m v \<sigma> = Some (Inr None, \<sigma>') \<and> ih_ok P prio m zs \<sigma>' \<and>
     mset zs = add_mset v (mset xs) \<and> same_but (domain m) \<sigma> \<sigma>'"
proof -
  note D = ih_okD [OF R]
  obtain \<sigma>' zs where 1: "ih_insert_unwrap kv_store P m v \<sigma> = Some ((), \<sigma>')" "ih_ok P prio m zs \<sigma>'"
    "mset zs = add_mset v (mset xs)" "same_but (domain m) \<sigma> \<sigma>'"
    using kv_insert_unwrap [OF R v n] by blast
  have "(of_nat (length xs) :: u32) \<noteq> capacity m"
    using n by (rule u32_of_nat_less_ne)
  moreover have "im_get_unwrap kv_store P m 0 \<sigma> = Some (xs ! 0, \<sigma>)" if "length xs \<noteq> 0"
    using kv_get_unwrap [OF D(1), of 0] that by simp
  ultimately have "ih_insert_extract kv_store P m v \<sigma> = Some (Inr None, \<sigma>')"
    using kv_length [OF D(2)] 1(1) of_nat_u32_inj [of "length xs" 0] D(6)
    by (cases "length xs = 0") (simp_all add: ih_insert_extract_def)
  then show ?thesis using 1(2-4) by blast
qed

lemma kv_insert_extract_full:
  assumes R: "ih_ok P prio m xs \<sigma>" and n: "length xs = unat (capacity m)" "xs \<noteq> []"
  shows "if prio v < prio (xs ! 0)
     then ih_insert_extract kv_store P m v \<sigma> = Some (Inl IndexHeapOperationError, \<sigma>)
     else vkey P v \<notin> vkey P ` set_mset (mset xs - {#xs ! 0#}) \<longrightarrow>
       (\<exists>\<sigma>' zs. ih_insert_extract kv_store P m v \<sigma> = Some (Inr (Some (xs ! 0)), \<sigma>') \<and>
          ih_ok P prio m zs \<sigma>' \<and> mset zs = add_mset v (mset xs - {#xs ! 0#}) \<and>
          same_but (domain m) \<sigma> \<sigma>')"
proof -
  note D = ih_okD [OF R]
  have len: "im_length kv_store m \<sigma> = Some (capacity m, \<sigma>)"
    using kv_length [OF D(2)] n(1) by simp
  have "capacity m \<noteq> 0" using n by (metis length_0_conv unat_0)
  then have start: "ih_insert_extract kv_store P m v \<sigma> =
      (if prio v < prio (xs ! 0) then Some (Inl IndexHeapOperationError, \<sigma>)
       else do {
         (replaced, s) \<leftarrow> ih_extract kv_store P m \<sigma>;
         (_, s) \<leftarrow> ih_insert_unwrap kv_store P m v s;
         Some (Inr replaced, s)
       })"
    using kv_get_unwrap [OF D(1), of 0] n(2) by (simp add: ih_insert_extract_def len v_lt_prio)
  obtain \<sigma>1 ys where 1: "ih_extract kv_store P m \<sigma> = Some (Some (xs ! 0), \<sigma>1)"
    "ih_ok P prio m ys \<sigma>1" "mset ys = mset xs - {#xs ! 0#}" "same_but (domain m) \<sigma> \<sigma>1"
    using kv_extract [OF R n(2)] by blast
  have "length ys < unat (capacity m)"
  proof -
    have "size (mset ys) = length xs - 1" using 1(3) n(2) by (simp add: size_Diff_singleton)
    then show ?thesis using n by (cases xs) simp_all
  qed
  moreover have "set ys = set_mset (mset xs - {#xs ! 0#})"
    using 1(3) by (metis set_mset_mset)
  ultimately have "\<exists>\<sigma>' zs. ih_insert_unwrap kv_store P m v \<sigma>1 = Some ((), \<sigma>') \<and> ih_ok P prio m zs \<sigma>' \<and>
      mset zs = add_mset v (mset xs - {#xs ! 0#}) \<and> same_but (domain m) \<sigma> \<sigma>'"
    if "vkey P v \<notin> vkey P ` set_mset (mset xs - {#xs ! 0#})"
    using kv_insert_unwrap [OF 1(2), of v] 1(3) same_but_trans [OF 1(4)] that by metis
  then show ?thesis
    unfolding start by (auto simp: 1(1)) blast
qed

text \<open>
  One element of a heap replaced by one of another priority: sifting it restores the heap.
\<close>

lemma kv_settle:
  assumes h: "heap prio xs" and j: "j < length xs" and R: "im_ok P m (xs[j := v]) \<sigma>"
    and c: "unat (capacity m) < 2 ^ 31" and ne: "prio v \<noteq> prio (xs ! j)"
  shows "\<exists>\<sigma>' zs. (if prio (xs ! j) < prio v
       then ih_down_heapify kv_store P m (of_nat j) (of_nat (length xs)) \<sigma>
       else ih_up_heapify kv_store P m (of_nat j) \<sigma>) = Some ((), \<sigma>') \<and>
     ih_ok P prio m zs \<sigma>' \<and> mset zs = mset (xs[j := v]) \<and> same_but (domain m) \<sigma> \<sigma>'"
proof (cases "prio (xs ! j) < prio v")
  case True
  obtain \<sigma>' where "ih_down_heapify kv_store P m (of_nat j) (of_nat (length xs)) \<sigma> = Some ((), \<sigma>')"
    "im_ok P m (sift_down prio j (xs[j := v])) \<sigma>'" "same_but (domain m) \<sigma> \<sigma>'"
    using kv_down_heapify [OF R, of j] j c by auto
  moreover have "heap prio (sift_down prio j (xs[j := v]))"
    using sift_down_heap [OF heap_update_down [OF h j]] True j by simp
  ultimately show ?thesis
    using True j c
    by (intro exI [of _ \<sigma>'] exI [of _ "sift_down prio j (xs[j := v])"])
       (simp add: ih_ok_def sift_down_mset)
next
  case False
  obtain \<sigma>' where "ih_up_heapify kv_store P m (of_nat j) \<sigma> = Some ((), \<sigma>')"
    "im_ok P m (sift_up prio j (xs[j := v])) \<sigma>'" "same_but (domain m) \<sigma> \<sigma>'"
    using kv_up_heapify [OF R, of j] j by auto
  moreover have "heap prio (sift_up prio j (xs[j := v]))"
    using sift_up_heap [OF heap_update_up [OF h j]] False ne j by simp
  ultimately show ?thesis
    using False j c
    by (intro exI [of _ \<sigma>'] exI [of _ "sift_up prio j (xs[j := v])"])
       (simp add: ih_ok_def sift_up_mset)
qed

lemma kv_change_key:
  assumes R: "ih_ok P prio m xs \<sigma>" and j: "j < length xs" and k: "vkey P v = vkey P (xs ! j)"
  shows "\<exists>\<sigma>' zs. ih_change_key kv_store P m v \<sigma> = Some ((), \<sigma>') \<and> ih_ok P prio m zs \<sigma>' \<and>
     mset zs = (if prio v = prio (xs ! j) then mset xs else add_mset v (mset xs - {#xs ! j#})) \<and>
     same_but (domain m) \<sigma> \<sigma>'"
proof -
  note D = ih_okD [OF R]
  let ?\<sigma> = "\<sigma>(key_ki (domain m) (vkey P v) \<mapsto> u32_to_le (of_nat j),
     key_iv (domain m) (of_nat j) \<mapsto> vinto P v)"
  have ok: "im_ok P m (xs[j := v]) ?\<sigma>"
    using im_rep_update [OF D(2) j k] D(5) by (simp add: im_ok_def)
  have start: "ih_change_key kv_store P m v \<sigma> =
      (if prio (xs ! j) < prio v then ih_down_heapify kv_store P m (of_nat j) (of_nat (length xs)) ?\<sigma>
       else if prio v < prio (xs ! j) then ih_up_heapify kv_store P m (of_nat j) ?\<sigma>
       else Some ((), \<sigma>))"
    using kv_length [OF D(2)] kv_index_of_key [OF D(2) j] kv_get_unwrap [OF D(1) j]
      u32_less_of_nat [of j "length xs"] j D(6)
    by (simp add: ih_change_key_def k cmp_prio [OF k [symmetric]])
  have ms: "mset (xs[j := v]) = add_mset v (mset xs - {#xs ! j#})"
    using j by (simp add: mset_update)
  show ?thesis
  proof (cases "prio v = prio (xs ! j)")
    case True
    then show ?thesis
      using R start by (intro exI [of _ \<sigma>] exI [of _ xs]) simp
  next
    case False
    obtain \<sigma>' zs where z: "(if prio (xs ! j) < prio v
         then ih_down_heapify kv_store P m (of_nat j) (of_nat (length xs)) ?\<sigma>
         else ih_up_heapify kv_store P m (of_nat j) ?\<sigma>) = Some ((), \<sigma>')"
      "ih_ok P prio m zs \<sigma>'" "mset zs = mset (xs[j := v])" "same_but (domain m) ?\<sigma> \<sigma>'"
      using kv_settle [OF D(3) j ok D(4) False] by blast
    then have "ih_change_key kv_store P m v \<sigma> = Some ((), \<sigma>')"
      using False by (auto simp: start split: if_splits)
    then show ?thesis
      using z False ms by (intro exI [of _ \<sigma>'] exI [of _ zs]) simp
  qed
qed

lemma kv_change_key_none:
  assumes R: "im_ok P m xs \<sigma>" and k: "vkey P v \<notin> vkey P ` set xs"
  shows "ih_change_key kv_store P m v \<sigma> = Some ((), \<sigma>)"
  using kv_length [OF im_okD(1) [OF R]] kv_index_of_key_none [OF im_okD(1) [OF R] k]
  by (simp add: ih_change_key_def)

lemma kv_collect:
  assumes R: "im_ok P m xs \<sigma>"
  shows "n \<le> length xs \<Longrightarrow>
     ih_collect kv_store P m (map of_nat [n..<length xs]) \<sigma> = Some (drop n xs, \<sigma>)"
proof (induction rule: inc_induct)
  case base
  then show ?case by simp
next
  case (step n)
  then show ?case
    using kv_get_unwrap [OF R, of n] by (simp add: upt_conv_Cons Cons_nth_drop_Suc del: upt_Suc)
qed

lemma kv_unordered_values:
  assumes R: "im_ok P m xs \<sigma>"
  shows "ih_unordered_values kv_store P m \<sigma> = Some (xs, \<sigma>)"
  using kv_collect [OF R, of 0] kv_length [OF im_okD(1) [OF R]] im_rep_size [OF im_okD(1) [OF R]]
  by (simp add: ih_unordered_values_def indices_def)

lemma kv_remove_none:
  assumes R: "im_ok P m xs \<sigma>" and k: "k \<notin> vkey P ` set xs"
  shows "ih_remove_item kv_store P m k \<sigma> = Some ((), \<sigma>)"
  using kv_length [OF im_okD(1) [OF R]] kv_index_of_key_none [OF im_okD(1) [OF R] k]
  by (simp add: ih_remove_item_def)

text \<open>Removing the last value, and removing one in between.\<close>

lemma kv_remove_last:
  assumes R: "ih_ok P prio m (ys @ [v]) \<sigma>" and ys: "ys \<noteq> []"
  shows "\<exists>\<sigma>'. ih_remove_item kv_store P m (vkey P v) \<sigma> = Some ((), \<sigma>') \<and> ih_ok P prio m ys \<sigma>' \<and>
     same_but (domain m) \<sigma> \<sigma>'"
proof -
  note D = ih_okD [OF R]
  have ki: "im_index_of_key kv_store m (vkey P v) \<sigma> = Some (Some (of_nat (length ys)), \<sigma>)"
    using kv_index_of_key [OF D(2), of "length ys"] by (simp add: nth_append)
  have arith: "u32_sub (of_nat (length ys + 1)) 1 = Some (of_nat (length ys))"
    "(of_nat (length ys) :: u32) \<noteq> 0" "(of_nat (length ys) :: u32) < of_nat (length ys + 1)"
    using u32_sub_of_nat [of 1 "length ys + 1"] of_nat_u32_inj [of "length ys" 0]
      u32_less_of_nat [of "length ys" "length ys + 1"] D(6) ys
    by (simp_all del: of_nat_add of_nat_Suc) simp
  let ?\<sigma> = "\<sigma>(key_ki (domain m) (vkey P v) := None, key_iv (domain m) (of_nat (length ys)) := None,
     key_len (domain m) \<mapsto> u32_to_le (of_nat (length ys)))"
  have "ih_remove_item kv_store P m (vkey P v) \<sigma> = Some ((), ?\<sigma>)"
    using kv_length [OF D(2)] ki arith by (simp add: ih_remove_item_def del: of_nat_add of_nat_Suc)
  then show ?thesis
    using im_rep_pop [OF D(2)] D(4,5) heap_butlast [OF D(3)]
    by (intro exI [of _ ?\<sigma>]) (simp add: ih_ok_def im_ok_def)
qed

lemma kv_remove_middle:
  assumes R: "ih_ok P prio m (ys @ [v]) \<sigma>" and j: "0 < j" "j < length ys"
  shows "\<exists>\<sigma>' zs. ih_remove_item kv_store P m (vkey P (ys ! j)) \<sigma> = Some ((), \<sigma>') \<and>
     ih_ok P prio m zs \<sigma>' \<and> mset zs = mset (ys[j := v]) \<and> same_but (domain m) \<sigma> \<sigma>'"
proof -
  note D = ih_okD [OF R]
  have ki: "im_index_of_key kv_store m (vkey P (ys ! j)) \<sigma> = Some (Some (of_nat j), \<sigma>)"
    using kv_index_of_key [OF D(2), of j] j by (simp add: nth_append)
  have get: "im_get_unwrap kv_store P m (of_nat j) \<sigma> = Some (ys ! j, \<sigma>)"
    "im_get_unwrap kv_store P m (of_nat (length ys)) \<sigma> = Some (v, \<sigma>)"
    using kv_get_unwrap [OF D(1), of j] kv_get_unwrap [OF D(1), of "length ys"] j
    by (simp_all add: nth_append)
  have arith: "u32_sub (of_nat (length ys + 1)) 1 = Some (of_nat (length ys))"
    "(of_nat j :: u32) \<noteq> 0" "(of_nat j :: u32) < of_nat (length ys + 1)"
    "(of_nat j :: u32) \<noteq> of_nat (length ys)"
    using u32_sub_of_nat [of 1 "length ys + 1"] of_nat_u32_inj [of j 0]
      of_nat_u32_inj [of j "length ys"] u32_less_of_nat [of j "length ys + 1"] D(6) j
    by (simp_all del: of_nat_add of_nat_Suc) simp
  obtain \<sigma>1 where 1: "ih_replace kv_store P m (of_nat j) (ys ! j) (of_nat (length ys)) v \<sigma> = Some ((), \<sigma>1)"
    "im_ok P m (ys[j := v]) (\<sigma>1(key_len (domain m) \<mapsto> u32_to_le (of_nat (length ys))))"
    "same_but (domain m) \<sigma> \<sigma>1"
    using kv_replace [OF D(1) j(2)] by auto
  let ?\<sigma> = "\<sigma>1(key_len (domain m) \<mapsto> u32_to_le (of_nat (length ys)))"
  have start: "ih_remove_item kv_store P m (vkey P (ys ! j)) \<sigma> =
      (if prio (ys ! j) < prio v then ih_down_heapify kv_store P m (of_nat j) (of_nat (length ys)) ?\<sigma>
       else if prio v < prio (ys ! j) then ih_up_heapify kv_store P m (of_nat j) ?\<sigma>
       else Some ((), ?\<sigma>))"
    using kv_length [OF D(2)] ki arith get 1(1)
    by (simp add: ih_remove_item_def v_lt_prio v_gt_prio del: of_nat_add of_nat_Suc)
  have same: "same_but (domain m) \<sigma> \<sigma>'" if "same_but (domain m) ?\<sigma> \<sigma>'" for \<sigma>'
    using same_but_trans [OF 1(3)] that by simp
  note h = heap_butlast [OF D(3)]
  show ?thesis
  proof (cases "prio v = prio (ys ! j)")
    case True
    have "map prio (ys[j := v]) = map prio ys"
      using True j(2) by (metis list_update_id map_update nth_map)
    then have "heap prio (ys[j := v])" using h heap_cong by metis
    then show ?thesis
      using True 1(2) D(4) same [OF same_but_refl]
      by (intro exI [of _ ?\<sigma>] exI [of _ "ys[j := v]"]) (simp add: start ih_ok_def)
  next
    case False
    obtain \<sigma>' zs where z: "(if prio (ys ! j) < prio v
         then ih_down_heapify kv_store P m (of_nat j) (of_nat (length ys)) ?\<sigma>
         else ih_up_heapify kv_store P m (of_nat j) ?\<sigma>) = Some ((), \<sigma>')"
      "ih_ok P prio m zs \<sigma>'" "mset zs = mset (ys[j := v])" "same_but (domain m) ?\<sigma> \<sigma>'"
      using kv_settle [OF h j(2) 1(2) D(4) False] by blast
    then have "ih_remove_item kv_store P m (vkey P (ys ! j)) \<sigma> = Some ((), \<sigma>')"
      using False by (auto simp: start split: if_splits)
    then show ?thesis using z(2,3) same [OF z(4)] by blast
  qed
qed

lemma kv_remove_first:
  assumes R: "ih_ok P prio m xs \<sigma>" and xs: "xs \<noteq> []"
  shows "\<exists>\<sigma>' zs. ih_remove_item kv_store P m (vkey P (xs ! 0)) \<sigma> = Some ((), \<sigma>') \<and>
     ih_ok P prio m zs \<sigma>' \<and> mset zs = mset xs - {#xs ! 0#} \<and> same_but (domain m) \<sigma> \<sigma>'"
proof -
  note D = ih_okD [OF R]
  have "im_index_of_key kv_store m (vkey P (xs ! 0)) \<sigma> = Some (Some 0, \<sigma>)"
    using kv_index_of_key [OF D(2), of 0] xs by simp
  moreover have "(0 :: u32) < of_nat (length xs)"
    using u32_less_of_nat [of 0 "length xs"] D(6) xs by simp
  ultimately have "ih_remove_item kv_store P m (vkey P (xs ! 0)) \<sigma> =
      do { (_, s) \<leftarrow> ih_extract kv_store P m \<sigma>; Some ((), s) }"
    using kv_length [OF D(2)] by (simp add: ih_remove_item_def)
  then show ?thesis
    using kv_extract [OF R xs] by auto
qed

lemma kv_remove_item:
  assumes R: "ih_ok P prio m xs \<sigma>" and j: "j < length xs"
  shows "\<exists>\<sigma>' zs. ih_remove_item kv_store P m (vkey P (xs ! j)) \<sigma> = Some ((), \<sigma>') \<and>
     ih_ok P prio m zs \<sigma>' \<and> mset zs = mset xs - {#xs ! j#} \<and> same_but (domain m) \<sigma> \<sigma>'"
proof -
  obtain ys v where y: "xs = ys @ [v]" using j by (metis length_0_conv not_less0 rev_exhaust)
  consider "j = 0" | "0 < j" "j = length ys" | "0 < j" "j < length ys"
    using j by (fastforce simp: y)
  then show ?thesis
  proof cases
    case 1
    then show ?thesis using kv_remove_first [OF R] j by auto
  next
    case 2
    then have "ys \<noteq> []" by auto
    then obtain \<sigma>' where "ih_remove_item kv_store P m (vkey P v) \<sigma> = Some ((), \<sigma>')"
      "ih_ok P prio m ys \<sigma>'" "same_but (domain m) \<sigma> \<sigma>'"
      using kv_remove_last [OF R [unfolded y]] by blast
    then show ?thesis
      using 2 by (intro exI [of _ \<sigma>'] exI [of _ ys]) (simp add: y)
  next
    case 3
    have "mset (ys[j := v]) = mset xs - {#xs ! j#}"
      using 3 by (simp add: y mset_update nth_append)
    moreover have "xs ! j = ys ! j" using 3 by (simp add: y nth_append)
    ultimately show ?thesis
      using kv_remove_middle [OF R [unfolded y] 3] by metis
  qed
qed

end

section \<open>Properties\<close>

text \<open>What an operation leaves in the store: a heap of the values \<open>M\<close>, the rest untouched.\<close>

definition heap_after :: "('s \<Rightarrow> bytes bytemap \<Rightarrow> bool) \<Rightarrow> 'v vops \<Rightarrow> ('v \<Rightarrow> 'p::linorder) \<Rightarrow> index_map \<Rightarrow>
    bytes bytemap \<Rightarrow> 'v multiset \<Rightarrow> 's \<Rightarrow> bool" where
  "heap_after rep P prio m \<sigma> M s' \<longleftrightarrow>
     (\<exists>\<sigma>' zs. rep s' \<sigma>' \<and> ih_ok P prio m zs \<sigma>' \<and> mset zs = M \<and> same_but (domain m) \<sigma> \<sigma>')"

lemma heap_afterI:
  "rep s' \<sigma>' \<Longrightarrow> ih_ok P prio m zs \<sigma>' \<Longrightarrow> mset zs = M \<Longrightarrow> same_but (domain m) \<sigma> \<sigma>' \<Longrightarrow>
     heap_after rep P prio m \<sigma> M s'"
  by (auto simp: heap_after_def)

lemma heap_after_same: "rep s' \<sigma> \<Longrightarrow> ih_ok P prio m xs \<sigma> \<Longrightarrow> heap_after rep P prio m \<sigma> (mset xs) s'"
  by (rule heap_afterI) auto

text \<open>A sorted list is a heap, so that heaps can be stored for the witnesses.\<close>

lemma sorted_heap: "sorted (map p xs) \<Longrightarrow> heap p xs"
  unfolding heap_def
proof (intro allI impI)
  fix i assume "sorted (map p xs)" "0 < i" "i < length xs"
  then show "p (xs ! parent i) \<le> p (xs ! i)"
    using sorted_nth_mono [of "map p xs" "parent i" i] parent_less [of i] by simp
qed

lemma ih_ok_exists:
  assumes "keyed_value P prio" "distinct (map (vkey P) xs)" "length xs \<le> unat (capacity m)"
    and "sorted (map prio xs)" "unat (capacity m) < 2 ^ 31"
  shows "\<exists>\<sigma>. ih_ok P prio m xs \<sigma>"
  using im_ok_exists [OF assms(1-3)] sorted_heap [OF assms(4)] assms(5) by (auto simp: ih_ok_def)

definition two_keys :: "pool_key list" where
  "two_keys = [PoolKey (b32_fill 4) 10, PoolKey (b32_fill 5) 20]"

lemma two_keys_stored:
  assumes "cap \<in> {2, 3}"
  shows "\<exists>\<sigma>. ih_ok (pool_key_ops borsh_std) id (ih_new [2] cap) two_keys \<sigma>"
  by (rule ih_ok_exists [OF std.pool_key_values])
     (use assms in \<open>auto simp: two_keys_def ih_new_def im_new_def less_eq_pool_key_def simp del: b32_bytes_fill\<close>)

interpretation kv_pool_key: stored_values kv_store "(=)" "pool_key_ops borsh_std" id ..

interpretation kv_stake: stored_values kv_store "(=)" "stake_value_ops borsh_std"
  "\<lambda>v. stake_power (inner_stake v)" ..

text \<open>
  C26: \<open>extract\<close> on a heap takes out the first value, which is a least one, leaves a heap of the
  others and nothing of the extracted one in the store; on an empty heap it returns nothing.
\<close>

theorem heap_extract:
  assumes V: "stored_values N rep P prio" and s: "rep s \<sigma>" and xs: "ih_ok P prio m xs \<sigma>"
  shows "if xs = [] then \<exists>s'. ih_extract N P m s = Some (None, s') \<and> rep s' \<sigma>
    else (\<forall>x \<in> set xs. prio (xs ! 0) \<le> prio x) \<and>
      (\<exists>s'. ih_extract N P m s = Some (Some (xs ! 0), s') \<and>
         heap_after rep P prio m \<sigma> (mset xs - {#xs ! 0#}) s')"
proof (cases "xs = []")
  case True
  then show ?thesis
    using simD [OF stored_values.sim_ih_extract [OF V] s keyed_value.kv_extract_empty
        [OF stored_valuesD(2) [OF V]]] ih_okD(1) [OF xs] by simp
next
  case False
  obtain \<sigma>' zs where z: "ih_extract kv_store P m \<sigma> = Some (Some (xs ! 0), \<sigma>')" "ih_ok P prio m zs \<sigma>'"
    "mset zs = mset xs - {#xs ! 0#}" "same_but (domain m) \<sigma> \<sigma>'"
    using keyed_value.kv_extract [OF stored_valuesD(2) [OF V] xs False] by blast
  then show ?thesis
    using simD [OF stored_values.sim_ih_extract [OF V] s z(1)] heap_min_set [OF ih_okD(3) [OF xs]] False
    by (auto intro: heap_afterI)
qed

theorem heap_extract_witness:
  "\<exists>\<sigma> s'. ih_extract kv_store (pool_key_ops borsh_std) (ih_new [2] 3) \<sigma> =
     Some (Some (PoolKey (b32_fill 4) 10), s')"
proof -
  obtain \<sigma> where "ih_ok (pool_key_ops borsh_std) id (ih_new [2] 3) two_keys \<sigma>"
    using two_keys_stored [of 3] by auto
  from heap_extract [OF kv_pool_key.stored_values_axioms refl this] show ?thesis
    by (auto simp: two_keys_def)
qed

text \<open>
  \<open>insert\<close> of a value with a new key adds it to the heap while there is room; when the
  capacity is reached it is refused with an error and nothing changes.
\<close>

theorem heap_insert:
  assumes V: "stored_values N rep P prio" and s: "rep s \<sigma>" and xs: "ih_ok P prio m xs \<sigma>"
    and v: "vkey P v \<notin> vkey P ` set xs"
  shows "if length xs < unat (capacity m)
    then \<exists>s'. ih_insert N P m v s = Some (Inr (), s') \<and>
      heap_after rep P prio m \<sigma> (add_mset v (mset xs)) s'
    else \<exists>s'. ih_insert N P m v s = Some (Inl IndexHeapOperationError, s') \<and> rep s' \<sigma>"
proof (cases "length xs < unat (capacity m)")
  case True
  obtain \<sigma>' zs where z: "ih_insert kv_store P m v \<sigma> = Some (Inr (), \<sigma>')" "ih_ok P prio m zs \<sigma>'"
    "mset zs = add_mset v (mset xs)" "same_but (domain m) \<sigma> \<sigma>'"
    using keyed_value.kv_insert [OF stored_valuesD(2) [OF V] xs v True] by blast
  then show ?thesis
    using simD [OF stored_values.sim_ih_insert [OF V] s z(1)] True by (auto intro: heap_afterI)
next
  case False
  then have "length xs = unat (capacity m)" using ih_okD(5) [OF xs] by simp
  then show ?thesis
    using simD [OF stored_values.sim_ih_insert [OF V] s keyed_value.kv_insert_full
        [OF stored_valuesD(2) [OF V] ih_okD(1) [OF xs]]] by simp
qed

theorem heap_insert_witness:
  "\<exists>\<sigma> s'. ih_insert kv_store (pool_key_ops borsh_std) (ih_new [2] 3) (PoolKey (b32_fill 6) 5) \<sigma> =
     Some (Inr (), s')"
proof -
  obtain \<sigma> where "ih_ok (pool_key_ops borsh_std) id (ih_new [2] 3) two_keys \<sigma>"
    using two_keys_stored [of 3] by auto
  from heap_insert [OF kv_pool_key.stored_values_axioms refl this, of "PoolKey (b32_fill 6) 5"]
  show ?thesis by (auto simp: two_keys_def ih_new_def im_new_def simp del: b32_bytes_fill)
qed

text \<open>
  C27: \<open>insert_extract\<close> inserts while there is room.  On a full heap it refuses a value smaller
  than the least one, without any change, and otherwise puts it in the place of the least
  value, which it returns; the heap never grows beyond its capacity.
\<close>

theorem heap_insert_extract:
  assumes V: "stored_values N rep P prio" and s: "rep s \<sigma>" and xs: "ih_ok P prio m xs \<sigma>"
    and v: "vkey P v \<notin> vkey P ` set xs" and c: "capacity m \<noteq> 0"
  shows "if length xs < unat (capacity m)
    then \<exists>s'. ih_insert_extract N P m v s = Some (Inr None, s') \<and>
      heap_after rep P prio m \<sigma> (add_mset v (mset xs)) s'
    else if prio v < prio (xs ! 0)
    then \<exists>s'. ih_insert_extract N P m v s = Some (Inl IndexHeapOperationError, s') \<and> rep s' \<sigma>
    else \<exists>s'. ih_insert_extract N P m v s = Some (Inr (Some (xs ! 0)), s') \<and>
      heap_after rep P prio m \<sigma> (add_mset v (mset xs - {#xs ! 0#})) s'"
proof (cases "length xs < unat (capacity m)")
  case True
  obtain \<sigma>' zs where z: "ih_insert_extract kv_store P m v \<sigma> = Some (Inr None, \<sigma>')" "ih_ok P prio m zs \<sigma>'"
    "mset zs = add_mset v (mset xs)" "same_but (domain m) \<sigma> \<sigma>'"
    using keyed_value.kv_insert_extract_room [OF stored_valuesD(2) [OF V] xs v True] by blast
  then show ?thesis
    using simD [OF stored_values.sim_ih_insert_extract [OF V] s z(1)] True by (auto intro: heap_afterI)
next
  case False
  then have n: "length xs = unat (capacity m)" "xs \<noteq> []"
    using ih_okD(5) [OF xs] c by (auto simp: unat_eq_zero)
  note full = keyed_value.kv_insert_extract_full [OF stored_valuesD(2) [OF V] xs n, of v]
  have "vkey P v \<notin> vkey P ` set_mset (mset xs - {#xs ! 0#})"
    using v by (auto dest: in_diffD)
  then show ?thesis
    using full False simD [OF stored_values.sim_ih_insert_extract [OF V] s]
    by (cases "prio v < prio (xs ! 0)") (simp, metis heap_afterI)
qed

theorem heap_insert_extract_witness:
  "\<exists>\<sigma> s'. ih_insert_extract kv_store (pool_key_ops borsh_std) (ih_new [2] 2) (PoolKey (b32_fill 6) 15) \<sigma> =
     Some (Inr (Some (PoolKey (b32_fill 4) 10)), s')"
proof -
  obtain \<sigma> where "ih_ok (pool_key_ops borsh_std) id (ih_new [2] 2) two_keys \<sigma>"
    using two_keys_stored [of 2] by auto
  from heap_insert_extract [OF kv_pool_key.stored_values_axioms refl this, of "PoolKey (b32_fill 6) 15"]
  show ?thesis
    by (auto simp: two_keys_def ih_new_def im_new_def less_pool_key_def simp del: b32_bytes_fill)
qed

text \<open>
  \<open>change_key\<close> replaces the value stored under the same key and restores the heap order,
  whether the priority rises or falls; with equal priorities, and for a key that is not in
  the heap, nothing changes.
\<close>

theorem heap_change_key:
  assumes V: "stored_values N rep P prio" and s: "rep s \<sigma>" and xs: "ih_ok P prio m xs \<sigma>"
  shows "case List.find (\<lambda>x. vkey P x = vkey P v) xs of
      None \<Rightarrow> \<exists>s'. ih_change_key N P m v s = Some ((), s') \<and> rep s' \<sigma>
    | Some x \<Rightarrow> \<exists>s'. ih_change_key N P m v s = Some ((), s') \<and> heap_after rep P prio m \<sigma>
        (if prio v = prio x then mset xs else add_mset v (mset xs - {#x#})) s'"
proof (cases "List.find (\<lambda>x. vkey P x = vkey P v) xs")
  case None
  then have "vkey P v \<notin> vkey P ` set xs" by (auto simp: find_None_iff)
  then show ?thesis
    using simD [OF stored_values.sim_ih_change_key [OF V] s keyed_value.kv_change_key_none
        [OF stored_valuesD(2) [OF V] ih_okD(1) [OF xs]]] None by simp
next
  case (Some x)
  then obtain j where j: "j < length xs" "vkey P v = vkey P (xs ! j)" "x = xs ! j"
    by (auto simp: find_Some_iff)
  obtain \<sigma>' zs where z: "ih_change_key kv_store P m v \<sigma> = Some ((), \<sigma>')" "ih_ok P prio m zs \<sigma>'"
    "mset zs = (if prio v = prio (xs ! j) then mset xs else add_mset v (mset xs - {#xs ! j#}))"
    "same_but (domain m) \<sigma> \<sigma>'"
    using keyed_value.kv_change_key [OF stored_valuesD(2) [OF V] xs j(1,2)] by blast
  then show ?thesis
    using simD [OF stored_values.sim_ih_change_key [OF V] s z(1)] Some j(3)
    by (auto intro: heap_afterI)
qed

theorem heap_change_key_witness:
  "\<exists>\<sigma> s'. ih_change_key kv_store (pool_key_ops borsh_std) (ih_new [2] 3) (PoolKey (b32_fill 4) 30) \<sigma> =
     Some ((), s') \<and>
     heap_after (=) (pool_key_ops borsh_std) id (ih_new [2] 3) \<sigma>
       {#PoolKey (b32_fill 4) 30, PoolKey (b32_fill 5) 20#} s'"
proof -
  obtain \<sigma> where "ih_ok (pool_key_ops borsh_std) id (ih_new [2] 3) two_keys \<sigma>"
    using two_keys_stored [of 3] by auto
  from heap_change_key [OF kv_pool_key.stored_values_axioms refl this, of "PoolKey (b32_fill 4) 30"]
  show ?thesis by (auto simp: two_keys_def simp del: b32_bytes_fill)
qed

text \<open>
  \<open>remove_item\<close> takes the value with the given key out of the heap, wherever it stands, and
  does nothing for a key that is not in it; \<open>unordered_values\<close> lists exactly the values.
\<close>

theorem heap_remove_and_list:
  assumes V: "stored_values N rep P prio" and s: "rep s \<sigma>" and xs: "ih_ok P prio m xs \<sigma>"
  shows "(case List.find (\<lambda>x. vkey P x = k) xs of
      None \<Rightarrow> \<exists>s'. ih_remove_item N P m k s = Some ((), s') \<and> rep s' \<sigma>
    | Some x \<Rightarrow> \<exists>s'. ih_remove_item N P m k s = Some ((), s') \<and>
        heap_after rep P prio m \<sigma> (mset xs - {#x#}) s') \<and>
    (\<exists>s'. ih_unordered_values N P m s = Some (xs, s') \<and> rep s' \<sigma>)"
proof -
  note K = stored_valuesD(2) [OF V] and rm = simD [OF stored_values.sim_ih_remove_item [OF V] s]
  have "case List.find (\<lambda>x. vkey P x = k) xs of
      None \<Rightarrow> \<exists>s'. ih_remove_item N P m k s = Some ((), s') \<and> rep s' \<sigma>
    | Some x \<Rightarrow> \<exists>s'. ih_remove_item N P m k s = Some ((), s') \<and>
        heap_after rep P prio m \<sigma> (mset xs - {#x#}) s'"
  proof (cases "List.find (\<lambda>x. vkey P x = k) xs")
    case None
    then have "k \<notin> vkey P ` set xs" by (auto simp: find_None_iff)
    then show ?thesis
      using rm [OF keyed_value.kv_remove_none [OF K ih_okD(1) [OF xs]]] None by simp
  next
    case (Some x)
    then obtain j where j: "j < length xs" "k = vkey P (xs ! j)" "x = xs ! j"
      by (auto simp: find_Some_iff)
    obtain \<sigma>' zs where z: "ih_remove_item kv_store P m k \<sigma> = Some ((), \<sigma>')" "ih_ok P prio m zs \<sigma>'"
      "mset zs = mset xs - {#xs ! j#}" "same_but (domain m) \<sigma> \<sigma>'"
      using keyed_value.kv_remove_item [OF K xs j(1)] unfolding j(2) by blast
    then show ?thesis using rm [OF z(1)] Some j(3) by (auto intro: heap_afterI)
  qed
  then show ?thesis
    using simD [OF stored_values.sim_ih_unordered_values [OF V] s
        keyed_value.kv_unordered_values [OF K ih_okD(1) [OF xs]]] by blast
qed

theorem heap_remove_and_list_witness:
  "\<exists>\<sigma> s'. ih_remove_item kv_store (pool_key_ops borsh_std) (ih_new [2] 3) (b32_bytes (b32_fill 5)) \<sigma> =
     Some ((), s') \<and>
     heap_after (=) (pool_key_ops borsh_std) id (ih_new [2] 3) \<sigma> {#PoolKey (b32_fill 4) 10#} s'"
proof -
  obtain \<sigma> where "ih_ok (pool_key_ops borsh_std) id (ih_new [2] 3) two_keys \<sigma>"
    using two_keys_stored [of 3] by auto
  from heap_remove_and_list [OF kv_pool_key.stored_values_axioms refl this, of "b32_bytes (b32_fill 5)"]
  show ?thesis by (auto simp: two_keys_def simp del: b32_bytes_fill)
qed

end
