(* ===== verification/Pool.thy ===== *)
theory Pool
  imports Index_Heap
begin

text \<open>
  Pools (\<open>pool.rs\<close>): the dictionary that lays out the fields of one pool under a prefix, with
  its delegated stakes as a nested heap, and the validator pool, an indexed map of pool
  addresses with a nested dictionary for each.  \<open>vp_ok\<close> states what the store holds for a
  list of pools with their stakes.
\<close>

section \<open>The dictionary of one pool\<close>

record pool =
  operator :: b32
  commission_rate :: u8
  power :: u64
  operator_stake :: "stake option"

record pool_dict =
  pd_prefix :: bytes

text \<open>The module \<open>pool_data\<close>.\<close>

definition pool_data_operator :: bytes where "pool_data_operator = [0]"
definition pool_data_power :: bytes where "pool_data_power = [1]"
definition pool_data_commission_rate :: bytes where "pool_data_commission_rate = [2]"
definition pool_data_operator_stake :: bytes where "pool_data_operator_stake = [3]"
definition pool_data_delegated_stakes :: bytes where "pool_data_delegated_stakes = [4]"

lemmas pool_data [simp] = pool_data_operator_def pool_data_power_def pool_data_commission_rate_def
  pool_data_operator_stake_def pool_data_delegated_stakes_def

definition pd_operator_key :: "pool_dict \<Rightarrow> bytes" where
  "pd_operator_key d = pd_prefix d @ pool_data_operator"

definition pd_power_key :: "pool_dict \<Rightarrow> bytes" where
  "pd_power_key d = pd_prefix d @ pool_data_power"

definition pd_commission_rate_key :: "pool_dict \<Rightarrow> bytes" where
  "pd_commission_rate_key d = pd_prefix d @ pool_data_commission_rate"

definition pd_operator_stake_key :: "pool_dict \<Rightarrow> bytes" where
  "pd_operator_stake_key d = pd_prefix d @ pool_data_operator_stake"

definition pd_exists :: "'s nas \<Rightarrow> pool_dict \<Rightarrow> 's \<Rightarrow> (bool \<times> 's) option" where
  "pd_exists N d s = nas_contains N s (pd_operator_key d)"

definition pd_operator :: "'s nas \<Rightarrow> pool_dict \<Rightarrow> 's \<Rightarrow> (b32 option \<times> 's) option" where
  "pd_operator N d s = do {
     (b, s) \<leftarrow> nas_get N s (pd_operator_key d);
     case b of None \<Rightarrow> Some (None, s) | Some b \<Rightarrow> Some (b32_try_from b, s)
   }"

definition pd_set_operator :: "'s nas \<Rightarrow> pool_dict \<Rightarrow> b32 \<Rightarrow> 's \<Rightarrow> (unit \<times> 's) option" where
  "pd_set_operator N d a s = nas_set N s (pd_operator_key d) (b32_bytes a)"

definition pd_power :: "'s nas \<Rightarrow> pool_dict \<Rightarrow> 's \<Rightarrow> (u64 option \<times> 's) option" where
  "pd_power N d s = do {
     (b, s) \<leftarrow> nas_get N s (pd_power_key d);
     case b of None \<Rightarrow> Some (None, s) | Some b \<Rightarrow> Some (u64_from_le b, s)
   }"

definition pd_set_power :: "'s nas \<Rightarrow> pool_dict \<Rightarrow> u64 \<Rightarrow> 's \<Rightarrow> (unit \<times> 's) option" where
  "pd_set_power N d n s = nas_set N s (pd_power_key d) (u64_to_le n)"

definition pd_commission_rate :: "'s nas \<Rightarrow> pool_dict \<Rightarrow> 's \<Rightarrow> (u8 option \<times> 's) option" where
  "pd_commission_rate N d s = do {
     (b, s) \<leftarrow> nas_get N s (pd_commission_rate_key d);
     case b of None \<Rightarrow> Some (None, s) | Some b \<Rightarrow> Some (u8_from_le b, s)
   }"

definition pd_set_commission_rate :: "'s nas \<Rightarrow> pool_dict \<Rightarrow> u8 \<Rightarrow> 's \<Rightarrow> (unit \<times> 's) option" where
  "pd_set_commission_rate N d n s = nas_set N s (pd_commission_rate_key d) (u8_to_le n)"

text \<open>The inner \<open>unwrap\<close> panics on bytes that do not deserialise.\<close>

definition pd_operator_stake ::
    "'s nas \<Rightarrow> borsh_lib \<Rightarrow> pool_dict \<Rightarrow> 's \<Rightarrow> (stake option option \<times> 's) option" where
  "pd_operator_stake N B d s = do {
     (b, s) \<leftarrow> nas_get N s (pd_operator_stake_key d);
     case b of
       None \<Rightarrow> Some (None, s)
     | Some b \<Rightarrow> do { x \<leftarrow> de_stake_opt B b; Some (Some x, s) }
   }"

definition pd_set_operator_stake ::
    "'s nas \<Rightarrow> borsh_lib \<Rightarrow> pool_dict \<Rightarrow> stake option \<Rightarrow> 's \<Rightarrow> (unit \<times> 's) option" where
  "pd_set_operator_stake N B d x s = nas_set N s (pd_operator_stake_key d) (ser_stake_opt B x)"

text \<open>\<open>M\<close> is the size parameter of the Rust type, cast to \<open>u32\<close>.\<close>

definition pd_delegated_stakes :: "u16 \<Rightarrow> pool_dict \<Rightarrow> index_map" where
  "pd_delegated_stakes M d = ih_new (pd_prefix d @ pool_data_delegated_stakes) (ucast M)"

definition pd_delete :: "'s nas \<Rightarrow> borsh_lib \<Rightarrow> u16 \<Rightarrow> pool_dict \<Rightarrow> 's \<Rightarrow> (unit \<times> 's) option" where
  "pd_delete N B M d s = do {
     (_, s) \<leftarrow> nas_delete N s (pd_operator_key d);
     (_, s) \<leftarrow> nas_delete N s (pd_power_key d);
     (_, s) \<leftarrow> nas_delete N s (pd_commission_rate_key d);
     (_, s) \<leftarrow> nas_delete N s (pd_operator_stake_key d);
     im_clear N (stake_value_ops B) (pd_delegated_stakes M d) s
   }"

definition pool_try_from ::
    "'s nas \<Rightarrow> borsh_lib \<Rightarrow> pool_dict \<Rightarrow> 's \<Rightarrow> ((unit + pool) \<times> 's) option" where
  "pool_try_from N B d s = do {
     (op, s) \<leftarrow> pd_operator N d s;
     case op of None \<Rightarrow> Some (Inl (), s) | Some op \<Rightarrow> do {
     (rate, s) \<leftarrow> pd_commission_rate N d s;
     case rate of None \<Rightarrow> Some (Inl (), s) | Some rate \<Rightarrow> do {
     (pw, s) \<leftarrow> pd_power N d s;
     case pw of None \<Rightarrow> Some (Inl (), s) | Some pw \<Rightarrow> do {
     (st, s) \<leftarrow> pd_operator_stake N B d s;
     case st of None \<Rightarrow> Some (Inl (), s) | Some st \<Rightarrow>
       Some (Inr \<lparr>operator = op, commission_rate = rate, power = pw, operator_stake = st\<rparr>, s)
   }}}}"

section \<open>The validator pool\<close>

definition prefix_nested_map :: bytes where "prefix_nested_map = [3]"

text \<open>\<open>n\<close> is the parameter \<open>N\<close> of the Rust type.\<close>

definition vp_new :: "u16 \<Rightarrow> bytes \<Rightarrow> index_map" where
  "vp_new n prefix_key = im_new prefix_key (ucast n)"

definition vp_length :: "'s nas \<Rightarrow> index_map \<Rightarrow> 's \<Rightarrow> (u32 \<times> 's) option" where
  "vp_length N V s = im_length N V s"

definition vp_dict :: "index_map \<Rightarrow> b32 \<Rightarrow> pool_dict" where
  "vp_dict V a = \<lparr>pd_prefix = domain V @ prefix_nested_map @ b32_bytes a\<rparr>"

definition vp_pool :: "'s nas \<Rightarrow> index_map \<Rightarrow> b32 \<Rightarrow> 's \<Rightarrow> (pool_dict option \<times> 's) option" where
  "vp_pool N V a s = do {
     (found, s) \<leftarrow> im_get_by N pool_address_ops V (vkey pool_address_ops (PoolAddress a)) s;
     case found of None \<Rightarrow> Some (None, s) | Some _ \<Rightarrow> Some (Some (vp_dict V a), s)
   }"

definition vp_pool_at :: "'s nas \<Rightarrow> index_map \<Rightarrow> u32 \<Rightarrow> 's \<Rightarrow> (pool_dict option \<times> 's) option" where
  "vp_pool_at N V index s = do {
     (found, s) \<leftarrow> im_get N pool_address_ops V index s;
     case found of None \<Rightarrow> Some (None, s) | Some pa \<Rightarrow> vp_pool N V (address_of pa) s
   }"

definition vp_get :: "'s nas \<Rightarrow> index_map \<Rightarrow> u32 \<Rightarrow> 's \<Rightarrow> (pool_address option \<times> 's) option" where
  "vp_get N V index s = im_get N pool_address_ops V index s"

text \<open>The result of \<open>reset\<close> is discarded.\<close>

definition vp_push :: "'s nas \<Rightarrow> borsh_lib \<Rightarrow> u16 \<Rightarrow> index_map \<Rightarrow> pool \<Rightarrow> stake_value list \<Rightarrow> 's \<Rightarrow>
    ((index_map_operation_error + unit) \<times> 's) option" where
  "vp_push N B M V p stakes s = do {
     (r, s) \<leftarrow> im_push N pool_address_ops V (PoolAddress (operator p)) s;
     case r of
       Inl e \<Rightarrow> Some (Inl e, s)
     | Inr _ \<Rightarrow> do {
         (found, s) \<leftarrow> vp_pool N V (operator p) s;
         d \<leftarrow> found;
         (_, s) \<leftarrow> pd_set_operator N d (operator p) s;
         (_, s) \<leftarrow> pd_set_power N d (power p) s;
         (_, s) \<leftarrow> pd_set_commission_rate N d (commission_rate p) s;
         (_, s) \<leftarrow> pd_set_operator_stake N B d (operator_stake p) s;
         (_, s) \<leftarrow> im_reset N (stake_value_ops B) (pd_delegated_stakes M d) stakes s;
         Some (Inr (), s)
       }
   }"

text \<open>The loop of \<open>clear\<close>.\<close>

fun vp_clear_all :: "'s nas \<Rightarrow> borsh_lib \<Rightarrow> u16 \<Rightarrow> index_map \<Rightarrow> u32 list \<Rightarrow> 's \<Rightarrow> (unit \<times> 's) option" where
  "vp_clear_all N B M V [] s = Some ((), s)"
| "vp_clear_all N B M V (i # is) s = do {
     (found, s) \<leftarrow> vp_pool_at N V i s;
     d \<leftarrow> found;
     (_, s) \<leftarrow> im_clear N (stake_value_ops B) (pd_delegated_stakes M d) s;
     (_, s) \<leftarrow> pd_delete N B M d s;
     vp_clear_all N B M V is s
   }"

definition vp_clear :: "'s nas \<Rightarrow> borsh_lib \<Rightarrow> u16 \<Rightarrow> index_map \<Rightarrow> 's \<Rightarrow> (unit \<times> 's) option" where
  "vp_clear N B M V s = do {
     (len, s) \<leftarrow> vp_length N V s;
     (_, s) \<leftarrow> vp_clear_all N B M V (indices len) s;
     (_, s) \<leftarrow> im_set_length N V 0 s;
     Some ((), s)
   }"

section \<open>On every lawful store\<close>

text \<open>A lawful store together with a lawful serialisation.\<close>

locale pool_store =
  network_account_storage N rep + borsh_codec B
  for N :: "'s nas" and rep :: "'s \<Rightarrow> bytes bytemap \<Rightarrow> bool" and B :: borsh_lib

sublocale pool_store \<subseteq> addresses: stored_values N rep pool_address_ops address_of ..

sublocale pool_store \<subseteq> stakes: stored_values N rep "stake_value_ops B"
  "\<lambda>v. stake_power (inner_stake v)" ..

sublocale pool_store \<subseteq> pool_keys: stored_values N rep "pool_key_ops B" id ..

interpretation kv_std: pool_store kv_store "(=)" borsh_std ..

context pool_store
begin

lemma sim_pd_exists [sim_intros]: "sim rep (pd_exists N d) (pd_exists kv_store d)"
  unfolding pd_exists_def by (intro sim_intros sim_store)

lemma sim_pd_operator [sim_intros]: "sim rep (pd_operator N d) (pd_operator kv_store d)"
  unfolding pd_operator_def by (intro sim_intros sim_store)

lemma sim_pd_power [sim_intros]: "sim rep (pd_power N d) (pd_power kv_store d)"
  unfolding pd_power_def by (intro sim_intros sim_store)

lemma sim_pd_commission_rate [sim_intros]:
  "sim rep (pd_commission_rate N d) (pd_commission_rate kv_store d)"
  unfolding pd_commission_rate_def by (intro sim_intros sim_store)

lemma sim_pd_operator_stake [sim_intros]:
  "sim rep (pd_operator_stake N B d) (pd_operator_stake kv_store B d)"
  unfolding pd_operator_stake_def by (intro sim_intros sim_store)

lemma sim_pd_set [sim_intros]:
  "sim rep (pd_set_operator N d a) (pd_set_operator kv_store d a)"
  "sim rep (pd_set_power N d n) (pd_set_power kv_store d n)"
  "sim rep (pd_set_commission_rate N d r) (pd_set_commission_rate kv_store d r)"
  "sim rep (pd_set_operator_stake N B d x) (pd_set_operator_stake kv_store B d x)"
  unfolding pd_set_operator_def pd_set_power_def pd_set_commission_rate_def pd_set_operator_stake_def
  by (intro sim_store; simp add: stake_opt_nonempty)+

lemma sim_pd_delete [sim_intros]: "sim rep (pd_delete N B M d) (pd_delete kv_store B M d)"
  unfolding pd_delete_def by (intro sim_intros sim_store)

lemma sim_pool_try_from [sim_intros]: "sim rep (pool_try_from N B d) (pool_try_from kv_store B d)"
  unfolding pool_try_from_def by (intro sim_intros)

lemma sim_vp_length [sim_intros]: "sim rep (vp_length N V) (vp_length kv_store V)"
  unfolding vp_length_def by (intro sim_intros)

lemma sim_vp_pool [sim_intros]: "sim rep (vp_pool N V a) (vp_pool kv_store V a)"
  unfolding vp_pool_def by (intro sim_intros)

lemma sim_vp_pool_at [sim_intros]: "sim rep (vp_pool_at N V i) (vp_pool_at kv_store V i)"
  unfolding vp_pool_at_def by (intro sim_intros)

lemma sim_vp_get [sim_intros]: "sim rep (vp_get N V i) (vp_get kv_store V i)"
  unfolding vp_get_def by (intro sim_intros)

lemma sim_vp_push [sim_intros]: "sim rep (vp_push N B M V p ss) (vp_push kv_store B M V p ss)"
  unfolding vp_push_def by (intro sim_intros addresses.sim_im_push stakes.sim_im_reset)

lemma sim_vp_clear_all [sim_intros]:
  "sim rep (vp_clear_all N B M V is) (vp_clear_all kv_store B M V is)"
proof (induction "is")
  case (Cons i "is")
  have eq: "vp_clear_all N B M V (i # is) = (\<lambda>s. do {
     (found, s) \<leftarrow> vp_pool_at N V i s; d \<leftarrow> found;
     (_, s) \<leftarrow> im_clear N (stake_value_ops B) (pd_delegated_stakes M d) s;
     (_, s) \<leftarrow> pd_delete N B M d s; vp_clear_all N B M V is s })" for N :: "'x nas"
    by (rule ext) simp
  show ?case unfolding eq by (intro sim_intros Cons)
qed (simp add: sim_def)

lemma sim_vp_clear [sim_intros]: "sim rep (vp_clear N B M V) (vp_clear kv_store B M V)"
  unfolding vp_clear_def by (intro sim_intros)

end

section \<open>What the store holds\<close>

lemmas pd_keys = pd_operator_key_def pd_power_key_def pd_commission_rate_key_def
  pd_operator_stake_key_def

definition pool_stored :: "borsh_lib \<Rightarrow> pool_dict \<Rightarrow> pool \<Rightarrow> bytes bytemap \<Rightarrow> bool" where
  "pool_stored B d p \<sigma> \<longleftrightarrow>
     \<sigma> (pd_operator_key d) = Some (b32_bytes (operator p)) \<and>
     \<sigma> (pd_power_key d) = Some (u64_to_le (power p)) \<and>
     \<sigma> (pd_commission_rate_key d) = Some (u8_to_le (commission_rate p)) \<and>
     \<sigma> (pd_operator_stake_key d) = Some (ser_stake_opt B (operator_stake p))"

abbreviation stakes_ok :: "borsh_lib \<Rightarrow> u16 \<Rightarrow> pool_dict \<Rightarrow> stake_value list \<Rightarrow> bytes bytemap \<Rightarrow> bool" where
  "stakes_ok B M d ss \<sigma> \<equiv> im_ok (stake_value_ops B) (pd_delegated_stakes M d) ss \<sigma>"

definition dict_ok :: "borsh_lib \<Rightarrow> u16 \<Rightarrow> pool_dict \<Rightarrow> pool \<Rightarrow> stake_value list \<Rightarrow> bytes bytemap \<Rightarrow> bool" where
  "dict_ok B M d p ss \<sigma> \<longleftrightarrow> pool_stored B d p \<sigma> \<and> stakes_ok B M d ss \<sigma>"

definition dict_cleared :: "borsh_lib \<Rightarrow> u16 \<Rightarrow> pool_dict \<Rightarrow> bytes bytemap \<Rightarrow> bool" where
  "dict_cleared B M d \<sigma> \<longleftrightarrow>
     \<sigma> (pd_operator_key d) = None \<and> \<sigma> (pd_power_key d) = None \<and>
     \<sigma> (pd_commission_rate_key d) = None \<and> \<sigma> (pd_operator_stake_key d) = None \<and>
     stakes_ok B M d [] \<sigma>"

definition vp_ok :: "borsh_lib \<Rightarrow> u16 \<Rightarrow> index_map \<Rightarrow> (pool \<times> stake_value list) list \<Rightarrow>
    bytes bytemap \<Rightarrow> bool" where
  "vp_ok B M V ps \<sigma> \<longleftrightarrow>
     im_live pool_address_ops V (map (\<lambda>e. PoolAddress (operator (fst e))) ps) \<sigma> \<and>
     (\<forall>(p, ss) \<in> set ps. dict_ok B M (vp_dict V (operator p)) p ss \<sigma>) \<and>
     (\<forall>a. a \<notin> (\<lambda>e. operator (fst e)) ` set ps \<longrightarrow> stakes_ok B M (vp_dict V a) [] \<sigma>)"

lemma capacity_u16: "unat (ucast (n :: u16) :: u32) = unat n"
proof -
  have "unat n < 2 ^ 16" using unsigned_less [of n] by simp
  then show ?thesis by (simp add: unsigned_ucast_eq take_bit_nat_eq_self)
qed

subsection \<open>Footprints\<close>

definition below :: "bytes \<Rightarrow> bytes set" where
  "below q = range (\<lambda>r. q @ r)"

definition agree :: "bytes set \<Rightarrow> bytes bytemap \<Rightarrow> bytes bytemap \<Rightarrow> bool" where
  "agree X \<sigma> \<sigma>' \<longleftrightarrow> (\<forall>x \<in> X. \<sigma>' x = \<sigma> x)"

lemma agree_refl [simp, intro]: "agree X \<sigma> \<sigma>"
  by (simp add: agree_def)

lemma agree_trans: "agree X \<sigma> \<sigma>1 \<Longrightarrow> agree X \<sigma>1 \<sigma>2 \<Longrightarrow> agree X \<sigma> \<sigma>2"
  by (simp add: agree_def)

lemma agree_subset: "agree X \<sigma> \<sigma>' \<Longrightarrow> Y \<subseteq> X \<Longrightarrow> agree Y \<sigma> \<sigma>'"
  by (auto simp: agree_def)

lemma same_but_agree: "same_but d \<sigma> \<sigma>' \<longleftrightarrow> agree (- im_keys d) \<sigma> \<sigma>'"
  by (auto simp: same_but_def agree_def)

lemma agree_upd [simp]: "k \<notin> X \<Longrightarrow> agree X \<sigma> (\<sigma>1(k := b)) = agree X \<sigma> \<sigma>1"
  by (auto simp: agree_def)

lemma im_ok_agree: "im_ok P m xs \<sigma> \<Longrightarrow> agree (im_keys (domain m)) \<sigma> \<sigma>' \<Longrightarrow> im_ok P m xs \<sigma>'"
  by (auto simp: im_ok_def agree_def intro: im_rep_same)

lemma im_live_agree:
  "im_live P m xs \<sigma> \<Longrightarrow> agree (im_keys (domain m)) \<sigma> \<sigma>' \<Longrightarrow> im_live P m xs \<sigma>'"
  by (auto simp: agree_def intro: im_live_same)

lemma im_keys_below: "im_keys (q @ r) \<subseteq> below q"
  by (auto simp: im_keys_def below_def key_len_def key_ki_def key_iv_def)

lemma pd_keys_below:
  "pd_operator_key d \<in> below (pd_prefix d)" "pd_power_key d \<in> below (pd_prefix d)"
  "pd_commission_rate_key d \<in> below (pd_prefix d)" "pd_operator_stake_key d \<in> below (pd_prefix d)"
  by (auto simp: pd_keys below_def)

lemma stakes_domain: "domain (pd_delegated_stakes M d) = pd_prefix d @ [4]"
  by (simp add: pd_delegated_stakes_def ih_new_def im_new_def)

lemma stakes_keys_below: "im_keys (domain (pd_delegated_stakes M d)) \<subseteq> below (pd_prefix d)"
  unfolding stakes_domain by (rule im_keys_below)

lemma pd_keys_not_stakes:
  "pd_operator_key d \<notin> im_keys (domain (pd_delegated_stakes M d))"
  "pd_power_key d \<notin> im_keys (domain (pd_delegated_stakes M d))"
  "pd_commission_rate_key d \<notin> im_keys (domain (pd_delegated_stakes M d))"
  "pd_operator_stake_key d \<notin> im_keys (domain (pd_delegated_stakes M d))"
  by (auto simp: stakes_domain im_keys_def pd_keys key_len_def key_ki_def key_iv_def prefix_len_def)

lemma pd_keys_distinct [simp]:
  "pd_operator_key d \<noteq> pd_power_key d" "pd_operator_key d \<noteq> pd_commission_rate_key d"
  "pd_operator_key d \<noteq> pd_operator_stake_key d" "pd_power_key d \<noteq> pd_operator_key d"
  "pd_power_key d \<noteq> pd_commission_rate_key d" "pd_power_key d \<noteq> pd_operator_stake_key d"
  "pd_commission_rate_key d \<noteq> pd_operator_key d" "pd_commission_rate_key d \<noteq> pd_power_key d"
  "pd_commission_rate_key d \<noteq> pd_operator_stake_key d"
  "pd_operator_stake_key d \<noteq> pd_operator_key d" "pd_operator_stake_key d \<noteq> pd_power_key d"
  "pd_operator_stake_key d \<noteq> pd_commission_rate_key d"
  by (simp_all add: pd_keys)

lemma vp_dict_prefix: "pd_prefix (vp_dict V a) = domain V @ [3] @ b32_bytes a"
  by (simp add: vp_dict_def prefix_nested_map_def)

lemma below_vp_disjoint:
  "im_keys (domain V) \<inter> below (pd_prefix (vp_dict V a)) = {}"
  "a \<noteq> b \<Longrightarrow> below (pd_prefix (vp_dict V a)) \<inter> below (pd_prefix (vp_dict V b)) = {}"
  by (auto simp: vp_dict_prefix im_keys_def below_def key_len_def key_ki_def key_iv_def
      prefix_len_def prefix_key_index_def prefix_index_value_def)

lemma below_self: "im_keys q \<subseteq> below q"
  using im_keys_below [of q "[]"] by simp

lemma below_vp_dict: "below (pd_prefix (vp_dict V a)) \<subseteq> below (domain V)"
  by (auto simp: vp_dict_prefix below_def)

lemma dict_ok_agree:
  assumes "agree (below (pd_prefix d)) \<sigma> \<sigma>'"
  shows "dict_ok B M d p ss \<sigma> \<Longrightarrow> dict_ok B M d p ss \<sigma>'"
    and "dict_cleared B M d \<sigma> \<Longrightarrow> dict_cleared B M d \<sigma>'"
    and "stakes_ok B M d ss \<sigma> \<Longrightarrow> stakes_ok B M d ss \<sigma>'"
proof -
  show s: "stakes_ok B M d ss \<sigma> \<Longrightarrow> stakes_ok B M d ss \<sigma>'" for ss
    using agree_subset [OF assms stakes_keys_below] by (rule im_ok_agree [rotated])
  show "dict_ok B M d p ss \<sigma> \<Longrightarrow> dict_ok B M d p ss \<sigma>'"
    "dict_cleared B M d \<sigma> \<Longrightarrow> dict_cleared B M d \<sigma>'"
    using assms s pd_keys_below [of d]
    by (auto simp: dict_ok_def dict_cleared_def pool_stored_def agree_def)
qed

section \<open>The operations on one pool\<close>

lemma kv_pd_sets [simp]:
  "pd_set_operator kv_store d a \<sigma> = Some ((), \<sigma>(pd_operator_key d \<mapsto> b32_bytes a))"
  "pd_set_power kv_store d n \<sigma> = Some ((), \<sigma>(pd_power_key d \<mapsto> u64_to_le n))"
  "pd_set_commission_rate kv_store d r \<sigma> = Some ((), \<sigma>(pd_commission_rate_key d \<mapsto> u8_to_le r))"
  "pd_set_operator_stake kv_store B d x \<sigma> = Some ((), \<sigma>(pd_operator_stake_key d \<mapsto> ser_stake_opt B x))"
  by (simp_all add: pd_set_operator_def pd_set_power_def pd_set_commission_rate_def
      pd_set_operator_stake_def)

context borsh_codec
begin

lemma kv_pool_reads:
  assumes "pool_stored B d p \<sigma>"
  shows "pd_exists kv_store d \<sigma> = Some (True, \<sigma>)"
    and "pd_operator kv_store d \<sigma> = Some (Some (operator p), \<sigma>)"
    and "pd_power kv_store d \<sigma> = Some (Some (power p), \<sigma>)"
    and "pd_commission_rate kv_store d \<sigma> = Some (Some (commission_rate p), \<sigma>)"
    and "pd_operator_stake kv_store B d \<sigma> = Some (Some (operator_stake p), \<sigma>)"
    and "pool_try_from kv_store B d \<sigma> = Some (Inr p, \<sigma>)"
  using assms
  by (simp_all add: pool_stored_def pd_exists_def pd_operator_def pd_power_def pd_commission_rate_def
      pd_operator_stake_def pool_try_from_def stake_opt_roundtrip)

lemma kv_pool_absent:
  assumes "dict_cleared B M d \<sigma>"
  shows "pd_exists kv_store d \<sigma> = Some (False, \<sigma>)"
    and "pool_try_from kv_store B d \<sigma> = Some (Inl (), \<sigma>)"
  using assms by (simp_all add: dict_cleared_def pd_exists_def pool_try_from_def pd_operator_def)

lemma kv_pd_delete:
  assumes "stakes_ok B M d ss \<sigma>"
  shows "\<exists>\<sigma>'. pd_delete kv_store B M d \<sigma> = Some ((), \<sigma>') \<and> dict_cleared B M d \<sigma>' \<and>
     agree (- below (pd_prefix d)) \<sigma> \<sigma>'"
proof -
  let ?\<sigma> = "\<sigma>(pd_operator_key d := None, pd_power_key d := None, pd_commission_rate_key d := None,
    pd_operator_stake_key d := None)"
  have "stakes_ok B M d ss ?\<sigma>"
    using assms by (rule im_ok_agree) (simp add: pd_keys_not_stakes)
  then obtain \<sigma>' where c: "im_clear kv_store (stake_value_ops B) (pd_delegated_stakes M d) ?\<sigma> = Some ((), \<sigma>')"
    "stakes_ok B M d [] \<sigma>'" "same_but (domain (pd_delegated_stakes M d)) ?\<sigma> \<sigma>'"
    using stake_value.kv_clear by blast
  have "dict_cleared B M d \<sigma>'"
    using c(2,3) pd_keys_not_stakes [of d M] by (simp add: dict_cleared_def same_but_def)
  moreover have "agree (- below (pd_prefix d)) \<sigma> \<sigma>'"
  proof -
    have "agree (- below (pd_prefix d)) ?\<sigma> \<sigma>'"
      by (rule agree_subset [OF c(3) [unfolded same_but_agree]]) (use stakes_keys_below in blast)
    then show ?thesis by (rule agree_trans [rotated]) (simp add: pd_keys_below)
  qed
  ultimately show ?thesis using c(1) by (simp add: pd_delete_def)
qed

end

section \<open>The validator pool\<close>

lemma kv_vp_pool:
  assumes "im_live pool_address_ops V xs \<sigma>" "PoolAddress a \<in> set xs"
  shows "vp_pool kv_store V a \<sigma> = Some (Some (vp_dict V a), \<sigma>)"
  using pool_address.kv_live_get_by [OF assms] by (simp add: vp_pool_def)

lemma kv_vp_pool_at:
  assumes "im_live pool_address_ops V xs \<sigma>" "i < length xs"
  shows "vp_pool_at kv_store V (of_nat i) \<sigma> = Some (Some (vp_dict V (address_of (xs ! i))), \<sigma>)"
  using kv_vp_pool [OF assms(1), of "address_of (xs ! i)"] assms(2)
  by (simp add: vp_pool_at_def pool_address.kv_live_get [OF assms])

lemma vp_okD:
  assumes "vp_ok B M V ps \<sigma>"
  shows "im_live pool_address_ops V (map (\<lambda>e. PoolAddress (operator (fst e))) ps) \<sigma>"
    and "(p, ss) \<in> set ps \<Longrightarrow> dict_ok B M (vp_dict V (operator p)) p ss \<sigma>"
    and "a \<notin> (\<lambda>e. operator (fst e)) ` set ps \<Longrightarrow> stakes_ok B M (vp_dict V a) [] \<sigma>"
  using assms by (auto simp: vp_ok_def)

context borsh_codec
begin

text \<open>Writing one pool behind its address.\<close>

lemma kv_stakes_reset:
  assumes s: "stakes_ok B M d [] \<sigma>"
    and ss: "distinct (map (\<lambda>v. owner (inner_stake v)) ss)" "length ss < 2 ^ 32"
  shows "\<exists>\<sigma>' r. im_reset kv_store (stake_value_ops B) (pd_delegated_stakes M d) ss \<sigma> = Some (r, \<sigma>') \<and>
    stakes_ok B M d (if length ss \<le> unat M then ss else []) \<sigma>' \<and>
    same_but (domain (pd_delegated_stakes M d)) \<sigma> \<sigma>'"
proof -
  let ?H = "pd_delegated_stakes M d"
  have cap: "unat (capacity ?H) = unat M"
    by (simp add: pd_delegated_stakes_def ih_new_def im_new_def capacity_u16)
  have "map (vkey (stake_value_ops B)) ss = map b32_bytes (map (\<lambda>v. owner (inner_stake v)) ss)"
    by simp
  then have keys: "distinct (map (vkey (stake_value_ops B)) ss)"
    using ss(1) by (simp only: distinct_map [of b32_bytes]) (simp add: inj_on_def)
  show ?thesis
  proof (cases "length ss \<le> unat M")
    case True
    then show ?thesis using stake_value.kv_reset [OF s keys] cap by auto
  next
    case False
    then have "im_reset kv_store (stake_value_ops B) ?H ss \<sigma> = Some (Inl IndexMapOperationError, \<sigma>)"
      by (intro stake_value.kv_reset_full) (use cap ss(2) in simp_all)
    moreover have "stakes_ok B M d (if length ss \<le> unat M then ss else []) \<sigma>"
      using False s by simp
    ultimately show ?thesis by (intro exI conjI) (assumption, assumption, rule same_but_refl)
  qed
qed

lemma kv_pool_write:
  assumes "stakes_ok B M d [] \<sigma>" "distinct (map (\<lambda>v. owner (inner_stake v)) ss)" "length ss < 2 ^ 32"
  shows "\<exists>\<sigma>'. do {
      (_, s) \<leftarrow> pd_set_operator kv_store d (operator p) \<sigma>;
      (_, s) \<leftarrow> pd_set_power kv_store d (power p) s;
      (_, s) \<leftarrow> pd_set_commission_rate kv_store d (commission_rate p) s;
      (_, s) \<leftarrow> pd_set_operator_stake kv_store B d (operator_stake p) s;
      (_, s) \<leftarrow> im_reset kv_store (stake_value_ops B) (pd_delegated_stakes M d) ss s;
      Some (Inr () :: index_map_operation_error + unit, s)
    } = Some (Inr (), \<sigma>') \<and>
    dict_ok B M d p (if length ss \<le> unat M then ss else []) \<sigma>' \<and> agree (- below (pd_prefix d)) \<sigma> \<sigma>'"
proof -
  let ?\<sigma> = "\<sigma>(pd_operator_key d \<mapsto> b32_bytes (operator p), pd_power_key d \<mapsto> u64_to_le (power p),
    pd_commission_rate_key d \<mapsto> u8_to_le (commission_rate p),
    pd_operator_stake_key d \<mapsto> ser_stake_opt B (operator_stake p))"
  let ?H = "pd_delegated_stakes M d"
  have s: "stakes_ok B M d [] ?\<sigma>"
    using assms(1) by (rule im_ok_agree) (simp add: pd_keys_not_stakes)
  have stored: "pool_stored B d p ?\<sigma>" by (simp add: pool_stored_def)
  have out: "agree (- below (pd_prefix d)) \<sigma> ?\<sigma>" by (simp add: pd_keys_below)
  obtain \<sigma>' r where r: "im_reset kv_store (stake_value_ops B) ?H ss ?\<sigma> = Some (r, \<sigma>')"
    "stakes_ok B M d (if length ss \<le> unat M then ss else []) \<sigma>'" "same_but (domain ?H) ?\<sigma> \<sigma>'"
    using kv_stakes_reset [OF s assms(2,3)] by blast
  have "pool_stored B d p \<sigma>'"
    using stored r(3) pd_keys_not_stakes [of d M] by (simp add: pool_stored_def same_but_def)
  moreover have "agree (- below (pd_prefix d)) \<sigma> \<sigma>'"
    by (rule agree_trans [OF out])
       (rule agree_subset [OF r(3) [unfolded same_but_agree]], use stakes_keys_below in blast)
  ultimately show ?thesis using r(1,2) by (auto simp: dict_ok_def)
qed

lemma vp_ok_snoc:
  assumes V: "vp_ok B M V ps \<sigma>" and new: "operator p \<notin> (\<lambda>e. operator (fst e)) ` set ps"
    and addresses: "im_live pool_address_ops V (map (\<lambda>e. PoolAddress (operator (fst e))) (ps @ [(p, ss)])) \<sigma>'"
    and pool: "dict_ok B M (vp_dict V (operator p)) p ss \<sigma>'"
    and other: "\<And>b. b \<noteq> operator p \<Longrightarrow> agree (below (pd_prefix (vp_dict V b))) \<sigma> \<sigma>'"
  shows "vp_ok B M V (ps @ [(p, ss)]) \<sigma>'"
proof -
  have "dict_ok B M (vp_dict V (operator q)) q ts \<sigma>'" if "(q, ts) \<in> set ps" for q ts
  proof -
    have "operator q \<noteq> operator p" using new that by force
    then show ?thesis using vp_okD(2) [OF V that] by (intro dict_ok_agree(1) [OF other])
  qed
  moreover have "stakes_ok B M (vp_dict V b) [] \<sigma>'"
    if "b \<noteq> operator p" "b \<notin> (\<lambda>e. operator (fst e)) ` set ps" for b
    using vp_okD(3) [OF V that(2)] by (rule dict_ok_agree(3) [OF other [OF that(1)]])
  ultimately show ?thesis using addresses pool by (auto simp: vp_ok_def)
qed

lemma kv_vp_push:
  assumes V: "vp_ok B M V ps \<sigma>" and new: "operator p \<notin> (\<lambda>e. operator (fst e)) ` set ps"
    and room: "length ps < unat (capacity V)"
    and ss: "distinct (map (\<lambda>v. owner (inner_stake v)) ss)" "length ss < 2 ^ 32"
  shows "\<exists>\<sigma>'. vp_push kv_store B M V p ss \<sigma> = Some (Inr (), \<sigma>') \<and>
     vp_ok B M V (ps @ [(p, if length ss \<le> unat M then ss else [])]) \<sigma>' \<and>
     agree (- below (domain V)) \<sigma> \<sigma>'"
proof -
  let ?xs = "map (\<lambda>e. PoolAddress (operator (fst e))) ps" and ?a = "operator p"
  let ?d = "vp_dict V ?a"
  have fresh: "vkey pool_address_ops (PoolAddress ?a) \<notin> vkey pool_address_ops ` set ?xs"
    using new by (auto simp: image_iff)
  have "length ?xs < unat (capacity V)" using room by simp
  from pool_address.kv_live_push [OF vp_okD(1) [OF V] fresh this]
  obtain \<sigma>1 where 1: "im_push kv_store pool_address_ops V (PoolAddress ?a) \<sigma> = Some (Inr (), \<sigma>1)"
    "im_live pool_address_ops V (?xs @ [PoolAddress ?a]) \<sigma>1" "same_but (domain V) \<sigma> \<sigma>1"
    by blast
  have nested: "agree (below (pd_prefix (vp_dict V a))) \<sigma> \<sigma>1" for a
    by (rule agree_subset [OF 1(3) [unfolded same_but_agree]]) (use below_vp_disjoint(1) [of V a] in blast)
  have "stakes_ok B M ?d [] \<sigma>1"
    using vp_okD(3) [OF V new] by (rule dict_ok_agree(3) [OF nested])
  from kv_pool_write [OF this ss] obtain \<sigma>2 where 2: "do {
      (_, s) \<leftarrow> pd_set_operator kv_store ?d ?a \<sigma>1;
      (_, s) \<leftarrow> pd_set_power kv_store ?d (power p) s;
      (_, s) \<leftarrow> pd_set_commission_rate kv_store ?d (commission_rate p) s;
      (_, s) \<leftarrow> pd_set_operator_stake kv_store B ?d (operator_stake p) s;
      (_, s) \<leftarrow> im_reset kv_store (stake_value_ops B) (pd_delegated_stakes M ?d) ss s;
      Some (Inr () :: index_map_operation_error + unit, s)
    } = Some (Inr (), \<sigma>2)"
    "dict_ok B M ?d p (if length ss \<le> unat M then ss else []) \<sigma>2"
    "agree (- below (pd_prefix ?d)) \<sigma>1 \<sigma>2"
    by blast
  have "vp_pool kv_store V ?a \<sigma>1 = Some (Some ?d, \<sigma>1)"
    using kv_vp_pool [OF 1(2)] by simp
  then have push: "vp_push kv_store B M V p ss \<sigma> = Some (Inr (), \<sigma>2)"
    unfolding vp_push_def 1(1) using 2(1) by simp
  have addresses: "im_live pool_address_ops V (?xs @ [PoolAddress ?a]) \<sigma>2"
    by (rule im_live_agree [OF 1(2)], rule agree_subset [OF 2(3)]) (use below_vp_disjoint(1) in blast)
  have other: "agree (below (pd_prefix (vp_dict V b))) \<sigma> \<sigma>2" if "b \<noteq> ?a" for b
    by (rule agree_trans [OF nested], rule agree_subset [OF 2(3)])
       (use below_vp_disjoint(2) [OF that] in blast)
  have "vp_ok B M V (ps @ [(p, if length ss \<le> unat M then ss else [])]) \<sigma>2"
    by (rule vp_ok_snoc [OF V new _ 2(2) other]) (use addresses in simp_all)
  moreover have "agree (- below (domain V)) \<sigma> \<sigma>2"
    by (rule agree_trans [OF agree_subset [OF 1(3) [unfolded same_but_agree]] agree_subset [OF 2(3)]])
       (use below_self below_vp_dict in blast)+
  ultimately show ?thesis using push by blast
qed

text \<open>The loop of \<open>clear\<close>: the address map stays, the dictionaries of its pools go.\<close>

text \<open>One pool of the clearing: only the keys of its own dictionary change.\<close>

lemma kv_pool_cleared:
  assumes "stakes_ok B M (vp_dict V a) ss \<sigma>"
  shows "\<exists>\<sigma>1 \<sigma>2. im_clear kv_store (stake_value_ops B) (pd_delegated_stakes M (vp_dict V a)) \<sigma> = Some ((), \<sigma>1) \<and>
     pd_delete kv_store B M (vp_dict V a) \<sigma>1 = Some ((), \<sigma>2) \<and> dict_cleared B M (vp_dict V a) \<sigma>2 \<and>
     agree (- below (pd_prefix (vp_dict V a))) \<sigma> \<sigma>2"
proof -
  let ?d = "vp_dict V a"
  obtain \<sigma>1 where 1: "im_clear kv_store (stake_value_ops B) (pd_delegated_stakes M ?d) \<sigma> = Some ((), \<sigma>1)"
    "stakes_ok B M ?d [] \<sigma>1" "same_but (domain (pd_delegated_stakes M ?d)) \<sigma> \<sigma>1"
    using stake_value.kv_clear [OF assms] by blast
  obtain \<sigma>2 where 2: "pd_delete kv_store B M ?d \<sigma>1 = Some ((), \<sigma>2)" "dict_cleared B M ?d \<sigma>2"
    "agree (- below (pd_prefix ?d)) \<sigma>1 \<sigma>2"
    using kv_pd_delete [OF 1(2)] by blast
  have "agree (- below (pd_prefix ?d)) \<sigma> \<sigma>2"
    by (rule agree_trans [OF _ 2(3)], rule agree_subset [OF 1(3) [unfolded same_but_agree]])
       (use stakes_keys_below in blast)
  then show ?thesis using 1(1) 2(1,2) by blast
qed

lemma kv_vp_clear_all:
  assumes "i \<le> n" "n \<le> length xs" "im_live pool_address_ops V xs \<sigma>"
    and "\<And>a. \<exists>ss. stakes_ok B M (vp_dict V a) ss \<sigma>"
  shows "\<exists>\<sigma>'. vp_clear_all kv_store B M V (map of_nat [i..<n]) \<sigma> = Some ((), \<sigma>') \<and>
     (\<forall>j. i \<le> j \<longrightarrow> j < n \<longrightarrow> dict_cleared B M (vp_dict V (address_of (xs ! j))) \<sigma>') \<and>
     (\<forall>a. (\<forall>j. i \<le> j \<longrightarrow> j < n \<longrightarrow> address_of (xs ! j) \<noteq> a) \<longrightarrow>
        agree (below (pd_prefix (vp_dict V a))) \<sigma> \<sigma>') \<and>
     agree (im_keys (domain V)) \<sigma> \<sigma>' \<and> agree (- below (domain V)) \<sigma> \<sigma>'"
  using assms
proof (induction arbitrary: \<sigma> rule: inc_induct)
  case base
  then show ?case by auto
next
  case (step i)
  let ?a = "address_of (xs ! i)"
  let ?d = "vp_dict V ?a"
  have i: "i < length xs" using step.hyps step.prems(1) by simp
  obtain ss where ss: "stakes_ok B M ?d ss \<sigma>" using step.prems(3) by blast
  obtain \<sigma>1 \<sigma>2 where 1: "im_clear kv_store (stake_value_ops B) (pd_delegated_stakes M ?d) \<sigma> = Some ((), \<sigma>1)"
    and 2: "pd_delete kv_store B M ?d \<sigma>1 = Some ((), \<sigma>2)" "dict_cleared B M ?d \<sigma>2"
    and out: "agree (- below (pd_prefix ?d)) \<sigma> \<sigma>2"
    using kv_pool_cleared [OF ss] by blast
  have keys: "agree (im_keys (domain V)) \<sigma> \<sigma>2"
    by (rule agree_subset [OF out]) (use below_vp_disjoint(1) in blast)
  have other: "agree (below (pd_prefix (vp_dict V b))) \<sigma> \<sigma>2" if "b \<noteq> ?a" for b
    by (rule agree_subset [OF out]) (use below_vp_disjoint(2) [OF that] in blast)
  have "\<exists>ss. stakes_ok B M (vp_dict V b) ss \<sigma>2" for b
  proof (cases "b = ?a")
    case True
    then show ?thesis using 2(2) by (auto simp: dict_cleared_def)
  next
    case False
    then show ?thesis using step.prems(3) [of b] dict_ok_agree(3) [OF other] by blast
  qed
  from step.IH [OF step.prems(1) im_live_agree [OF step.prems(2) keys] this] obtain \<sigma>3 where
    3: "vp_clear_all kv_store B M V (map of_nat [Suc i..<n]) \<sigma>2 = Some ((), \<sigma>3)"
    "\<And>j. Suc i \<le> j \<Longrightarrow> j < n \<Longrightarrow> dict_cleared B M (vp_dict V (address_of (xs ! j))) \<sigma>3"
    "\<And>a. (\<forall>j. Suc i \<le> j \<longrightarrow> j < n \<longrightarrow> address_of (xs ! j) \<noteq> a) \<Longrightarrow>
        agree (below (pd_prefix (vp_dict V a))) \<sigma>2 \<sigma>3"
    "agree (im_keys (domain V)) \<sigma>2 \<sigma>3" "agree (- below (domain V)) \<sigma>2 \<sigma>3"
    by blast
  have outside: "agree (- below (domain V)) \<sigma> \<sigma>3"
    by (rule agree_trans [OF agree_subset [OF out] 3(5)]) (use below_vp_dict in blast)
  have run: "vp_clear_all kv_store B M V (map of_nat [i..<n]) \<sigma> = Some ((), \<sigma>3)"
    using step.hyps kv_vp_pool_at [OF step.prems(2) i] 1 2(1) 3(1)
    by (simp add: upt_conv_Cons del: upt_Suc)
  have cleared: "dict_cleared B M (vp_dict V (address_of (xs ! j))) \<sigma>3" if "i \<le> j" "j < n" for j
  proof (cases "\<exists>k. Suc i \<le> k \<and> k < n \<and> address_of (xs ! k) = address_of (xs ! j)")
    case True
    then show ?thesis using 3(2) by metis
  next
    case False
    then have "j = i" using that by (metis Suc_leI le_neq_implies_less)
    then show ?thesis using False 2(2) dict_ok_agree(2) [OF 3(3)] by metis
  qed
  have untouched: "agree (below (pd_prefix (vp_dict V a))) \<sigma> \<sigma>3"
    if "\<forall>j. i \<le> j \<longrightarrow> j < n \<longrightarrow> address_of (xs ! j) \<noteq> a" for a
  proof -
    have "a \<noteq> ?a" using that step.hyps by blast
    moreover have "agree (below (pd_prefix (vp_dict V a))) \<sigma>2 \<sigma>3"
      by (rule 3(3)) (use that in auto)
    ultimately show ?thesis using agree_trans [OF other] by blast
  qed
  show ?case
    using run cleared untouched agree_trans [OF keys 3(4)] outside by blast
qed

lemma kv_vp_clear:
  assumes V: "vp_ok B M V ps \<sigma>"
  shows "\<exists>\<sigma>'. vp_clear kv_store B M V \<sigma> = Some ((), \<sigma>') \<and> vp_ok B M V [] \<sigma>' \<and>
     (\<forall>(p, ss) \<in> set ps. dict_cleared B M (vp_dict V (operator p)) \<sigma>') \<and>
     agree (im_keys (domain V) - {key_len (domain V)}) \<sigma> \<sigma>' \<and>
     agree (- below (domain V)) \<sigma> \<sigma>'"
proof -
  let ?xs = "map (\<lambda>e. PoolAddress (operator (fst e))) ps" and ?L = "key_len (domain V)"
  have size: "length ps < 2 ^ 32"
    using vp_okD(1) [OF V] unat_capacity [of "capacity V"] by (simp add: im_live_def)
  have stakes: "\<exists>ss. stakes_ok B M (vp_dict V a) ss \<sigma>" for a
    using vp_okD(2,3) [OF V] by (cases "a \<in> (\<lambda>e. operator (fst e)) ` set ps") (force simp: dict_ok_def)+
  from kv_vp_clear_all [OF le0 order_refl vp_okD(1) [OF V] this] obtain \<sigma>1 where
    1: "vp_clear_all kv_store B M V (map of_nat [0..<length ps]) \<sigma> = Some ((), \<sigma>1)"
    "\<And>j. j < length ps \<Longrightarrow> dict_cleared B M (vp_dict V (operator (fst (ps ! j)))) \<sigma>1"
    "\<And>a. (\<forall>j < length ps. operator (fst (ps ! j)) \<noteq> a) \<Longrightarrow>
        agree (below (pd_prefix (vp_dict V a))) \<sigma> \<sigma>1"
    "agree (im_keys (domain V)) \<sigma> \<sigma>1" "agree (- below (domain V)) \<sigma> \<sigma>1"
    by auto
  let ?\<sigma> = "\<sigma>1(?L \<mapsto> u32_to_le 0)"
  have run: "vp_clear kv_store B M V \<sigma> = Some ((), ?\<sigma>)"
    using 1(1) size by (simp add: vp_clear_def vp_length_def kv_live_length [OF vp_okD(1) [OF V]]
        indices_def)
  have L: "agree (below (pd_prefix (vp_dict V a))) \<sigma>1 ?\<sigma>" for a
    using below_vp_disjoint(1) [of V a] by (auto simp: agree_def im_keys_def)
  have cleared: "dict_cleared B M (vp_dict V (operator p)) ?\<sigma>" if m: "(p, ss) \<in> set ps" for p ss
  proof -
    obtain j where "j < length ps" "ps ! j = (p, ss)" using m by (auto simp: in_set_conv_nth)
    then show ?thesis using 1(2) [of j] dict_ok_agree(2) [OF L] by simp
  qed
  have "stakes_ok B M (vp_dict V a) [] ?\<sigma>" for a
  proof (cases "a \<in> (\<lambda>e. operator (fst e)) ` set ps")
    case True
    then show ?thesis using cleared by (force simp: dict_cleared_def)
  next
    case False
    then have "agree (below (pd_prefix (vp_dict V a))) \<sigma> ?\<sigma>"
      by (intro agree_trans [OF 1(3) L]) (auto simp: image_iff)
    then show ?thesis using vp_okD(3) [OF V False] by (rule dict_ok_agree(3))
  qed
  then have "vp_ok B M V [] ?\<sigma>" by (simp add: vp_ok_def im_live_cleared)
  moreover have "agree (im_keys (domain V) - {?L}) \<sigma> ?\<sigma>" using 1(4) by (simp add: agree_def)
  moreover have "agree (- below (domain V)) \<sigma> ?\<sigma>"
    using 1(5) below_self [of "domain V"] by (auto simp: im_keys_def)
  ultimately show ?thesis using run cleared by blast
qed

end

section \<open>Properties\<close>

lemma pool_storeD:
  "pool_store N rep B \<Longrightarrow> network_account_storage N rep" "pool_store N rep B \<Longrightarrow> borsh_codec B"
  by (simp_all add: pool_store_def)

text \<open>
  Where a pool is stored, every getter of its dictionary returns the field of the pool,
  \<open>exists\<close> holds and the conversion gives the whole pool, without any change; every setter
  changes its own field and no other key.
\<close>

theorem pool_dict_fields:
  assumes P: "pool_store N rep B" and s: "rep s \<sigma>" and p: "pool_stored B d p \<sigma>"
  shows "(\<exists>s'. pd_exists N d s = Some (True, s') \<and> rep s' \<sigma>) \<and>
    (\<exists>s'. pd_operator N d s = Some (Some (operator p), s') \<and> rep s' \<sigma>) \<and>
    (\<exists>s'. pd_power N d s = Some (Some (power p), s') \<and> rep s' \<sigma>) \<and>
    (\<exists>s'. pd_commission_rate N d s = Some (Some (commission_rate p), s') \<and> rep s' \<sigma>) \<and>
    (\<exists>s'. pd_operator_stake N B d s = Some (Some (operator_stake p), s') \<and> rep s' \<sigma>) \<and>
    (\<exists>s'. pool_try_from N B d s = Some (Inr p, s') \<and> rep s' \<sigma>) \<and>
    (\<exists>s' b. pd_set_operator N d a s = Some ((), s') \<and> rep s' (\<sigma>(pd_operator_key d \<mapsto> b)) \<and>
       pool_stored B d (p\<lparr>operator := a\<rparr>) (\<sigma>(pd_operator_key d \<mapsto> b))) \<and>
    (\<exists>s' b. pd_set_power N d n s = Some ((), s') \<and> rep s' (\<sigma>(pd_power_key d \<mapsto> b)) \<and>
       pool_stored B d (p\<lparr>power := n\<rparr>) (\<sigma>(pd_power_key d \<mapsto> b))) \<and>
    (\<exists>s' b. pd_set_commission_rate N d r s = Some ((), s') \<and>
       rep s' (\<sigma>(pd_commission_rate_key d \<mapsto> b)) \<and>
       pool_stored B d (p\<lparr>commission_rate := r\<rparr>) (\<sigma>(pd_commission_rate_key d \<mapsto> b))) \<and>
    (\<exists>s' b. pd_set_operator_stake N B d x s = Some ((), s') \<and>
       rep s' (\<sigma>(pd_operator_stake_key d \<mapsto> b)) \<and>
       pool_stored B d (p\<lparr>operator_stake := x\<rparr>) (\<sigma>(pd_operator_stake_key d \<mapsto> b)))"
proof -
  note reads = borsh_codec.kv_pool_reads [OF pool_storeD(2) [OF P] p]
  have stored: "pool_stored B d (p\<lparr>operator := a\<rparr>) (\<sigma>(pd_operator_key d \<mapsto> b32_bytes a))"
    "pool_stored B d (p\<lparr>power := n\<rparr>) (\<sigma>(pd_power_key d \<mapsto> u64_to_le n))"
    "pool_stored B d (p\<lparr>commission_rate := r\<rparr>) (\<sigma>(pd_commission_rate_key d \<mapsto> u8_to_le r))"
    "pool_stored B d (p\<lparr>operator_stake := x\<rparr>) (\<sigma>(pd_operator_stake_key d \<mapsto> ser_stake_opt B x))"
    using p by (simp_all add: pool_stored_def)
  show ?thesis
    by (intro conjI simD [OF pool_store.sim_pd_exists [OF P] s reads(1)]
        simD [OF pool_store.sim_pd_operator [OF P] s reads(2)]
        simD [OF pool_store.sim_pd_power [OF P] s reads(3)]
        simD [OF pool_store.sim_pd_commission_rate [OF P] s reads(4)]
        simD [OF pool_store.sim_pd_operator_stake [OF P] s reads(5)]
        simD [OF pool_store.sim_pool_try_from [OF P] s reads(6)])
      (use simD [OF pool_store.sim_pd_set(1) [OF P] s kv_pd_sets(1)]
        simD [OF pool_store.sim_pd_set(2) [OF P] s kv_pd_sets(2)]
        simD [OF pool_store.sim_pd_set(3) [OF P] s kv_pd_sets(3)]
        simD [OF pool_store.sim_pd_set(4) [OF P] s kv_pd_sets(4)] stored in blast)+
qed

theorem pool_dict_fields_witness:
  "\<exists>\<sigma> s'. pool_try_from kv_store borsh_std \<lparr>pd_prefix = [3]\<rparr> \<sigma> =
     Some (Inr \<lparr>operator = b32_fill 1, commission_rate = 10, power = 500, operator_stake = None\<rparr>, s')"
proof -
  let ?d = "\<lparr>pd_prefix = [3]\<rparr>"
  let ?p = "\<lparr>operator = b32_fill 1, commission_rate = 10, power = 500, operator_stake = None\<rparr>"
  have "pool_stored borsh_std ?d ?p
      [pd_operator_key ?d \<mapsto> b32_bytes (b32_fill 1), pd_power_key ?d \<mapsto> u64_to_le 500,
       pd_commission_rate_key ?d \<mapsto> u8_to_le 10,
       pd_operator_stake_key ?d \<mapsto> ser_stake_opt borsh_std None]"
    by (simp add: pool_stored_def)
  then show ?thesis
    using pool_dict_fields [OF kv_std.pool_store_axioms refl] by blast
qed

text \<open>
  Writing the four fields of a dictionary stores the pool and keeps its delegated stakes;
  \<open>delete\<close> removes the fields and all delegated stakes, after which \<open>exists\<close> is false and the
  conversion fails.  Neither touches a key outside the prefix of the dictionary.
\<close>

theorem pool_dict_lifecycle:
  assumes P: "pool_store N rep B" and s: "rep s \<sigma>" and ss: "stakes_ok B M d ss \<sigma>"
  shows "(\<exists>s' \<sigma>'. do {
        (_, s) \<leftarrow> pd_set_operator N d (operator p) s;
        (_, s) \<leftarrow> pd_set_power N d (power p) s;
        (_, s) \<leftarrow> pd_set_commission_rate N d (commission_rate p) s;
        pd_set_operator_stake N B d (operator_stake p) s
      } = Some ((), s') \<and> rep s' \<sigma>' \<and> dict_ok B M d p ss \<sigma>' \<and> agree (- below (pd_prefix d)) \<sigma> \<sigma>') \<and>
    (\<exists>s' \<sigma>'. pd_delete N B M d s = Some ((), s') \<and> rep s' \<sigma>' \<and> dict_cleared B M d \<sigma>' \<and>
      agree (- below (pd_prefix d)) \<sigma> \<sigma>' \<and>
      (\<exists>s''. pd_exists N d s' = Some (False, s'')) \<and>
      (\<exists>s''. pool_try_from N B d s' = Some (Inl (), s'')))"
proof
  let ?\<sigma> = "\<sigma>(pd_operator_key d \<mapsto> b32_bytes (operator p), pd_power_key d \<mapsto> u64_to_le (power p),
    pd_commission_rate_key d \<mapsto> u8_to_le (commission_rate p),
    pd_operator_stake_key d \<mapsto> ser_stake_opt B (operator_stake p))"
  let ?f = "\<lambda>N s. do {
        (_, s) \<leftarrow> pd_set_operator N d (operator p) s;
        (_, s) \<leftarrow> pd_set_power N d (power p) s;
        (_, s) \<leftarrow> pd_set_commission_rate N d (commission_rate p) s;
        pd_set_operator_stake N B d (operator_stake p) s
      }"
  have sim: "sim rep (?f N) (?f kv_store)"
    by (intro sim_intros pool_store.sim_pd_set [OF P])
  have "?f kv_store \<sigma> = Some ((), ?\<sigma>)" by simp
  moreover have "dict_ok B M d p ss ?\<sigma>"
    using im_ok_agree [OF ss, of ?\<sigma>] by (simp add: dict_ok_def pool_stored_def pd_keys_not_stakes)
  moreover have "agree (- below (pd_prefix d)) \<sigma> ?\<sigma>" by (simp add: pd_keys_below)
  ultimately show "\<exists>s' \<sigma>'. ?f N s = Some ((), s') \<and> rep s' \<sigma>' \<and> dict_ok B M d p ss \<sigma>' \<and>
      agree (- below (pd_prefix d)) \<sigma> \<sigma>'"
    using simD [OF sim s] by blast
next
  obtain \<sigma>' where d: "pd_delete kv_store B M d \<sigma> = Some ((), \<sigma>')" "dict_cleared B M d \<sigma>'"
    "agree (- below (pd_prefix d)) \<sigma> \<sigma>'"
    using borsh_codec.kv_pd_delete [OF pool_storeD(2) [OF P] ss] by blast
  obtain s' where s': "pd_delete N B M d s = Some ((), s')" "rep s' \<sigma>'"
    using simD [OF pool_store.sim_pd_delete [OF P] s d(1)] by blast
  note absent = borsh_codec.kv_pool_absent [OF pool_storeD(2) [OF P] d(2)]
  show "\<exists>s' \<sigma>'. pd_delete N B M d s = Some ((), s') \<and> rep s' \<sigma>' \<and> dict_cleared B M d \<sigma>' \<and>
      agree (- below (pd_prefix d)) \<sigma> \<sigma>' \<and> (\<exists>s''. pd_exists N d s' = Some (False, s'')) \<and>
      (\<exists>s''. pool_try_from N B d s' = Some (Inl (), s''))"
    using s' d(2,3) simD [OF pool_store.sim_pd_exists [OF P] s'(2) absent(1)]
      simD [OF pool_store.sim_pool_try_from [OF P] s'(2) absent(2)] by blast
qed

lemma stakes_ok_empty: "stakes_ok B M d [] Map.empty"
  by (simp add: im_ok_def im_rep_empty)

theorem pool_dict_lifecycle_witness:
  "\<exists>s'. pd_delete kv_store borsh_std 128 \<lparr>pd_prefix = [3]\<rparr> Map.empty = Some ((), s') \<and>
     (\<exists>s''. pd_exists kv_store \<lparr>pd_prefix = [3]\<rparr> s' = Some (False, s''))"
  using pool_dict_lifecycle [OF kv_std.pool_store_axioms refl stakes_ok_empty] by blast

text \<open>
  A validator pool that holds the pools \<open>ps\<close> with their stakes answers every read from them:
  \<open>length\<close> is their number, \<open>get\<close> and \<open>pool_at\<close> go by the index, \<open>pool\<close> by the operator, the
  dictionary converts to the pool, and its heap holds the stakes.
\<close>

theorem vp_reads:
  assumes P: "pool_store N rep B" and s: "rep s \<sigma>" and V: "vp_ok B M V ps \<sigma>"
    and i: "i < length ps" "ps ! i = (p, ss)"
  shows "(\<exists>s'. vp_length N V s = Some (of_nat (length ps), s') \<and> rep s' \<sigma>) \<and>
    (\<exists>s'. vp_get N V (of_nat i) s = Some (Some (PoolAddress (operator p)), s') \<and> rep s' \<sigma>) \<and>
    (\<exists>s'. vp_pool N V (operator p) s = Some (Some (vp_dict V (operator p)), s') \<and> rep s' \<sigma>) \<and>
    (\<exists>s'. vp_pool_at N V (of_nat i) s = Some (Some (vp_dict V (operator p)), s') \<and> rep s' \<sigma>) \<and>
    (\<exists>s'. pool_try_from N B (vp_dict V (operator p)) s = Some (Inr p, s') \<and> rep s' \<sigma>) \<and>
    (\<exists>s'. im_get N (stake_value_ops B) (pd_delegated_stakes M (vp_dict V (operator p))) k s =
       Some (if unat k < length ss then Some (ss ! unat k) else None, s') \<and> rep s' \<sigma>)"
proof -
  let ?xs = "map (\<lambda>e. PoolAddress (operator (fst e))) ps" and ?d = "vp_dict V (operator p)"
  note A = vp_okD(1) [OF V] and B = pool_storeD(2) [OF P] and S = pool_storeD(1) [OF P]
  have m: "(p, ss) \<in> set ps" using i by (metis nth_mem)
  then have "PoolAddress (operator p) \<in> set ?xs" by force
  note pool = kv_vp_pool [OF A this]
  have D: "dict_ok B M ?d p ss \<sigma>" using vp_okD(2) [OF V m] .
  have get: "vp_get kv_store V (of_nat i) \<sigma> = Some (Some (PoolAddress (operator p)), \<sigma>)"
    using pool_address.kv_live_get [OF A, of i] i by (simp add: vp_get_def)
  have at: "vp_pool_at kv_store V (of_nat i) \<sigma> = Some (Some ?d, \<sigma>)"
    using kv_vp_pool_at [OF A, of i] i by simp
  have length: "vp_length kv_store V \<sigma> = Some (of_nat (length ps), \<sigma>)"
    using kv_live_length [OF A] by (simp add: vp_length_def)
  have stored: "pool_stored B ?d p \<sigma>" and stakes: "stakes_ok B M ?d ss \<sigma>"
    using D by (simp_all add: dict_ok_def)
  have stake: "im_get kv_store (stake_value_ops B) (pd_delegated_stakes M ?d) k \<sigma> =
      Some (if unat k < length ss then Some (ss ! unat k) else None, \<sigma>)"
    using keyed_value.kv_get [OF borsh_codec.stake_value_values [OF B] stakes, of "unat k"]
      kv_get_none [OF stakes, of k] by simp
  show ?thesis
    by (intro conjI simD [OF pool_store.sim_vp_length [OF P] s length]
        simD [OF pool_store.sim_vp_get [OF P] s get] simD [OF pool_store.sim_vp_pool [OF P] s pool]
        simD [OF pool_store.sim_vp_pool_at [OF P] s at]
        simD [OF pool_store.sim_pool_try_from [OF P] s borsh_codec.kv_pool_reads(6) [OF B stored]]
        simD [OF network_account_storage.sim_im_get [OF S] s stake])
qed

lemma vp_ok_empty: "vp_ok B M V [] Map.empty"
  by (simp add: vp_ok_def im_live_def stakes_ok_empty)

text \<open>A store that holds the one pool \<open>p\<close> without stakes.\<close>

lemma vp_ok_one:
  assumes "0 < unat (capacity V)"
  shows "\<exists>\<sigma>. vp_ok borsh_std M V [(p, [])] \<sigma>"
  using std.kv_vp_push [OF vp_ok_empty, of p V "[]" M] assms by auto

theorem vp_reads_witness:
  "\<exists>\<sigma> s'. pool_try_from kv_store borsh_std (vp_dict (vp_new 64 [1]) (b32_fill 1)) \<sigma> =
     Some (Inr \<lparr>operator = b32_fill 1, commission_rate = 10, power = 500, operator_stake = None\<rparr>, s')"
proof -
  let ?p = "\<lparr>operator = b32_fill 1, commission_rate = 10, power = 500, operator_stake = None\<rparr>"
  obtain \<sigma> where "vp_ok borsh_std 128 (vp_new 64 [1]) [(?p, [])] \<sigma>"
    using vp_ok_one [of "vp_new 64 [1]" 128 ?p] by (auto simp: vp_new_def im_new_def)
  from vp_reads [OF kv_std.pool_store_axioms refl this, of 0 ?p "[]"] show ?thesis by auto
qed

text \<open>
  C29: \<open>clear\<close> removes every pool and its stakes and sets the length to 0, so that pools can be
  pushed again; but the entries of the address map stay: \<open>get\<close> at an old index and \<open>pool\<close> of an
  old operator still answer, the latter with a dictionary whose conversion fails.
\<close>

theorem vp_clear_stale:
  assumes P: "pool_store N rep B" and s: "rep s \<sigma>" and V: "vp_ok B M V ps \<sigma>"
    and i: "i < length ps" "ps ! i = (p, ss)"
  shows "\<exists>s' \<sigma>'. vp_clear N B M V s = Some ((), s') \<and> rep s' \<sigma>' \<and> vp_ok B M V [] \<sigma>' \<and>
    (\<exists>s''. vp_length N V s' = Some (0, s'')) \<and>
    (\<exists>s''. vp_get N V (of_nat i) s' = Some (Some (PoolAddress (operator p)), s'')) \<and>
    (\<exists>s''. vp_pool N V (operator p) s' = Some (Some (vp_dict V (operator p)), s'')) \<and>
    (\<exists>s''. pool_try_from N B (vp_dict V (operator p)) s' = Some (Inl (), s'')) \<and>
    dict_cleared B M (vp_dict V (operator p)) \<sigma>'"
proof -
  let ?a = "operator p"
  have m: "(p, ss) \<in> set ps" using i by (metis nth_mem)
  obtain \<sigma>' where c: "vp_clear kv_store B M V \<sigma> = Some ((), \<sigma>')" "vp_ok B M V [] \<sigma>'"
    "dict_cleared B M (vp_dict V ?a) \<sigma>'" "agree (im_keys (domain V) - {key_len (domain V)}) \<sigma> \<sigma>'"
    using borsh_codec.kv_vp_clear [OF pool_storeD(2) [OF P] V] m by fastforce
  obtain s' where s': "vp_clear N B M V s = Some ((), s')" "rep s' \<sigma>'"
    using simD [OF pool_store.sim_vp_clear [OF P] s c(1)] by blast
  have cap: "i < unat (capacity V)" using vp_okD(1) [OF V] i by (simp add: im_live_def)
  have "\<sigma> (key_iv (domain V) (of_nat i)) = Some (vinto pool_address_ops (PoolAddress ?a))"
    "\<sigma> (key_ki (domain V) (b32_bytes ?a)) = Some (u32_to_le (of_nat i))"
    using vp_okD(1) [OF V] i by (auto simp: im_live_def)
  then have left: "\<sigma>' (key_iv (domain V) (of_nat i)) = Some (vinto pool_address_ops (PoolAddress ?a))"
    "\<sigma>' (key_ki (domain V) (b32_bytes ?a)) = Some (u32_to_le (of_nat i))"
    using c(4) by (simp_all add: agree_def im_keys_def)
  note get = pool_address.kv_get_raw [of \<sigma>' V i "PoolAddress ?a", OF left(1) cap]
  have "vp_length kv_store V \<sigma>' = Some (0, \<sigma>')"
    using kv_live_length [OF vp_okD(1) [OF c(2)]] by (simp add: vp_length_def)
  moreover have "vp_get kv_store V (of_nat i) \<sigma>' = Some (Some (PoolAddress ?a), \<sigma>')"
    using get by (simp add: vp_get_def)
  moreover have "vp_pool kv_store V ?a \<sigma>' = Some (Some (vp_dict V ?a), \<sigma>')"
    using get left(2) by (simp add: vp_pool_def im_get_by_def im_index_of_key_def)
  ultimately show ?thesis
    using s' c(2,3) borsh_codec.kv_pool_absent(2) [OF pool_storeD(2) [OF P] c(3)]
      simD [OF pool_store.sim_vp_length [OF P] s'(2)] simD [OF pool_store.sim_vp_get [OF P] s'(2)]
      simD [OF pool_store.sim_vp_pool [OF P] s'(2)] simD [OF pool_store.sim_pool_try_from [OF P] s'(2)]
    by metis
qed

theorem vp_clear_stale_witness:
  "\<exists>\<sigma> s' s''. vp_clear kv_store borsh_std 128 (vp_new 64 [1]) \<sigma> = Some ((), s') \<and>
     vp_get kv_store (vp_new 64 [1]) 0 s' = Some (Some (PoolAddress (b32_fill 1)), s'')"
proof -
  let ?p = "\<lparr>operator = b32_fill 1, commission_rate = 10, power = 500, operator_stake = None\<rparr>"
  obtain \<sigma> where "vp_ok borsh_std 128 (vp_new 64 [1]) [(?p, [])] \<sigma>"
    using vp_ok_one [of "vp_new 64 [1]" 128 ?p] by (auto simp: vp_new_def im_new_def)
  from vp_clear_stale [OF kv_std.pool_store_axioms refl this, of 0 ?p "[]"] show ?thesis by auto
qed

end
