(* ===== verification/Deposit.thy ===== *)
theory Deposit
  imports Nas
begin

text \<open>
  Deposits (\<open>deposit.rs\<close>): the dictionary that lays out the balance and the reward flag of one
  deposit under a prefix, its operations on any lawful store, and what the store holds.
\<close>

section \<open>The dictionary of one deposit\<close>

record deposit =
  balance :: u64
  auto_stake_rewards :: bool

record deposit_dict =
  dd_prefix :: bytes

text \<open>The module \<open>deposit_data\<close>.\<close>

definition deposit_data_balance :: bytes where "deposit_data_balance = [0]"
definition deposit_data_auto_stake_rewards :: bytes where "deposit_data_auto_stake_rewards = [1]"

lemmas deposit_data [simp] = deposit_data_balance_def deposit_data_auto_stake_rewards_def

definition dd_balance_key :: "deposit_dict \<Rightarrow> bytes" where
  "dd_balance_key d = dd_prefix d @ deposit_data_balance"

definition dd_auto_stake_rewards_key :: "deposit_dict \<Rightarrow> bytes" where
  "dd_auto_stake_rewards_key d = dd_prefix d @ deposit_data_auto_stake_rewards"

definition dd_exists :: "'s nas \<Rightarrow> deposit_dict \<Rightarrow> 's \<Rightarrow> (bool \<times> 's) option" where
  "dd_exists N d s = nas_contains N s (dd_balance_key d)"

definition dd_balance :: "'s nas \<Rightarrow> deposit_dict \<Rightarrow> 's \<Rightarrow> (u64 option \<times> 's) option" where
  "dd_balance N d s = do {
     (b, s) \<leftarrow> nas_get N s (dd_balance_key d);
     case b of None \<Rightarrow> Some (None, s) | Some b \<Rightarrow> Some (u64_from_le b, s)
   }"

definition dd_set_balance :: "'s nas \<Rightarrow> deposit_dict \<Rightarrow> u64 \<Rightarrow> 's \<Rightarrow> (unit \<times> 's) option" where
  "dd_set_balance N d n s = nas_set N s (dd_balance_key d) (u64_to_le n)"

definition dd_auto_stake_rewards :: "'s nas \<Rightarrow> deposit_dict \<Rightarrow> 's \<Rightarrow> (bool option \<times> 's) option" where
  "dd_auto_stake_rewards N d s = do {
     (b, s) \<leftarrow> nas_get N s (dd_auto_stake_rewards_key d);
     Some (map_option (\<lambda>bytes. bytes = [1]) b, s)
   }"

definition dd_set_auto_stake_rewards :: "'s nas \<Rightarrow> deposit_dict \<Rightarrow> bool \<Rightarrow> 's \<Rightarrow> (unit \<times> 's) option" where
  "dd_set_auto_stake_rewards N d a s =
     nas_set N s (dd_auto_stake_rewards_key d) (if a then [1] else [0])"

definition dd_delete :: "'s nas \<Rightarrow> deposit_dict \<Rightarrow> 's \<Rightarrow> (unit \<times> 's) option" where
  "dd_delete N d s = do {
     (_, s) \<leftarrow> nas_delete N s (dd_balance_key d);
     (_, s) \<leftarrow> nas_delete N s (dd_auto_stake_rewards_key d);
     Some ((), s)
   }"

section \<open>On every lawful store\<close>

context network_account_storage
begin

lemma sim_dd [sim_intros]:
  "sim rep (dd_exists N d) (dd_exists kv_store d)"
  "sim rep (dd_balance N d) (dd_balance kv_store d)"
  "sim rep (dd_set_balance N d n) (dd_set_balance kv_store d n)"
  "sim rep (dd_auto_stake_rewards N d) (dd_auto_stake_rewards kv_store d)"
  "sim rep (dd_set_auto_stake_rewards N d a) (dd_set_auto_stake_rewards kv_store d a)"
  "sim rep (dd_delete N d) (dd_delete kv_store d)"
  unfolding dd_exists_def dd_balance_def dd_set_balance_def dd_auto_stake_rewards_def
    dd_set_auto_stake_rewards_def dd_delete_def
  by (intro sim_intros sim_store; simp)+

end

section \<open>What the store holds\<close>

text \<open>The two fields are written one by one, so either can be absent.\<close>

definition deposit_stored ::
    "deposit_dict \<Rightarrow> u64 option \<Rightarrow> bool option \<Rightarrow> bytes bytemap \<Rightarrow> bool" where
  "deposit_stored d bal auto \<sigma> \<longleftrightarrow>
     \<sigma> (dd_balance_key d) = map_option u64_to_le bal \<and>
     \<sigma> (dd_auto_stake_rewards_key d) = map_option (\<lambda>a. if a then [1] else [0]) auto"

lemma dd_keys_distinct [simp]:
  "dd_balance_key d \<noteq> dd_auto_stake_rewards_key d" "dd_auto_stake_rewards_key d \<noteq> dd_balance_key d"
  by (simp_all add: dd_balance_key_def dd_auto_stake_rewards_key_def)

lemma kv_dd_reads:
  assumes "deposit_stored d bal auto \<sigma>"
  shows "dd_exists kv_store d \<sigma> = Some (bal \<noteq> None, \<sigma>)"
    and "dd_balance kv_store d \<sigma> = Some (bal, \<sigma>)"
    and "dd_auto_stake_rewards kv_store d \<sigma> = Some (auto, \<sigma>)"
  using assms
  by (cases bal; cases auto; simp add: deposit_stored_def dd_exists_def dd_balance_def
      dd_auto_stake_rewards_def)+

lemma kv_dd_writes [simp]:
  "dd_set_balance kv_store d n \<sigma> = Some ((), \<sigma>(dd_balance_key d \<mapsto> u64_to_le n))"
  "dd_set_auto_stake_rewards kv_store d a \<sigma> =
     Some ((), \<sigma>(dd_auto_stake_rewards_key d \<mapsto> if a then [1] else [0]))"
  "dd_delete kv_store d \<sigma> =
     Some ((), \<sigma>(dd_balance_key d := None, dd_auto_stake_rewards_key d := None))"
  by (simp_all add: dd_set_balance_def dd_set_auto_stake_rewards_def dd_delete_def)

lemma deposit_stored_writes:
  assumes "deposit_stored d bal auto \<sigma>"
  shows "deposit_stored d (Some n) auto (\<sigma>(dd_balance_key d \<mapsto> u64_to_le n))"
    and "deposit_stored d bal (Some a) (\<sigma>(dd_auto_stake_rewards_key d \<mapsto> if a then [1] else [0]))"
    and "deposit_stored d None None
      (\<sigma>(dd_balance_key d := None, dd_auto_stake_rewards_key d := None))"
  using assms by (simp_all add: deposit_stored_def)

end
