(* ===== verification/Network_Account.thy ===== *)
theory Network_Account
  imports Pool Deposit
begin

text \<open>
  The network account (\<open>network_account.rs\<close>, \<open>constants.rs\<close>): the six regions of its storage
  and the operations that give access to them.  \<open>network\<close> is what the storage represents as
  one record; every operation on one region updates one field of it (\<open>network_step\<close>).
\<close>

section \<open>The parts of the account\<close>

definition network_address :: b32 where "network_address = b32_fill 0"

definition max_stakes_per_pool :: u16 where "max_stakes_per_pool = 128"

definition max_validator_set_size :: u16 where "max_validator_set_size = 64"

definition prev_validator_pools :: bytes where "prev_validator_pools = [0]"
definition validator_pools :: bytes where "validator_pools = [1]"
definition next_validator_pools :: bytes where "next_validator_pools = [2]"
definition pools_prefix :: bytes where "pools_prefix = [3]"
definition deposits_prefix :: bytes where "deposits_prefix = [4]"
definition current_epoch_key :: bytes where "current_epoch_key = [5]"

lemmas network_account_data = prev_validator_pools_def validator_pools_def next_validator_pools_def
  pools_prefix_def deposits_prefix_def current_epoch_key_def

definition na_pvp :: "u16 \<Rightarrow> index_map" where
  "na_pvp n = vp_new n prev_validator_pools"

definition na_vp :: "u16 \<Rightarrow> index_map" where
  "na_vp n = vp_new n validator_pools"

definition na_nvp :: "u16 \<Rightarrow> index_map" where
  "na_nvp n = ih_new next_validator_pools (ucast n)"

definition na_pools :: "b32 \<Rightarrow> pool_dict" where
  "na_pools op = \<lparr>pd_prefix = pools_prefix @ b32_bytes op\<rparr>"

definition na_deposits :: "b32 \<Rightarrow> b32 \<Rightarrow> deposit_dict" where
  "na_deposits op own = \<lparr>dd_prefix = deposits_prefix @ b32_bytes op @ b32_bytes own\<rparr>"

text \<open>An epoch that is not 8 bytes long panics.\<close>

definition na_current_epoch :: "'s nas \<Rightarrow> 's \<Rightarrow> (u64 \<times> 's) option" where
  "na_current_epoch N s = do {
     (value, s) \<leftarrow> nas_get N s current_epoch_key;
     case value of
       Some b \<Rightarrow> do { e \<leftarrow> u64_from_le b; Some (e, s) }
     | None \<Rightarrow> Some (0, s)
   }"

definition na_set_current_epoch :: "'s nas \<Rightarrow> u64 \<Rightarrow> 's \<Rightarrow> (unit \<times> 's) option" where
  "na_set_current_epoch N e s = nas_set N s current_epoch_key (u64_to_le e)"

context network_account_storage
begin

lemma sim_na_epoch [sim_intros]:
  "sim rep (na_current_epoch N) (na_current_epoch kv_store)"
  "sim rep (na_set_current_epoch N e) (na_set_current_epoch kv_store e)"
  unfolding na_current_epoch_def na_set_current_epoch_def by (intro sim_intros sim_store; simp)+

end

section \<open>Regions\<close>

datatype region = PrevValidators | Validators | NextValidators | PoolOf b32 | DepositOf b32 b32 | Epoch

fun region_keys :: "region \<Rightarrow> bytes set" where
  "region_keys PrevValidators = below prev_validator_pools"
| "region_keys Validators = below validator_pools"
| "region_keys NextValidators = below next_validator_pools"
| "region_keys (PoolOf op) = below (pools_prefix @ b32_bytes op)"
| "region_keys (DepositOf op own) = below (deposits_prefix @ b32_bytes op @ b32_bytes own)"
| "region_keys Epoch = below current_epoch_key"

lemma regions_disjoint: "r \<noteq> r' \<Longrightarrow> region_keys r \<inter> region_keys r' = {}"
  by (cases r; cases r') (auto simp: below_def network_account_data)

text \<open>What the storage of the account represents.\<close>

record network =
  n_pvp :: "(pool \<times> stake_value list) list"
  n_vp :: "(pool \<times> stake_value list) list"
  n_nvp :: "pool_key multiset"
  n_pools :: "b32 \<Rightarrow> (pool \<times> stake_value multiset) option"
  n_deposits :: "b32 \<Rightarrow> b32 \<Rightarrow> u64 option \<times> bool option"
  n_epoch :: u64

abbreviation stakes_heap :: "borsh_lib \<Rightarrow> u16 \<Rightarrow> pool_dict \<Rightarrow> stake_value list \<Rightarrow> bytes bytemap \<Rightarrow> bool" where
  "stakes_heap B M d \<equiv> ih_ok (stake_value_ops B) (\<lambda>v. stake_power (inner_stake v)) (pd_delegated_stakes M d)"

fun region_ok :: "borsh_lib \<Rightarrow> u16 \<Rightarrow> u16 \<Rightarrow> network \<Rightarrow> bytes bytemap \<Rightarrow> region \<Rightarrow> bool" where
  "region_ok B n M A \<sigma> PrevValidators = vp_ok B M (na_pvp n) (n_pvp A) \<sigma>"
| "region_ok B n M A \<sigma> Validators = vp_ok B M (na_vp n) (n_vp A) \<sigma>"
| "region_ok B n M A \<sigma> NextValidators =
     (\<exists>xs. ih_ok (pool_key_ops B) id (na_nvp n) xs \<sigma> \<and> mset xs = n_nvp A)"
| "region_ok B n M A \<sigma> (PoolOf op) =
     (case n_pools A op of
        None \<Rightarrow> dict_cleared B M (na_pools op) \<sigma>
      | Some (p, S) \<Rightarrow> pool_stored B (na_pools op) p \<sigma> \<and>
          (\<exists>ss. stakes_heap B M (na_pools op) ss \<sigma> \<and> mset ss = S))"
| "region_ok B n M A \<sigma> (DepositOf op own) =
     (case n_deposits A op own of (bal, auto) \<Rightarrow> deposit_stored (na_deposits op own) bal auto \<sigma>)"
| "region_ok B n M A \<sigma> Epoch =
     (\<sigma> current_epoch_key = Some (u64_to_le (n_epoch A)) \<or>
      n_epoch A = 0 \<and> \<sigma> current_epoch_key = None)"

definition network_ok :: "borsh_lib \<Rightarrow> u16 \<Rightarrow> u16 \<Rightarrow> network \<Rightarrow> bytes bytemap \<Rightarrow> bool" where
  "network_ok B n M A \<sigma> \<longleftrightarrow> (\<forall>r. region_ok B n M A \<sigma> r)"

lemma domain_vp_new [simp]: "domain (vp_new n d) = d"
  by (simp add: vp_new_def im_new_def)

lemma domain_ih_new [simp]: "domain (ih_new d c) = d"
  by (simp add: ih_new_def im_new_def)

lemma vp_ok_agree:
  assumes "vp_ok B M V ps \<sigma>" "agree (below (domain V)) \<sigma> \<sigma>'"
  shows "vp_ok B M V ps \<sigma>'"
proof -
  have "agree (below (pd_prefix (vp_dict V a))) \<sigma> \<sigma>'" for a
    using assms(2) below_vp_dict by (rule agree_subset)
  moreover have "agree (im_keys (domain V)) \<sigma> \<sigma>'" using assms(2) below_self by (rule agree_subset)
  ultimately show ?thesis
    using assms(1) dict_ok_agree(1,3) unfolding vp_ok_def by (fast intro: im_live_agree)
qed

lemma ih_ok_agree:
  "ih_ok P prio m xs \<sigma> \<Longrightarrow> agree (im_keys (domain m)) \<sigma> \<sigma>' \<Longrightarrow> ih_ok P prio m xs \<sigma>'"
  using im_ok_agree by (auto simp: ih_ok_def)

lemma region_ok_agree:
  assumes "region_ok B n M A \<sigma> r" "agree (region_keys r) \<sigma> \<sigma>'"
  shows "region_ok B n M A \<sigma>' r"
proof (cases r)
  case PrevValidators
  then show ?thesis using assms by (auto simp: na_pvp_def intro: vp_ok_agree)
next
  case Validators
  then show ?thesis using assms by (auto simp: na_vp_def intro: vp_ok_agree)
next
  case NextValidators
  then have "agree (im_keys (domain (na_nvp n))) \<sigma> \<sigma>'"
    using agree_subset [OF assms(2)] below_self by (simp add: na_nvp_def)
  then show ?thesis using assms(1) ih_ok_agree NextValidators by fastforce
next
  case (PoolOf op)
  let ?d = "na_pools op"
  have a: "agree (below (pd_prefix ?d)) \<sigma> \<sigma>'" using assms(2) PoolOf by (simp add: na_pools_def)
  have k: "agree (im_keys (domain (pd_delegated_stakes M ?d))) \<sigma> \<sigma>'"
    using agree_subset [OF a stakes_keys_below] .
  have s: "pool_stored B ?d p \<sigma> \<Longrightarrow> pool_stored B ?d p \<sigma>'" for p
    using a pd_keys_below [of ?d] by (simp add: pool_stored_def agree_def)
  show ?thesis
    using assms(1) PoolOf s dict_ok_agree(2) [OF a] ih_ok_agree [OF _ k]
    by (auto split: option.splits) blast
next
  case (DepositOf op own)
  let ?d = "na_deposits op own"
  have "dd_balance_key ?d \<in> region_keys r" "dd_auto_stake_rewards_key ?d \<in> region_keys r"
    using DepositOf by (auto simp: na_deposits_def dd_balance_key_def dd_auto_stake_rewards_key_def below_def)
  then show ?thesis
    using assms DepositOf by (auto simp: deposit_stored_def agree_def split: prod.splits)
next
  case Epoch
  have "current_epoch_key \<in> below current_epoch_key"
    unfolding below_def by (rule range_eqI [of _ _ "[]"]) simp
  then show ?thesis using assms Epoch by (simp add: agree_def)
qed

text \<open>A change inside one region changes what that region represents, and nothing else.\<close>

lemma network_step:
  assumes "network_ok B n M A \<sigma>" "agree (- region_keys r) \<sigma> \<sigma>'" "region_ok B n M A' \<sigma>' r"
    and "\<And>r'. r' \<noteq> r \<Longrightarrow> region_ok B n M A \<sigma>' r' \<Longrightarrow> region_ok B n M A' \<sigma>' r'"
  shows "network_ok B n M A' \<sigma>'"
  unfolding network_ok_def
proof
  fix r'
  show "region_ok B n M A' \<sigma>' r'"
  proof (cases "r' = r")
    case False
    then have "agree (region_keys r') \<sigma> \<sigma>'"
      using agree_subset [OF assms(2)] regions_disjoint by blast
    then have "region_ok B n M A \<sigma>' r'"
      using assms(1) region_ok_agree unfolding network_ok_def by blast
    then show ?thesis using assms(4) [OF False] by blast
  qed (use assms(3) in simp)
qed

text \<open>The store of the account represents the network \<open>A\<close>.\<close>

definition represents ::
    "('s \<Rightarrow> bytes bytemap \<Rightarrow> bool) \<Rightarrow> borsh_lib \<Rightarrow> u16 \<Rightarrow> u16 \<Rightarrow> network \<Rightarrow> 's \<Rightarrow> bool" where
  "represents rep B n M A s \<longleftrightarrow> (\<exists>\<sigma>. rep s \<sigma> \<and> network_ok B n M A \<sigma>)"

lemma representsE:
  assumes "represents rep B n M A s"
  obtains \<sigma> where "rep s \<sigma>" "network_ok B n M A \<sigma>"
  using assms by (auto simp: represents_def)

lemma represents_read:
  assumes "sim rep f g" "rep s \<sigma>" "network_ok B n M A \<sigma>" "g \<sigma> = Some (a, \<sigma>)"
  shows "\<exists>s'. f s = Some (a, s') \<and> represents rep B n M A s'"
  using simD [OF assms(1,2,4)] assms(3) by (auto simp: represents_def)

lemma represents_step:
  assumes "sim rep f g" "rep s \<sigma>" "network_ok B n M A \<sigma>" "g \<sigma> = Some (a, \<sigma>')"
    and "agree (- region_keys r) \<sigma> \<sigma>'" "region_ok B n M A' \<sigma>' r"
    and "\<And>r'. r' \<noteq> r \<Longrightarrow> region_ok B n M A \<sigma>' r' \<Longrightarrow> region_ok B n M A' \<sigma>' r'"
  shows "\<exists>s'. f s = Some (a, s') \<and> represents rep B n M A' s'"
  using simD [OF assms(1,2,4)] network_step [OF assms(3,5,6,7)] by (auto simp: represents_def)

lemma agree_write: "k \<in> R \<Longrightarrow> agree (- R) \<sigma> (\<sigma>(k := b))"
  by (simp add: agree_def)

lemma region_ok_frame [simp]:
  "region_ok B n M (A\<lparr>n_vp := ps\<rparr>) \<sigma> r \<longleftrightarrow> region_ok B n M A \<sigma> r" if "r \<noteq> Validators"
  using that by (cases r) simp_all

lemma region_ok_frame' [simp]:
  "r \<noteq> PrevValidators \<Longrightarrow> region_ok B n M (A\<lparr>n_pvp := ps\<rparr>) \<sigma> r \<longleftrightarrow> region_ok B n M A \<sigma> r"
  "r \<noteq> NextValidators \<Longrightarrow> region_ok B n M (A\<lparr>n_nvp := ks\<rparr>) \<sigma> r \<longleftrightarrow> region_ok B n M A \<sigma> r"
  "r \<noteq> PoolOf op \<Longrightarrow> region_ok B n M (A\<lparr>n_pools := (n_pools A)(op := x)\<rparr>) \<sigma> r \<longleftrightarrow> region_ok B n M A \<sigma> r"
  "r \<noteq> DepositOf op own \<Longrightarrow> region_ok B n M
     (A\<lparr>n_deposits := (n_deposits A)(op := (n_deposits A op)(own := y))\<rparr>) \<sigma> r \<longleftrightarrow> region_ok B n M A \<sigma> r"
  "r \<noteq> Epoch \<Longrightarrow> region_ok B n M (A\<lparr>n_epoch := e\<rparr>) \<sigma> r \<longleftrightarrow> region_ok B n M A \<sigma> r"
  by (cases r; auto)+

text \<open>An empty store represents the empty network.\<close>

definition empty_network :: network where
  "empty_network = \<lparr>n_pvp = [], n_vp = [], n_nvp = {#}, n_pools = (\<lambda>_. None),
     n_deposits = (\<lambda>_ _. (None, None)), n_epoch = 0\<rparr>"

lemma capacity_small: "unat (ucast (n :: u16) :: u32) < 2147483648"
proof -
  have "unat n < 2 ^ 16" using unsigned_less [of n] by simp
  then show ?thesis unfolding capacity_u16 by simp
qed

lemma im_ok_none: "im_ok P m [] Map.empty"
  by (simp add: im_ok_def im_rep_empty)

lemma network_ok_empty: "network_ok B n M empty_network Map.empty"
  unfolding network_ok_def
proof
  fix r
  show "region_ok B n M empty_network Map.empty r"
    by (cases r) (simp_all add: empty_network_def vp_ok_empty na_nvp_def ih_ok_def im_ok_none
        ih_new_def im_new_def capacity_small dict_cleared_def deposit_stored_def)
qed

lemma represents_empty: "represents (=) B n M empty_network Map.empty"
  using network_ok_empty by (simp add: represents_def)

section \<open>Deposits and the epoch\<close>

lemma deposits_and_epoch_ok:
  fixes op own :: b32
  assumes S: "network_account_storage N rep" and A: "represents rep B n M A s"
  defines "d \<equiv> na_deposits op own" and "D \<equiv> n_deposits A op own"
    and "put \<equiv> \<lambda>x. A\<lparr>n_deposits := (n_deposits A)(op := (n_deposits A op)(own := x))\<rparr>"
  shows "(\<exists>s'. na_current_epoch N s = Some (n_epoch A, s') \<and> represents rep B n M A s') \<and>
    (\<exists>s'. na_set_current_epoch N e s = Some ((), s') \<and> represents rep B n M (A\<lparr>n_epoch := e\<rparr>) s') \<and>
    (\<exists>s'. dd_exists N d s = Some (fst D \<noteq> None, s') \<and> represents rep B n M A s') \<and>
    (\<exists>s'. dd_balance N d s = Some (fst D, s') \<and> represents rep B n M A s') \<and>
    (\<exists>s'. dd_auto_stake_rewards N d s = Some (snd D, s') \<and> represents rep B n M A s') \<and>
    (\<exists>s'. dd_set_balance N d x s = Some ((), s') \<and> represents rep B n M (put (Some x, snd D)) s') \<and>
    (\<exists>s'. dd_set_auto_stake_rewards N d a s = Some ((), s') \<and>
       represents rep B n M (put (fst D, Some a)) s') \<and>
    (\<exists>s'. dd_delete N d s = Some ((), s') \<and> represents rep B n M (put (None, None)) s')"
proof -
  obtain \<sigma> where s: "rep s \<sigma>" and ok: "network_ok B n M A \<sigma>" using A by (rule representsE)
  note r = ok [unfolded network_ok_def, rule_format]
  have D: "deposit_stored d (fst D) (snd D) \<sigma>"
    using r [of "DepositOf op own"] by (simp add: d_def D_def split_beta)
  note reads = kv_dd_reads [OF D] and writes = deposit_stored_writes [OF D]
    and sims = network_account_storage.sim_dd [OF S]
  have keys: "dd_balance_key d \<in> region_keys (DepositOf op own)"
    "dd_auto_stake_rewards_key d \<in> region_keys (DepositOf op own)"
    by (auto simp: d_def na_deposits_def dd_balance_key_def dd_auto_stake_rewards_key_def below_def)
  have epoch: "current_epoch_key \<in> region_keys Epoch"
    by (simp add: below_def)
  have get: "na_current_epoch kv_store \<sigma> = Some (n_epoch A, \<sigma>)"
    using r [of Epoch] by (auto simp: na_current_epoch_def)
  have set: "na_set_current_epoch kv_store e \<sigma> = Some ((), \<sigma>(current_epoch_key \<mapsto> u64_to_le e))"
    by (simp add: na_set_current_epoch_def)
  show ?thesis
  proof (intro conjI)
    show "\<exists>s'. na_set_current_epoch N e s = Some ((), s') \<and> represents rep B n M (A\<lparr>n_epoch := e\<rparr>) s'"
      by (rule represents_step [OF network_account_storage.sim_na_epoch(2) [OF S] s ok set
            agree_write [OF epoch]]) simp_all
    show "\<exists>s'. dd_set_balance N d x s = Some ((), s') \<and> represents rep B n M (put (Some x, snd D)) s'"
      by (rule represents_step [OF sims(3) s ok kv_dd_writes(1) agree_write [OF keys(1)]])
        (use writes(1) in \<open>simp_all add: put_def d_def\<close>)
    show "\<exists>s'. dd_set_auto_stake_rewards N d a s = Some ((), s') \<and>
        represents rep B n M (put (fst D, Some a)) s'"
      by (rule represents_step [OF sims(5) s ok kv_dd_writes(2) agree_write [OF keys(2)]])
        (use writes(2) in \<open>simp_all add: put_def d_def\<close>)
    show "\<exists>s'. dd_delete N d s = Some ((), s') \<and> represents rep B n M (put (None, None)) s'"
      by (rule represents_step [OF sims(6) s ok kv_dd_writes(3)
            agree_trans [OF agree_write [OF keys(1)] agree_write [OF keys(2)]]])
        (use writes(3) in \<open>simp_all add: put_def d_def\<close>)
  qed (rule represents_read [OF network_account_storage.sim_na_epoch(1) [OF S] s ok get]
      represents_read [OF sims(1) s ok reads(1)] represents_read [OF sims(2) s ok reads(2)]
      represents_read [OF sims(4) s ok reads(3)])+
qed

text \<open>
  C12: The epoch and the deposits of the network account read back what was last written: the
  getters answer from the represented network, and each setter and \<open>delete\<close> updates the one
  epoch or the one deposit it is called on and keeps everything else in the account.
\<close>

theorem network_deposits_and_epoch:
  fixes op own :: b32
  assumes S: "network_account_storage N rep" and A: "represents rep B n M A s"
  defines "d \<equiv> na_deposits op own" and "D \<equiv> n_deposits A op own"
    and "put \<equiv> \<lambda>x. A\<lparr>n_deposits := (n_deposits A)(op := (n_deposits A op)(own := x))\<rparr>"
  shows "(\<exists>s'. na_current_epoch N s = Some (n_epoch A, s') \<and> represents rep B n M A s') \<and>
    (\<exists>s'. na_set_current_epoch N e s = Some ((), s') \<and> represents rep B n M (A\<lparr>n_epoch := e\<rparr>) s') \<and>
    (\<exists>s'. dd_exists N d s = Some (fst D \<noteq> None, s') \<and> represents rep B n M A s') \<and>
    (\<exists>s'. dd_balance N d s = Some (fst D, s') \<and> represents rep B n M A s') \<and>
    (\<exists>s'. dd_auto_stake_rewards N d s = Some (snd D, s') \<and> represents rep B n M A s') \<and>
    (\<exists>s'. dd_set_balance N d x s = Some ((), s') \<and> represents rep B n M (put (Some x, snd D)) s') \<and>
    (\<exists>s'. dd_set_auto_stake_rewards N d a s = Some ((), s') \<and>
       represents rep B n M (put (fst D, Some a)) s') \<and>
    (\<exists>s'. dd_delete N d s = Some ((), s') \<and> represents rep B n M (put (None, None)) s')"
  unfolding assms(3-5) by (rule deposits_and_epoch_ok [OF S A])

theorem network_deposits_and_epoch_witness:
  "\<exists>s'. dd_set_balance kv_store (na_deposits (b32_fill 1) (b32_fill 2)) 77 Map.empty = Some ((), s')"
  using network_deposits_and_epoch [OF kv.network_account_storage_axioms represents_empty,
      where op = "b32_fill 1" and own = "b32_fill 2"] by blast

section \<open>The validator pools\<close>

lemma na_capacity:
  "unat (capacity (na_vp n)) = unat n" "unat (capacity (na_pvp n)) = unat n"
  "unat (capacity (na_nvp n)) = unat n"
  by (simp_all add: na_vp_def na_pvp_def na_nvp_def vp_new_def ih_new_def im_new_def capacity_u16)

text \<open>
  Both validator pools are handled alike: \<open>put\<close> replaces the list of the region \<open>r\<close> that the
  validator pool \<open>V\<close> lives in.
\<close>

text \<open>A full list refuses every pool, with any stakes.\<close>

lemma represents_vp_push_full:
  assumes P: "pool_store N rep B" and s: "rep s \<sigma>" and ok: "network_ok B n M A \<sigma>"
    and V: "vp_ok B M V ps \<sigma>" and full: "length ps \<ge> unat (capacity V)"
  shows "\<exists>s'. vp_push N B M V p ss s = Some (Inl IndexMapOperationError, s') \<and> represents rep B n M A s'"
proof -
  have "length ps = unat (capacity V)" using full vp_okD(1) [OF V] by (simp add: im_live_def)
  then have "vp_push kv_store B M V p ss \<sigma> = Some (Inl IndexMapOperationError, \<sigma>)"
    using pool_address.kv_live_push_full [OF vp_okD(1) [OF V]] by (simp add: vp_push_def)
  from represents_read [OF pool_store.sim_vp_push [OF P] s ok this] show ?thesis .
qed

lemma represents_vp_push:
  assumes P: "pool_store N rep B" and s: "rep s \<sigma>" and ok: "network_ok B n M A \<sigma>"
    and V: "vp_ok B M V ps \<sigma>" and r: "region_keys r = below (domain V)"
    and put: "\<And>ps' \<sigma>. vp_ok B M V ps' \<sigma> \<Longrightarrow> region_ok B n M (put ps') \<sigma> r"
    and frame: "\<And>ps' \<sigma> r'. r' \<noteq> r \<Longrightarrow> region_ok B n M A \<sigma> r' \<Longrightarrow> region_ok B n M (put ps') \<sigma> r'"
    and p: "operator p \<notin> (\<lambda>e. operator (fst e)) ` set ps"
    and ss: "distinct (map (\<lambda>v. owner (inner_stake v)) ss)" "length ss < 2 ^ 32"
  shows "if length ps < unat (capacity V)
    then \<exists>s'. vp_push N B M V p ss s = Some (Inr (), s') \<and>
      represents rep B n M (put (ps @ [(p, if length ss \<le> unat M then ss else [])])) s'
    else \<exists>s'. vp_push N B M V p ss s = Some (Inl IndexMapOperationError, s') \<and> represents rep B n M A s'"
proof (cases "length ps < unat (capacity V)")
  case True
  obtain \<sigma>' where g: "vp_push kv_store B M V p ss \<sigma> = Some (Inr (), \<sigma>')"
    "vp_ok B M V (ps @ [(p, if length ss \<le> unat M then ss else [])]) \<sigma>'"
    "agree (- below (domain V)) \<sigma> \<sigma>'"
    using borsh_codec.kv_vp_push [OF pool_storeD(2) [OF P] V p True ss] by blast
  show ?thesis
    unfolding if_P [OF True]
    by (rule represents_step [OF pool_store.sim_vp_push [OF P] s ok g(1) g(3) [folded r] put [OF g(2)]])
      (rule frame)
next
  case False
  then show ?thesis using represents_vp_push_full [OF P s ok V] by simp
qed

lemma represents_vp_clear:
  assumes P: "pool_store N rep B" and s: "rep s \<sigma>" and ok: "network_ok B n M A \<sigma>"
    and V: "vp_ok B M V ps \<sigma>" and r: "region_keys r = below (domain V)"
    and put: "\<And>ps' \<sigma>. vp_ok B M V ps' \<sigma> \<Longrightarrow> region_ok B n M (put ps') \<sigma> r"
    and frame: "\<And>ps' \<sigma> r'. r' \<noteq> r \<Longrightarrow> region_ok B n M A \<sigma> r' \<Longrightarrow> region_ok B n M (put ps') \<sigma> r'"
  shows "\<exists>s'. vp_clear N B M V s = Some ((), s') \<and> represents rep B n M (put []) s'"
proof -
  obtain \<sigma>' where g: "vp_clear kv_store B M V \<sigma> = Some ((), \<sigma>')" "vp_ok B M V [] \<sigma>'"
    "agree (- below (domain V)) \<sigma> \<sigma>'"
    using borsh_codec.kv_vp_clear [OF pool_storeD(2) [OF P] V] by blast
  show ?thesis
    by (rule represents_step [OF pool_store.sim_vp_clear [OF P] s ok g(1) g(3) [folded r] put [OF g(2)]])
      (rule frame)
qed

lemma validators_push:
  assumes P: "pool_store N rep B" and A: "represents rep B n M A s"
    and ss: "distinct (map (\<lambda>v. owner (inner_stake v)) ss)" "length ss < 2 ^ 32"
  shows "operator p \<notin> (\<lambda>e. operator (fst e)) ` set (n_vp A) \<Longrightarrow>
      if length (n_vp A) < unat n
      then \<exists>s'. vp_push N B M (na_vp n) p ss s = Some (Inr (), s') \<and> represents rep B n M
        (A\<lparr>n_vp := n_vp A @ [(p, if length ss \<le> unat M then ss else [])]\<rparr>) s'
      else \<exists>s'. vp_push N B M (na_vp n) p ss s = Some (Inl IndexMapOperationError, s') \<and>
        represents rep B n M A s'"
    and "operator p \<notin> (\<lambda>e. operator (fst e)) ` set (n_pvp A) \<Longrightarrow>
      if length (n_pvp A) < unat n
      then \<exists>s'. vp_push N B M (na_pvp n) p ss s = Some (Inr (), s') \<and> represents rep B n M
        (A\<lparr>n_pvp := n_pvp A @ [(p, if length ss \<le> unat M then ss else [])]\<rparr>) s'
      else \<exists>s'. vp_push N B M (na_pvp n) p ss s = Some (Inl IndexMapOperationError, s') \<and>
        represents rep B n M A s'"
    and "\<exists>s'. vp_clear N B M (na_vp n) s = Some ((), s') \<and> represents rep B n M (A\<lparr>n_vp := []\<rparr>) s'"
    and "\<exists>s'. vp_clear N B M (na_pvp n) s = Some ((), s') \<and> represents rep B n M (A\<lparr>n_pvp := []\<rparr>) s'"
proof -
  obtain \<sigma> where s: "rep s \<sigma>" and ok: "network_ok B n M A \<sigma>" using A by (rule representsE)
  note r = ok [unfolded network_ok_def, rule_format]
  have V: "vp_ok B M (na_vp n) (n_vp A) \<sigma>" using r [of Validators] by simp
  have W: "vp_ok B M (na_pvp n) (n_pvp A) \<sigma>" using r [of PrevValidators] by simp
  have d: "region_keys Validators = below (domain (na_vp n))"
    "region_keys PrevValidators = below (domain (na_pvp n))"
    by (simp_all add: na_vp_def na_pvp_def)
  note push = represents_vp_push [where put = "\<lambda>ps. A\<lparr>n_vp := ps\<rparr>", OF P s ok V d(1) _ _ _ ss, unfolded na_capacity]
    represents_vp_push [where put = "\<lambda>ps. A\<lparr>n_pvp := ps\<rparr>", OF P s ok W d(2) _ _ _ ss, unfolded na_capacity]
  show "operator p \<notin> (\<lambda>e. operator (fst e)) ` set (n_vp A) \<Longrightarrow>
      if length (n_vp A) < unat n
      then \<exists>s'. vp_push N B M (na_vp n) p ss s = Some (Inr (), s') \<and> represents rep B n M
        (A\<lparr>n_vp := n_vp A @ [(p, if length ss \<le> unat M then ss else [])]\<rparr>) s'
      else \<exists>s'. vp_push N B M (na_vp n) p ss s = Some (Inl IndexMapOperationError, s') \<and>
        represents rep B n M A s'"
    by (rule push(1)) simp_all
  show "operator p \<notin> (\<lambda>e. operator (fst e)) ` set (n_pvp A) \<Longrightarrow>
      if length (n_pvp A) < unat n
      then \<exists>s'. vp_push N B M (na_pvp n) p ss s = Some (Inr (), s') \<and> represents rep B n M
        (A\<lparr>n_pvp := n_pvp A @ [(p, if length ss \<le> unat M then ss else [])]\<rparr>) s'
      else \<exists>s'. vp_push N B M (na_pvp n) p ss s = Some (Inl IndexMapOperationError, s') \<and>
        represents rep B n M A s'"
    by (rule push(2)) simp_all
  show "\<exists>s'. vp_clear N B M (na_vp n) s = Some ((), s') \<and> represents rep B n M (A\<lparr>n_vp := []\<rparr>) s'"
    by (rule represents_vp_clear [where put = "\<lambda>ps. A\<lparr>n_vp := ps\<rparr>", OF P s ok V d(1)]) simp_all
  show "\<exists>s'. vp_clear N B M (na_pvp n) s = Some ((), s') \<and> represents rep B n M (A\<lparr>n_pvp := []\<rparr>) s'"
    by (rule represents_vp_clear [where put = "\<lambda>ps. A\<lparr>n_pvp := ps\<rparr>", OF P s ok W d(2)]) simp_all
qed

lemma validators_full:
  assumes P: "pool_store N rep B" and A: "represents rep B n M A s"
  shows "length (n_vp A) \<ge> unat n \<Longrightarrow>
      \<exists>s'. vp_push N B M (na_vp n) p ss s = Some (Inl IndexMapOperationError, s') \<and> represents rep B n M A s'"
    and "length (n_pvp A) \<ge> unat n \<Longrightarrow>
      \<exists>s'. vp_push N B M (na_pvp n) p ss s = Some (Inl IndexMapOperationError, s') \<and> represents rep B n M A s'"
proof -
  obtain \<sigma> where s: "rep s \<sigma>" and ok: "network_ok B n M A \<sigma>" using A by (rule representsE)
  note r = ok [unfolded network_ok_def, rule_format]
  have V: "vp_ok B M (na_vp n) (n_vp A) \<sigma>" using r [of Validators] by simp
  have W: "vp_ok B M (na_pvp n) (n_pvp A) \<sigma>" using r [of PrevValidators] by simp
  show "length (n_vp A) \<ge> unat n \<Longrightarrow>
      \<exists>s'. vp_push N B M (na_vp n) p ss s = Some (Inl IndexMapOperationError, s') \<and> represents rep B n M A s'"
    by (rule represents_vp_push_full [OF P s ok V]) (simp add: na_capacity)
  show "length (n_pvp A) \<ge> unat n \<Longrightarrow>
      \<exists>s'. vp_push N B M (na_pvp n) p ss s = Some (Inl IndexMapOperationError, s') \<and> represents rep B n M A s'"
    by (rule represents_vp_push_full [OF P s ok W]) (simp add: na_capacity)
qed

text \<open>Stakes that one \<open>push\<close> can store: of different owners, and a number that fits a \<open>u32\<close>.\<close>

abbreviation proper_stakes :: "stake_value list \<Rightarrow> bool" where
  "proper_stakes ss \<equiv> distinct (map (\<lambda>v. owner (inner_stake v)) ss) \<and> length ss < 2 ^ 32"

text \<open>
  C9: In the network account the previous and the current validator pools are two lists of
  pools with their stakes.  When a list has fewer than \<open>n\<close> pools and none of the pushed operator,
  whatever the other list holds, \<open>push\<close> appends the pool to it, with the given stakes of different
  owners when there are at most \<open>M\<close> of them and without any stake when there are more (but fewer
  than \<open>2^32\<close>), and returns \<open>Ok\<close> in both cases.  A list of \<open>n\<close> pools refuses every push with an
  error and stays the same.  \<open>clear\<close> empties the list it is called on.  None of them changes the
  other list, the next validators, the pools, the deposits or the epoch.
\<close>

theorem network_validators:
  assumes P: "pool_store N rep B" and A: "represents rep B n M A s"
  shows "(length (n_vp A) < unat n \<and> operator p \<notin> (\<lambda>e. operator (fst e)) ` set (n_vp A) \<and> proper_stakes ss \<longrightarrow>
      (\<exists>s'. vp_push N B M (na_vp n) p ss s = Some (Inr (), s') \<and> represents rep B n M
        (A\<lparr>n_vp := n_vp A @ [(p, if length ss \<le> unat M then ss else [])]\<rparr>) s')) \<and>
    (length (n_vp A) \<ge> unat n \<longrightarrow>
      (\<exists>s'. vp_push N B M (na_vp n) p ss s = Some (Inl IndexMapOperationError, s') \<and> represents rep B n M A s')) \<and>
    (length (n_pvp A) < unat n \<and> operator p \<notin> (\<lambda>e. operator (fst e)) ` set (n_pvp A) \<and> proper_stakes ss \<longrightarrow>
      (\<exists>s'. vp_push N B M (na_pvp n) p ss s = Some (Inr (), s') \<and> represents rep B n M
        (A\<lparr>n_pvp := n_pvp A @ [(p, if length ss \<le> unat M then ss else [])]\<rparr>) s')) \<and>
    (length (n_pvp A) \<ge> unat n \<longrightarrow>
      (\<exists>s'. vp_push N B M (na_pvp n) p ss s = Some (Inl IndexMapOperationError, s') \<and> represents rep B n M A s')) \<and>
    (\<exists>s'. vp_clear N B M (na_vp n) s = Some ((), s') \<and> represents rep B n M (A\<lparr>n_vp := []\<rparr>) s') \<and>
    (\<exists>s'. vp_clear N B M (na_pvp n) s = Some ((), s') \<and> represents rep B n M (A\<lparr>n_pvp := []\<rparr>) s')"
proof (intro conjI impI)
  show "\<exists>s'. vp_push N B M (na_vp n) p ss s = Some (Inr (), s') \<and> represents rep B n M
      (A\<lparr>n_vp := n_vp A @ [(p, if length ss \<le> unat M then ss else [])]\<rparr>) s'"
    if "length (n_vp A) < unat n \<and> operator p \<notin> (\<lambda>e. operator (fst e)) ` set (n_vp A) \<and> proper_stakes ss"
    using validators_push(1) [OF P A, of ss p] that by simp
  show "\<exists>s'. vp_push N B M (na_pvp n) p ss s = Some (Inr (), s') \<and> represents rep B n M
      (A\<lparr>n_pvp := n_pvp A @ [(p, if length ss \<le> unat M then ss else [])]\<rparr>) s'"
    if "length (n_pvp A) < unat n \<and> operator p \<notin> (\<lambda>e. operator (fst e)) ` set (n_pvp A) \<and> proper_stakes ss"
    using validators_push(2) [OF P A, of ss p] that by simp
qed (rule validators_full [OF P A] validators_push(3,4) [OF P A, of "[]"]; simp)+

text \<open>The same pool is pushed to the current and then to the previous validators, as the tests do.\<close>

theorem network_validators_witness:
  "\<exists>s s'. vp_push kv_store borsh_std max_stakes_per_pool (na_vp max_validator_set_size)
     \<lparr>operator = b32_fill 1, commission_rate = 10, power = 500, operator_stake = None\<rparr>
     [StakeValue (Stake (b32_fill 2) 7)] Map.empty = Some (Inr (), s) \<and>
   vp_push kv_store borsh_std max_stakes_per_pool (na_pvp max_validator_set_size)
     \<lparr>operator = b32_fill 1, commission_rate = 10, power = 500, operator_stake = None\<rparr> [] s = Some (Inr (), s')"
proof -
  let ?p = "\<lparr>operator = b32_fill 1, commission_rate = 10, power = 500, operator_stake = None\<rparr> :: pool"
  let ?ss = "[StakeValue (Stake (b32_fill 2) 7)]"
  let ?n = max_validator_set_size and ?M = max_stakes_per_pool
  have n: "0 < unat ?n" by (simp add: max_validator_set_size_def)
  note V = network_validators [OF kv_std.pool_store_axioms]
  obtain s where s: "vp_push kv_store borsh_std ?M (na_vp ?n) ?p ?ss Map.empty = Some (Inr (), s)"
    "represents (=) borsh_std ?n ?M
      (empty_network\<lparr>n_vp := [(?p, if length ?ss \<le> unat ?M then ?ss else [])]\<rparr>) s"
    using V [OF represents_empty, of ?n ?p ?ss ?M, THEN conjunct1] n by (auto simp: empty_network_def)
  obtain s' where "vp_push kv_store borsh_std ?M (na_pvp ?n) ?p [] s = Some (Inr (), s')"
    using V [OF s(2), of ?p "[]", THEN conjunct2, THEN conjunct2, THEN conjunct1] n
    by (auto simp: empty_network_def)
  with s(1) show ?thesis by blast
qed

section \<open>The next validators\<close>

lemma mset_remove_key:
  assumes "distinct (map f xs)" "x \<in> set xs"
  shows "mset xs - {#x#} = filter_mset (\<lambda>y. f y \<noteq> f x) (mset xs)"
proof -
  obtain ys zs where xs: "xs = ys @ x # zs" using assms(2) by (auto simp: in_set_conv_decomp)
  have "filter (\<lambda>y. f y \<noteq> f x) ys = ys" "filter (\<lambda>y. f y \<noteq> f x) zs = zs"
    using assms(1) unfolding xs by (auto simp: filter_id_conv image_iff)
  then show ?thesis unfolding xs by (simp flip: mset_filter)
qed

text \<open>A step on the heap of a region; \<open>put\<close> sets the values that the region represents.\<close>

lemma represents_heap_step:
  assumes "sim rep f g" "rep s \<sigma>" "network_ok B n M A \<sigma>" "g \<sigma> = Some (a, \<sigma>')"
    and "ih_ok (pool_key_ops B) id (na_nvp n) zs \<sigma>'" "same_but (domain (na_nvp n)) \<sigma> \<sigma>'"
    and "mset zs = Z"
  shows "\<exists>s'. f s = Some (a, s') \<and> represents rep B n M (A\<lparr>n_nvp := Z\<rparr>) s'"
proof -
  have "agree (- region_keys NextValidators) \<sigma> \<sigma>'"
    using assms(6) agree_subset below_self unfolding same_but_agree
    by (metis Compl_anti_mono domain_ih_new na_nvp_def region_keys.simps(3))
  then show ?thesis
    by (rule represents_step [OF assms(1-4)]) (use assms(5,7) in auto)
qed

abbreviation other_keys :: "b32 \<Rightarrow> pool_key multiset \<Rightarrow> pool_key multiset" where
  "other_keys op K \<equiv> filter_mset (\<lambda>l. operator_of l \<noteq> op) K"

context pool_store
begin

lemma nvp_keys:
  assumes "ih_ok (pool_key_ops B) id m xs \<sigma>"
  shows "vkey (pool_key_ops B) ` set xs = b32_bytes ` operator_of ` set xs"
    and "x \<in> set xs \<Longrightarrow> mset xs - {#x#} = other_keys (operator_of x) (mset xs)"
proof -
  have eq: "map (vkey (pool_key_ops B)) xs = map (b32_bytes \<circ> operator_of) xs" by simp
  have "distinct (map (b32_bytes \<circ> operator_of) xs)"
    using im_rep_distinct [OF ih_okD(2) [OF assms]] unfolding eq .
  then have "distinct (map operator_of xs)" by (simp add: distinct_map inj_on_def)
  then show "x \<in> set xs \<Longrightarrow> mset xs - {#x#} = other_keys (operator_of x) (mset xs)"
    by (rule mset_remove_key)
qed (auto simp: image_image)

lemma nvpE:
  assumes "represents rep B n M A s"
  obtains \<sigma> xs where "rep s \<sigma>" "network_ok B n M A \<sigma>" "ih_ok (pool_key_ops B) id (na_nvp n) xs \<sigma>"
    "mset xs = n_nvp A"
proof -
  obtain \<sigma> where s: "rep s \<sigma>" "network_ok B n M A \<sigma>" using assms by (rule representsE)
  then obtain xs where "ih_ok (pool_key_ops B) id (na_nvp n) xs \<sigma>" "mset xs = n_nvp A"
    using s(2) [unfolded network_ok_def, rule_format, of NextValidators] by auto
  with s show ?thesis by (rule that)
qed

lemma nvp_extract:
  assumes "represents rep B n M A s"
  shows "if n_nvp A = {#}
      then \<exists>s'. ih_extract N (pool_key_ops B) (na_nvp n) s = Some (None, s') \<and> represents rep B n M A s'
      else \<exists>l s'. ih_extract N (pool_key_ops B) (na_nvp n) s = Some (Some l, s') \<and>
        l \<in># n_nvp A \<and> (\<forall>l' \<in># n_nvp A. l \<le> l') \<and>
        represents rep B n M (A\<lparr>n_nvp := n_nvp A - {#l#}\<rparr>) s'"
proof -
  obtain \<sigma> xs where s: "rep s \<sigma>" "network_ok B n M A \<sigma>"
    and xs: "ih_ok (pool_key_ops B) id (na_nvp n) xs \<sigma>" and K: "mset xs = n_nvp A"
    using assms by (rule nvpE)
  show ?thesis
  proof (cases "xs = []")
    case True
    have "im_ok (pool_key_ops B) (na_nvp n) [] \<sigma>" using ih_okD(1) [OF xs] True by simp
    from represents_read [OF pool_keys.sim_ih_extract s pool_key.kv_extract_empty [OF this]]
    show ?thesis using True K by simp
  next
    case False
    then obtain \<sigma>' zs where z: "ih_extract kv_store (pool_key_ops B) (na_nvp n) \<sigma> = Some (Some (xs ! 0), \<sigma>')"
      "ih_ok (pool_key_ops B) id (na_nvp n) zs \<sigma>'" "mset zs = mset xs - {#xs ! 0#}"
      "same_but (domain (na_nvp n)) \<sigma> \<sigma>'"
      using pool_key.kv_extract [OF xs False] by blast
    have "xs ! 0 \<in># n_nvp A" "\<forall>l' \<in># n_nvp A. xs ! 0 \<le> l'" "n_nvp A \<noteq> {#}"
      using heap_min_set [OF ih_okD(3) [OF xs]] False K by (auto simp flip: K)
    then show ?thesis
      using represents_heap_step [OF pool_keys.sim_ih_extract s z(1,2,4,3)] K by auto
  qed
qed

lemma nvp_insert:
  assumes "represents rep B n M A s" and new: "operator_of k \<notin> operator_of ` set_mset (n_nvp A)"
  shows "if size (n_nvp A) < unat n
      then \<exists>s'. ih_insert N (pool_key_ops B) (na_nvp n) k s = Some (Inr (), s') \<and>
        represents rep B n M (A\<lparr>n_nvp := add_mset k (n_nvp A)\<rparr>) s'
      else \<exists>s'. ih_insert N (pool_key_ops B) (na_nvp n) k s = Some (Inl IndexHeapOperationError, s') \<and>
        represents rep B n M A s'"
proof -
  obtain \<sigma> xs where s: "rep s \<sigma>" "network_ok B n M A \<sigma>"
    and xs: "ih_ok (pool_key_ops B) id (na_nvp n) xs \<sigma>" and K: "mset xs = n_nvp A"
    using assms(1) by (rule nvpE)
  have size: "length xs = size (n_nvp A)" "unat (capacity (na_nvp n)) = unat n"
    by (simp_all add: na_capacity flip: K)
  show ?thesis
  proof (cases "length xs < unat (capacity (na_nvp n))")
    case True
    have "vkey (pool_key_ops B) k \<notin> vkey (pool_key_ops B) ` set xs"
      unfolding nvp_keys(1) [OF xs] using new by (auto simp flip: K)
    then obtain \<sigma>' zs where z: "ih_insert kv_store (pool_key_ops B) (na_nvp n) k \<sigma> = Some (Inr (), \<sigma>')"
      "ih_ok (pool_key_ops B) id (na_nvp n) zs \<sigma>'" "mset zs = add_mset k (mset xs)"
      "same_but (domain (na_nvp n)) \<sigma> \<sigma>'"
      using pool_key.kv_insert [OF xs _ True] by blast
    then show ?thesis
      using represents_heap_step [OF pool_keys.sim_ih_insert s z(1,2,4,3)] True K size by simp
  next
    case False
    then have "length xs = unat (capacity (na_nvp n))" using ih_okD(5) [OF xs] by simp
    from represents_read [OF pool_keys.sim_ih_insert s pool_key.kv_insert_full [OF ih_okD(1) [OF xs] this]]
    show ?thesis using False size by simp
  qed
qed

lemma nvp_remove_item:
  assumes "represents rep B n M A s"
  shows "\<exists>s'. ih_remove_item N (pool_key_ops B) (na_nvp n) (b32_bytes op) s = Some ((), s') \<and>
     represents rep B n M (A\<lparr>n_nvp := other_keys op (n_nvp A)\<rparr>) s'"
proof -
  obtain \<sigma> xs where s: "rep s \<sigma>" "network_ok B n M A \<sigma>"
    and xs: "ih_ok (pool_key_ops B) id (na_nvp n) xs \<sigma>" and K: "mset xs = n_nvp A"
    using assms by (rule nvpE)
  show ?thesis
  proof (cases "op \<in> operator_of ` set xs")
    case True
    then obtain j where j: "j < length xs" "op = operator_of (xs ! j)" by (auto simp: in_set_conv_nth)
    obtain \<sigma>' zs where z: "ih_remove_item kv_store (pool_key_ops B) (na_nvp n)
        (vkey (pool_key_ops B) (xs ! j)) \<sigma> = Some ((), \<sigma>')"
      "ih_ok (pool_key_ops B) id (na_nvp n) zs \<sigma>'" "mset zs = mset xs - {#xs ! j#}"
      "same_but (domain (na_nvp n)) \<sigma> \<sigma>'"
      using pool_key.kv_remove_item [OF xs j(1)] by blast
    then show ?thesis
      using represents_heap_step [OF pool_keys.sim_ih_remove_item s z(1,2,4,3)]
        nvp_keys(2) [OF xs, of "xs ! j"] j K by simp
  next
    case False
    then have "other_keys op (n_nvp A) = n_nvp A" by (auto simp: filter_mset_eq_conv simp flip: K)
    moreover have "b32_bytes op \<notin> vkey (pool_key_ops B) ` set xs"
      unfolding nvp_keys(1) [OF xs] using False by auto
    ultimately show ?thesis
      using represents_read [OF pool_keys.sim_ih_remove_item s pool_key.kv_remove_none [OF ih_okD(1) [OF xs]]]
      by simp
  qed
qed

lemma nvp_change_key:
  assumes "represents rep B n M A s"
  shows "\<exists>s'. ih_change_key N (pool_key_ops B) (na_nvp n) k s = Some ((), s') \<and>
     represents rep B n M (A\<lparr>n_nvp := if operator_of k \<in> operator_of ` set_mset (n_nvp A)
       then add_mset k (other_keys (operator_of k) (n_nvp A)) else n_nvp A\<rparr>) s'"
proof -
  obtain \<sigma> xs where s: "rep s \<sigma>" "network_ok B n M A \<sigma>"
    and xs: "ih_ok (pool_key_ops B) id (na_nvp n) xs \<sigma>" and K: "mset xs = n_nvp A"
    using assms by (rule nvpE)
  show ?thesis
  proof (cases "operator_of k \<in> operator_of ` set xs")
    case True
    then obtain j where j: "j < length xs" "operator_of k = operator_of (xs ! j)"
      by (auto simp: in_set_conv_nth)
    then have "vkey (pool_key_ops B) k = vkey (pool_key_ops B) (xs ! j)" by simp
    then obtain \<sigma>' zs where z: "ih_change_key kv_store (pool_key_ops B) (na_nvp n) k \<sigma> = Some ((), \<sigma>')"
      "ih_ok (pool_key_ops B) id (na_nvp n) zs \<sigma>'"
      "mset zs = (if id k = id (xs ! j) then mset xs else add_mset k (mset xs - {#xs ! j#}))"
      "same_but (domain (na_nvp n)) \<sigma> \<sigma>'"
      using pool_key.kv_change_key [OF xs j(1)] by blast
    have "mset xs = add_mset (xs ! j) (mset xs - {#xs ! j#})" using j(1) by simp
    then have "mset zs = add_mset k (other_keys (operator_of k) (n_nvp A))"
      using z(3) nvp_keys(2) [OF xs, of "xs ! j"] j K by auto
    from represents_heap_step [OF pool_keys.sim_ih_change_key s z(1,2,4) this]
    show ?thesis using True by (simp flip: K)
  next
    case False
    then have "vkey (pool_key_ops B) k \<notin> vkey (pool_key_ops B) ` set xs"
      unfolding nvp_keys(1) [OF xs] by auto
    from represents_read [OF pool_keys.sim_ih_change_key s
        pool_key.kv_change_key_none [OF ih_okD(1) [OF xs] this]]
    moreover have "operator_of k \<notin> operator_of ` set_mset (n_nvp A)" using False by (simp flip: K)
    ultimately show ?thesis by simp
  qed
qed

end

text \<open>
  C10: In the network account the next validators are a set of pool keys: \<open>extract\<close> takes the
  least one out, \<open>insert\<close> adds a key of a new operator up to the size parameter,
  \<open>remove_item\<close> removes the key of an operator and \<open>change_key\<close> replaces it if there is one;
  none of them changes anything else in the account.
\<close>

theorem network_next_validators:
  assumes P: "pool_store N rep B" and A: "represents rep B n M A s"
    and new: "operator_of l \<notin> operator_of ` set_mset (n_nvp A)"
  shows "(if n_nvp A = {#}
      then \<exists>s'. ih_extract N (pool_key_ops B) (na_nvp n) s = Some (None, s') \<and> represents rep B n M A s'
      else \<exists>l s'. ih_extract N (pool_key_ops B) (na_nvp n) s = Some (Some l, s') \<and>
        l \<in># n_nvp A \<and> (\<forall>l' \<in># n_nvp A. l \<le> l') \<and>
        represents rep B n M (A\<lparr>n_nvp := n_nvp A - {#l#}\<rparr>) s') \<and>
    (if size (n_nvp A) < unat n
      then \<exists>s'. ih_insert N (pool_key_ops B) (na_nvp n) l s = Some (Inr (), s') \<and>
        represents rep B n M (A\<lparr>n_nvp := add_mset l (n_nvp A)\<rparr>) s'
      else \<exists>s'. ih_insert N (pool_key_ops B) (na_nvp n) l s = Some (Inl IndexHeapOperationError, s') \<and>
        represents rep B n M A s') \<and>
    (\<exists>s'. ih_remove_item N (pool_key_ops B) (na_nvp n) (b32_bytes op) s = Some ((), s') \<and>
       represents rep B n M (A\<lparr>n_nvp := other_keys op (n_nvp A)\<rparr>) s') \<and>
    (\<exists>s'. ih_change_key N (pool_key_ops B) (na_nvp n) k s = Some ((), s') \<and>
       represents rep B n M (A\<lparr>n_nvp := if operator_of k \<in> operator_of ` set_mset (n_nvp A)
         then add_mset k (other_keys (operator_of k) (n_nvp A)) else n_nvp A\<rparr>) s')"
  by (intro conjI pool_store.nvp_extract [OF P A] pool_store.nvp_insert [OF P A new]
      pool_store.nvp_remove_item [OF P A] pool_store.nvp_change_key [OF P A])

theorem network_next_validators_witness:
  "\<exists>s'. ih_insert kv_store (pool_key_ops borsh_std) (na_nvp max_validator_set_size)
     (PoolKey (b32_fill 1) 500) Map.empty = Some (Inr (), s')"
  using network_next_validators [OF kv_std.pool_store_axioms represents_empty,
      of "PoolKey (b32_fill 1) 500" max_validator_set_size, THEN conjunct2, THEN conjunct1]
  by (auto simp: empty_network_def max_validator_set_size_def)

section \<open>The pools\<close>

lemma na_pools_region: "region_keys (PoolOf op) = below (pd_prefix (na_pools op))"
  by (simp add: na_pools_def)

text \<open>A step on one pool.\<close>

lemma represents_pool_step:
  assumes "sim rep f g" "rep s \<sigma>" "network_ok B n M A \<sigma>" "g \<sigma> = Some (a, \<sigma>')"
    and "agree (- below (pd_prefix (na_pools op))) \<sigma> \<sigma>'"
    and "region_ok B n M (A\<lparr>n_pools := (n_pools A)(op := x)\<rparr>) \<sigma>' (PoolOf op)"
  shows "\<exists>s'. f s = Some (a, s') \<and> represents rep B n M (A\<lparr>n_pools := (n_pools A)(op := x)\<rparr>) s'"
  by (rule represents_step [OF assms(1-4) assms(5) [folded na_pools_region] assms(6)])
    (rule iffD2 [OF region_ok_frame'(3)])

lemma pool_agree:
  "agree (- below (pd_prefix d)) \<sigma> (\<sigma>(pd_operator_key d := b))"
  "agree (- below (pd_prefix d)) \<sigma> (\<sigma>(pd_power_key d := b))"
  "agree (- below (pd_prefix d)) \<sigma> (\<sigma>(pd_commission_rate_key d := b))"
  "agree (- below (pd_prefix d)) \<sigma> (\<sigma>(pd_operator_stake_key d := b))"
  by (rule agree_write, rule pd_keys_below)+

lemma stakes_heap_upd:
  assumes "stakes_heap B M d ss \<sigma>"
  shows "stakes_heap B M d ss (\<sigma>(pd_operator_key d := b))" "stakes_heap B M d ss (\<sigma>(pd_power_key d := b))"
    "stakes_heap B M d ss (\<sigma>(pd_commission_rate_key d := b))"
    "stakes_heap B M d ss (\<sigma>(pd_operator_stake_key d := b))"
  using assms pd_keys_not_stakes [of d M] by (auto simp: agree_def intro!: ih_ok_agree [OF assms])

text \<open>The stakes delegated to a pool; none where there is no pool.\<close>

definition pool_stakes :: "network \<Rightarrow> b32 \<Rightarrow> stake_value multiset" where
  "pool_stakes A op = (case n_pools A op of None \<Rightarrow> {#} | Some (_, S) \<Rightarrow> S)"

context pool_store
begin

lemma poolE:
  assumes "represents rep B n M A s"
  obtains \<sigma> ss where "rep s \<sigma>" "network_ok B n M A \<sigma>" "stakes_heap B M (na_pools op) ss \<sigma>"
    "mset ss = pool_stakes A op"
proof -
  obtain \<sigma> where s: "rep s \<sigma>" "network_ok B n M A \<sigma>" using assms by (rule representsE)
  have "region_ok B n M A \<sigma> (PoolOf op)" using s(2) unfolding network_ok_def by (rule spec)
  moreover have "unat (capacity (pd_delegated_stakes M (na_pools op))) < 2147483648"
    by (simp add: pd_delegated_stakes_def ih_new_def im_new_def capacity_small)
  ultimately obtain ss where "stakes_heap B M (na_pools op) ss \<sigma>" "mset ss = pool_stakes A op"
    by (auto simp: pool_stakes_def dict_cleared_def ih_ok_def split: option.splits)
  with s show ?thesis by (rule that)
qed

lemma pools_create:
  assumes "represents rep B n M A s"
  shows "\<exists>s'. do {
        (_, s) \<leftarrow> pd_set_operator N (na_pools op) (operator p) s;
        (_, s) \<leftarrow> pd_set_power N (na_pools op) (power p) s;
        (_, s) \<leftarrow> pd_set_commission_rate N (na_pools op) (commission_rate p) s;
        pd_set_operator_stake N B (na_pools op) (operator_stake p) s
      } = Some ((), s') \<and>
      represents rep B n M (A\<lparr>n_pools := (n_pools A)(op := Some (p, pool_stakes A op))\<rparr>) s'"
proof -
  let ?d = "na_pools op"
  let ?f = "\<lambda>N s. do {
        (_, s) \<leftarrow> pd_set_operator N ?d (operator p) s;
        (_, s) \<leftarrow> pd_set_power N ?d (power p) s;
        (_, s) \<leftarrow> pd_set_commission_rate N ?d (commission_rate p) s;
        pd_set_operator_stake N B ?d (operator_stake p) s
      }"
  obtain \<sigma> ss where s: "rep s \<sigma>" "network_ok B n M A \<sigma>" and ss: "stakes_heap B M ?d ss \<sigma>"
    and S: "mset ss = pool_stakes A op"
    using assms by (rule poolE)
  let ?\<sigma> = "\<sigma>(pd_operator_key ?d \<mapsto> b32_bytes (operator p), pd_power_key ?d \<mapsto> u64_to_le (power p),
    pd_commission_rate_key ?d \<mapsto> u8_to_le (commission_rate p),
    pd_operator_stake_key ?d \<mapsto> ser_stake_opt B (operator_stake p))"
  have sim: "sim rep (?f N) (?f kv_store)" by (intro sim_intros sim_pd_set)
  have run: "?f kv_store \<sigma> = Some ((), ?\<sigma>)" by simp
  have "pool_stored B ?d p ?\<sigma>" by (simp add: pool_stored_def)
  moreover have "stakes_heap B M ?d ss ?\<sigma>"
    by (rule stakes_heap_upd(4), rule stakes_heap_upd(3), rule stakes_heap_upd(2), rule stakes_heap_upd(1)) (rule ss)
  ultimately have ok: "region_ok B n M (A\<lparr>n_pools := (n_pools A)(op := Some (p, pool_stakes A op))\<rparr>) ?\<sigma> (PoolOf op)"
    using S by simp blast
  have "agree (- below (pd_prefix ?d)) \<sigma> ?\<sigma>"
    by (rule agree_trans [OF agree_trans [OF agree_trans]]) (rule pool_agree)+
  from represents_pool_step [OF sim s run this ok] show ?thesis .
qed

lemma pools_set_power:
  assumes "represents rep B n M A s" and p: "n_pools A op = Some (p, S)"
  shows "\<exists>s'. pd_set_power N (na_pools op) x s = Some ((), s') \<and>
     represents rep B n M (A\<lparr>n_pools := (n_pools A)(op := Some (p\<lparr>power := x\<rparr>, S))\<rparr>) s'"
proof -
  let ?d = "na_pools op"
  obtain \<sigma> ss where s: "rep s \<sigma>" "network_ok B n M A \<sigma>" and ss: "stakes_heap B M ?d ss \<sigma>"
    and S: "mset ss = pool_stakes A op"
    using assms(1) by (rule poolE)
  have "pool_stored B ?d p \<sigma>"
    using s(2) [unfolded network_ok_def, rule_format, of "PoolOf op"] p by simp
  then have "pool_stored B ?d (p\<lparr>power := x\<rparr>) (\<sigma>(pd_power_key ?d \<mapsto> u64_to_le x))"
    by (simp add: pool_stored_def)
  then have "region_ok B n M (A\<lparr>n_pools := (n_pools A)(op := Some (p\<lparr>power := x\<rparr>, S))\<rparr>)
      (\<sigma>(pd_power_key ?d \<mapsto> u64_to_le x)) (PoolOf op)"
    using stakes_heap_upd(2) [OF ss] S p by (auto simp: pool_stakes_def)
  from represents_pool_step [OF sim_pd_set(2) s kv_pd_sets(2) pool_agree(2) this] show ?thesis .
qed

lemma pools_delete:
  assumes "represents rep B n M A s"
  shows "\<exists>s'. pd_delete N B M (na_pools op) s = Some ((), s') \<and>
     represents rep B n M (A\<lparr>n_pools := (n_pools A)(op := None)\<rparr>) s'"
proof -
  let ?d = "na_pools op"
  obtain \<sigma> ss where s: "rep s \<sigma>" "network_ok B n M A \<sigma>" and ss: "stakes_heap B M ?d ss \<sigma>"
    and S: "mset ss = pool_stakes A op"
    using assms by (rule poolE)
  obtain \<sigma>' where z: "pd_delete kv_store B M ?d \<sigma> = Some ((), \<sigma>')" "dict_cleared B M ?d \<sigma>'"
    "agree (- below (pd_prefix ?d)) \<sigma> \<sigma>'"
    using kv_pd_delete [OF ih_okD(1) [OF ss]] by blast
  have "region_ok B n M (A\<lparr>n_pools := (n_pools A)(op := None)\<rparr>) \<sigma>' (PoolOf op)" using z(2) by simp
  from represents_pool_step [OF sim_pd_delete s z(1,3) this] show ?thesis .
qed

lemma pools_delegate:
  assumes "represents rep B n M A s" and p: "n_pools A op = Some (p, S)"
    and v: "owner (inner_stake v) \<notin> (\<lambda>w. owner (inner_stake w)) ` set_mset S"
  shows "if size S < unat M
    then \<exists>s'. ih_insert N (stake_value_ops B) (pd_delegated_stakes M (na_pools op)) v s = Some (Inr (), s') \<and>
      represents rep B n M (A\<lparr>n_pools := (n_pools A)(op := Some (p, add_mset v S))\<rparr>) s'
    else \<exists>s'. ih_insert N (stake_value_ops B) (pd_delegated_stakes M (na_pools op)) v s =
        Some (Inl IndexHeapOperationError, s') \<and> represents rep B n M A s'"
proof -
  let ?d = "na_pools op"
  let ?H = "pd_delegated_stakes M ?d"
  obtain \<sigma> ss where s: "rep s \<sigma>" "network_ok B n M A \<sigma>" and ss: "stakes_heap B M ?d ss \<sigma>"
    and S: "mset ss = pool_stakes A op"
    using assms(1) by (rule poolE)
  have S': "mset ss = S" using S p by (simp add: pool_stakes_def)
  have stored: "pool_stored B ?d p \<sigma>"
    using s(2) [unfolded network_ok_def, rule_format, of "PoolOf op"] p by simp
  have size: "length ss = size S" "unat (capacity ?H) = unat M"
    by (simp_all add: pd_delegated_stakes_def ih_new_def im_new_def capacity_u16 flip: S')
  show ?thesis
  proof (cases "length ss < unat (capacity ?H)")
    case True
    have "vkey (stake_value_ops B) v \<notin> vkey (stake_value_ops B) ` set ss"
      using v by (auto simp flip: S')
    then obtain \<sigma>' zs where z: "ih_insert kv_store (stake_value_ops B) ?H v \<sigma> = Some (Inr (), \<sigma>')"
      "stakes_heap B M ?d zs \<sigma>'" "mset zs = add_mset v (mset ss)" "same_but (domain ?H) \<sigma> \<sigma>'"
      using stake_value.kv_insert [OF ss _ True] by blast
    have "pool_stored B ?d p \<sigma>'"
      using stored z(4) pd_keys_not_stakes [of ?d M] by (simp add: pool_stored_def same_but_def)
    then have "region_ok B n M (A\<lparr>n_pools := (n_pools A)(op := Some (p, add_mset v S))\<rparr>) \<sigma>' (PoolOf op)"
      using z(2,3) S' by auto
    moreover have "agree (- below (pd_prefix ?d)) \<sigma> \<sigma>'"
      by (rule agree_subset [OF z(4) [unfolded same_but_agree]]) (use stakes_keys_below in blast)
    ultimately show ?thesis
      using represents_pool_step [OF stakes.sim_ih_insert s z(1)] True size by simp
  next
    case False
    then have "length ss = unat (capacity ?H)" using ih_okD(5) [OF ss] by simp
    from represents_read [OF stakes.sim_ih_insert s stake_value.kv_insert_full [OF ih_okD(1) [OF ss] this]]
    show ?thesis using False size by simp
  qed
qed

end

text \<open>
  C11: In the network account the pools are a map from operators to a pool and the stakes
  delegated to it: writing the four fields creates or replaces the pool and keeps its stakes,
  a setter changes its field, \<open>delete\<close> removes the pool with its stakes, and inserting the
  stake of a new owner adds it up to the size parameter.  Nothing else in the account changes.
\<close>

theorem network_pools:
  assumes P: "pool_store N rep B" and A: "represents rep B n M A s"
    and p: "n_pools A op = Some (q, S)"
    and v: "owner (inner_stake v) \<notin> (\<lambda>w. owner (inner_stake w)) ` set_mset S"
  shows "(\<exists>s'. do {
        (_, s) \<leftarrow> pd_set_operator N (na_pools a) (operator p) s;
        (_, s) \<leftarrow> pd_set_power N (na_pools a) (power p) s;
        (_, s) \<leftarrow> pd_set_commission_rate N (na_pools a) (commission_rate p) s;
        pd_set_operator_stake N B (na_pools a) (operator_stake p) s
      } = Some ((), s') \<and>
      represents rep B n M (A\<lparr>n_pools := (n_pools A)(a := Some (p, pool_stakes A a))\<rparr>) s') \<and>
    (\<exists>s'. pd_set_power N (na_pools op) x s = Some ((), s') \<and>
      represents rep B n M (A\<lparr>n_pools := (n_pools A)(op := Some (q\<lparr>power := x\<rparr>, S))\<rparr>) s') \<and>
    (\<exists>s'. pd_delete N B M (na_pools a) s = Some ((), s') \<and>
      represents rep B n M (A\<lparr>n_pools := (n_pools A)(a := None)\<rparr>) s') \<and>
    (if size S < unat M
      then \<exists>s'. ih_insert N (stake_value_ops B) (pd_delegated_stakes M (na_pools op)) v s = Some (Inr (), s') \<and>
        represents rep B n M (A\<lparr>n_pools := (n_pools A)(op := Some (q, add_mset v S))\<rparr>) s'
      else \<exists>s'. ih_insert N (stake_value_ops B) (pd_delegated_stakes M (na_pools op)) v s =
          Some (Inl IndexHeapOperationError, s') \<and> represents rep B n M A s')"
  by (intro conjI pool_store.pools_create [OF P A] pool_store.pools_set_power [OF P A p]
      pool_store.pools_delete [OF P A] pool_store.pools_delegate [OF P A p v])

theorem network_pools_witness:
  "\<exists>s s'. ih_insert kv_store (stake_value_ops borsh_std)
     (pd_delegated_stakes max_stakes_per_pool (na_pools (b32_fill 1))) (StakeValue (Stake (b32_fill 2) 7)) s =
     Some (Inr (), s')"
proof -
  let ?p = "\<lparr>operator = b32_fill 1, commission_rate = 10, power = 500, operator_stake = None\<rparr>"
  obtain s where "represents (=) borsh_std 64 max_stakes_per_pool (empty_network\<lparr>n_pools :=
      (n_pools empty_network)(b32_fill 1 := Some (?p, pool_stakes empty_network (b32_fill 1)))\<rparr>) s"
    using kv_std.pools_create [OF represents_empty, of "b32_fill 1" ?p] by blast
  from network_pools [OF kv_std.pool_store_axioms this, of "b32_fill 1" ?p "{#}"
      "StakeValue (Stake (b32_fill 2) 7)", THEN conjunct2, THEN conjunct2, THEN conjunct2]
  show ?thesis by (auto simp: empty_network_def pool_stakes_def max_stakes_per_pool_def)
qed

end
