(* ===== verification/Network_World.thy ===== *)
theory Network_World
  imports World_Close Network_Account
begin

text \<open>
  The network account inside a world state: \<open>NetworkAccountStorage\<close> implemented by the storage
  trie of the network address, as in \<open>StorageWorldState\<close> of \<open>tests/tests.rs\<close>.  It is a lawful
  store, so everything proved on the network account holds on it.
\<close>

section \<open>The store\<close>

text \<open>
  Each \<open>unwrap\<close> panics on an error.  An edit through the reference that \<open>storage_trie_mut\<close>
  returns changes the trie in the map of the world state.
\<close>

definition sws_get :: "'t trie_lib \<Rightarrow> world_state \<Rightarrow> bytes \<Rightarrow> (bytes option \<times> world_state) option" where
  "sws_get E w key = do {
     (r, w) \<leftarrow> ws_storage_trie E w network_address;
     case r of
       Inl _ \<Rightarrow> None
     | Inr T \<Rightarrow> (case st_get E T key of Inl _ \<Rightarrow> None | Inr v \<Rightarrow> Some (v, w))
   }"

definition sws_contains :: "'t trie_lib \<Rightarrow> world_state \<Rightarrow> bytes \<Rightarrow> (bool \<times> world_state) option" where
  "sws_contains E w key = do {
     (r, w) \<leftarrow> ws_storage_trie E w network_address;
     case r of
       Inl _ \<Rightarrow> None
     | Inr T \<Rightarrow> (case st_contains E T key of Inl _ \<Rightarrow> None | Inr b \<Rightarrow> Some (b, w))
   }"

definition sws_set :: "'t trie_lib \<Rightarrow> world_state \<Rightarrow> bytes \<Rightarrow> bytes \<Rightarrow> (unit \<times> world_state) option" where
  "sws_set E w key value = do {
     (r, w) \<leftarrow> ws_storage_trie_mut E w network_address;
     case r of
       Inl _ \<Rightarrow> None
     | Inr T \<Rightarrow>
         (case st_set E T key value of
            (Inl _, _) \<Rightarrow> None
          | (Inr _, T) \<Rightarrow> Some ((), ws_put_storage network_address T w))
   }"

definition sws_delete :: "'t trie_lib \<Rightarrow> world_state \<Rightarrow> bytes \<Rightarrow> (unit \<times> world_state) option" where
  "sws_delete E w key = do {
     (r, w) \<leftarrow> ws_storage_trie_mut E w network_address;
     case r of
       Inl _ \<Rightarrow> None
     | Inr T \<Rightarrow>
         (case st_set E T key [] of
            (Inl _, _) \<Rightarrow> None
          | (Inr _, T) \<Rightarrow> Some ((), ws_put_storage network_address T w))
   }"

definition storage_world_state :: "'t trie_lib \<Rightarrow> world_state nas" where
  "storage_world_state E =
     \<lparr>nas_get = sws_get E, nas_contains = sws_contains E, nas_set = sws_set E,
      nas_delete = sws_delete E\<rparr>"

section \<open>It is lawful\<close>

text \<open>
  The world state keeps the user accounts \<open>U\<close> and the storages \<open>S\<close>; that of the network address
  is the map the store represents.  With \<open>K\<close> all its changes were collected in version 2.
\<close>

definition world_rep ::
    "'t trie_model \<Rightarrow> bool \<Rightarrow> version \<Rightarrow> (bytes \<Rightarrow> bytes option) \<Rightarrow> (b32 \<Rightarrow> bytes bytemap) \<Rightarrow> (b32 \<Rightarrow> account) \<Rightarrow>
     world_state \<Rightarrow> bytes bytemap \<Rightarrow> bool" where
  "world_rep M K V d S U w \<sigma> \<longleftrightarrow>
     (\<exists>m. ws_rel M w m (S(network_address := \<sigma>)) \<and> user_account V m = U) \<and>
     ws_version w = V \<and> ws_db w = d \<and> (K \<longrightarrow> V = V2 \<and> ws_apart w)"

lemma world_rep_open:
  assumes C: "trie_contract E M" and R: "world_rep M K V d S U w \<sigma>"
  shows "\<exists>T w'. ws_storage_trie_mut E w a = Some (Inr T, w') \<and>
     st_holds M T ((S(network_address := \<sigma>)) a) \<and>
     map_of (storage_trie_map w') a = Some T \<and> world_rep M K V d S U w' \<sigma>"
proof -
  obtain m where m: "ws_rel M w m (S(network_address := \<sigma>))" "user_account V m = U"
    and w: "ws_version w = V" "ws_db w = d" "K \<longrightarrow> V = V2 \<and> ws_apart w"
    using R by (auto simp: world_rep_def)
  from ws_storage_trie_mut_ok [OF C m(1), of a] obtain T w' m' where
    o: "ws_storage_trie_mut E w a = Some (Inr T, w')" "st_holds M T ((S(network_address := \<sigma>)) a)"
    "map_of (storage_trie_map w') a = Some T"
    "ws_rel M w' m' (S(network_address := \<sigma>))" "ws_version w' = V" "ws_db w' = d"
    "K \<longrightarrow> V = V2 \<and> ws_apart w'" "\<And>b. user_account V m' b = user_account V m b"
    using w by auto
  have "user_account V m' = U" using o(8) m(2) by (simp add: fun_eq_iff)
  then show ?thesis using o unfolding world_rep_def by blast
qed

lemma world_rep_put:
  assumes R: "world_rep M K V d S U w \<sigma>" and T: "map_of (storage_trie_map w) a = Some T"
    and T': "st_holds M T' s" "same_frame (st_trie T) (st_trie T')"
    and S': "(S(network_address := \<sigma>))(a := s) = S'(network_address := \<sigma>')"
  shows "world_rep M K V d S' U (ws_put_storage a T' w) \<sigma>'"
proof -
  obtain m where m: "ws_rel M w m (S(network_address := \<sigma>))" "user_account V m = U"
    and w: "ws_version w = V" "ws_db w = d" "K \<longrightarrow> V = V2 \<and> ws_apart w"
    using R by (auto simp: world_rep_def)
  have "ws_rel M (ws_put_storage a T' w) m (S'(network_address := \<sigma>'))"
    using ws_put_storage_ok [OF m(1) T T'] unfolding S' .
  moreover have "K \<longrightarrow> V = V2 \<and> ws_apart (ws_put_storage a T' w)"
    using ws_apart_put_storage [OF m(1) _ _ T T'(2)] w by simp
  ultimately show ?thesis using m(2) w unfolding world_rep_def by auto
qed

text \<open>An edit of one storage trie through \<open>storage_trie_mut\<close>: of the network account, and of others.\<close>

lemma world_rep_write:
  assumes C: "trie_contract E M" and R: "world_rep M K V d S U w \<sigma>"
  shows "\<exists>T w1 T' w'. ws_storage_trie_mut E w network_address = Some (Inr T, w1) \<and>
     st_set E T k v = (Inr (), T') \<and> w' = ws_put_storage network_address T' w1 \<and>
     world_rep M K V d S U w' (put_content k v \<sigma>)"
proof -
  obtain T w1 where o: "ws_storage_trie_mut E w network_address = Some (Inr T, w1)" "st_holds M T \<sigma>"
    "map_of (storage_trie_map w1) network_address = Some T" "world_rep M K V d S U w1 \<sigma>"
    using world_rep_open [OF C R, of network_address] by auto
  obtain T' where T': "st_set E T k v = (Inr (), T')" "st_holds M T' (put_content k v \<sigma>)"
    "same_frame (st_trie T) (st_trie T')"
    using st_set_ok [OF C o(2)] by blast
  have "world_rep M K V d S U (ws_put_storage network_address T' w1) (put_content k v \<sigma>)"
    by (rule world_rep_put [OF o(4,3) T'(2,3)]) simp
  then show ?thesis using o(1) T'(1) by blast
qed

lemma storage_world_state_lawful:
  assumes C: "trie_contract E M"
  shows "network_account_storage (storage_world_state E) (world_rep M K V d S U)"
proof
  fix w \<sigma> k assume R: "world_rep M K V d S U w \<sigma>"
  note o = world_rep_open [OF C R, of network_address, unfolded fun_upd_same]
  show "\<exists>w'. nas_get (storage_world_state E) w k = Some (\<sigma> k, w') \<and> world_rep M K V d S U w' \<sigma>"
    using o by (auto simp: storage_world_state_def sws_get_def ws_storage_trie_eq st_get_ok [OF C])
  show "\<exists>w'. nas_contains (storage_world_state E) w k = Some (\<sigma> k \<noteq> None, w') \<and> world_rep M K V d S U w' \<sigma>"
    using o by (auto simp: storage_world_state_def sws_contains_def ws_storage_trie_eq st_contains_ok [OF C])
  show "\<exists>w'. nas_delete (storage_world_state E) w k = Some ((), w') \<and> world_rep M K V d S U w' (\<sigma>(k := None))"
    using world_rep_write [OF C R, of k "[]"]
    by (auto simp: storage_world_state_def sws_delete_def put_content_def)
  fix v :: bytes assume "v \<noteq> []"
  then show "\<exists>w'. nas_set (storage_world_state E) w k v = Some ((), w') \<and> world_rep M K V d S U w' (\<sigma>(k \<mapsto> v))"
    using world_rep_write [OF C R, of k v]
    by (auto simp: storage_world_state_def sws_set_def put_content_def)
qed

interpretation flat_world_store: network_account_storage "storage_world_state flat_lib"
  "world_rep flat_model K V d S U" for K V d S U
  by (rule storage_world_state_lawful [OF flat_contract])

interpretation flat_world_pools: pool_store "storage_world_state flat_lib"
  "world_rep flat_model K V d S U" borsh_std for K V d S U ..

lemma storage_world_state_pools:
  "trie_contract E M \<Longrightarrow> borsh_codec B \<Longrightarrow>
     pool_store (storage_world_state E) (world_rep M K V d S U) B"
  by (intro pool_store.intro storage_world_state_lawful)

text \<open>A new world state holds an empty network account.\<close>

lemma new_world_rep:
  assumes "trie_contract E M"
  shows "world_rep M (V = V2) V s (\<lambda>_. Map.empty) (user_account V Map.empty) (ws_new E V s) Map.empty"
proof -
  have eq: "(\<lambda>_. Map.empty)(network_address := Map.empty) = (\<lambda>_. Map.empty)" by (rule ext) simp
  show ?thesis
    unfolding world_rep_def eq using ws_new_ok [OF assms, of V s] by (auto simp: ws_new_def)
qed

lemma new_world_represents:
  assumes "trie_contract E M"
  shows "represents (world_rep M (V = V2) V s (\<lambda>_. Map.empty) (user_account V Map.empty)) B n m empty_network
    (ws_new E V s)"
  unfolding represents_def using new_world_rep [OF assms] network_ok_empty by blast

end
