(* ===== verification/Network_Run.thy ===== *)
theory Network_Run
  imports Network_World
begin

text \<open>
  Sequences of operations on the network account.  A call is one operation of a client on one
  part of the account, \<open>net_exec\<close> runs it with the model's operations, and \<open>net_spec\<close> says what
  it does to the represented network.  Every sequence of calls within the contract runs without
  a panic on every lawful store, gives the specified outcomes, and keeps the limits of the
  account (\<open>network_wf\<close>).
\<close>

section \<open>Calls and their execution\<close>

text \<open>
  \<open>MakePool\<close> writes the four fields of a pool dictionary, \<open>Delegate\<close> inserts into its heap of
  stakes; the names of the others are those of the parts of the account and their operations.
\<close>

datatype net_call =
    VpPush pool "stake_value list"
  | VpClear
  | PvpPush pool "stake_value list"
  | PvpClear
  | NvpInsert pool_key
  | NvpExtract
  | NvpRemove b32
  | NvpChangeKey pool_key
  | MakePool b32 pool
  | SetPoolPower b32 u64
  | DeletePool b32
  | Delegate b32 stake_value
  | SetDeposit b32 b32 u64
  | SetAutoStake b32 b32 bool
  | DeleteDeposit b32 b32
  | SetEpoch u64

text \<open>What the caller sees: success, the error of a full container, or an extracted key.\<close>

datatype outcome = Done | Refused | Extracted "pool_key option"

definition result_outcome :: "'e + unit \<Rightarrow> outcome" where
  "result_outcome r = (case r of Inl _ \<Rightarrow> Refused | Inr _ \<Rightarrow> Done)"

definition put_pool :: "'s nas \<Rightarrow> borsh_lib \<Rightarrow> pool_dict \<Rightarrow> pool \<Rightarrow> 's \<Rightarrow> (unit \<times> 's) option" where
  "put_pool N B d p s = do {
     (_, s) \<leftarrow> pd_set_operator N d (operator p) s;
     (_, s) \<leftarrow> pd_set_power N d (power p) s;
     (_, s) \<leftarrow> pd_set_commission_rate N d (commission_rate p) s;
     pd_set_operator_stake N B d (operator_stake p) s
   }"

fun net_exec :: "'s nas \<Rightarrow> borsh_lib \<Rightarrow> u16 \<Rightarrow> u16 \<Rightarrow> net_call \<Rightarrow> 's \<Rightarrow> (outcome \<times> 's) option" where
  "net_exec N B n M (VpPush p ss) s =
     do { (r, s) \<leftarrow> vp_push N B M (na_vp n) p ss s; Some (result_outcome r, s) }"
| "net_exec N B n M VpClear s = do { (_, s) \<leftarrow> vp_clear N B M (na_vp n) s; Some (Done, s) }"
| "net_exec N B n M (PvpPush p ss) s =
     do { (r, s) \<leftarrow> vp_push N B M (na_pvp n) p ss s; Some (result_outcome r, s) }"
| "net_exec N B n M PvpClear s = do { (_, s) \<leftarrow> vp_clear N B M (na_pvp n) s; Some (Done, s) }"
| "net_exec N B n M (NvpInsert k) s =
     do { (r, s) \<leftarrow> ih_insert N (pool_key_ops B) (na_nvp n) k s; Some (result_outcome r, s) }"
| "net_exec N B n M NvpExtract s =
     do { (k, s) \<leftarrow> ih_extract N (pool_key_ops B) (na_nvp n) s; Some (Extracted k, s) }"
| "net_exec N B n M (NvpRemove a) s =
     do { (_, s) \<leftarrow> ih_remove_item N (pool_key_ops B) (na_nvp n) (b32_bytes a) s; Some (Done, s) }"
| "net_exec N B n M (NvpChangeKey k) s =
     do { (_, s) \<leftarrow> ih_change_key N (pool_key_ops B) (na_nvp n) k s; Some (Done, s) }"
| "net_exec N B n M (MakePool a p) s =
     do { (_, s) \<leftarrow> put_pool N B (na_pools a) p s; Some (Done, s) }"
| "net_exec N B n M (SetPoolPower a x) s =
     do { (_, s) \<leftarrow> pd_set_power N (na_pools a) x s; Some (Done, s) }"
| "net_exec N B n M (DeletePool a) s =
     do { (_, s) \<leftarrow> pd_delete N B M (na_pools a) s; Some (Done, s) }"
| "net_exec N B n M (Delegate a v) s =
     do { (r, s) \<leftarrow> ih_insert N (stake_value_ops B) (pd_delegated_stakes M (na_pools a)) v s;
          Some (result_outcome r, s) }"
| "net_exec N B n M (SetDeposit a b x) s =
     do { (_, s) \<leftarrow> dd_set_balance N (na_deposits a b) x s; Some (Done, s) }"
| "net_exec N B n M (SetAutoStake a b x) s =
     do { (_, s) \<leftarrow> dd_set_auto_stake_rewards N (na_deposits a b) x s; Some (Done, s) }"
| "net_exec N B n M (DeleteDeposit a b) s =
     do { (_, s) \<leftarrow> dd_delete N (na_deposits a b) s; Some (Done, s) }"
| "net_exec N B n M (SetEpoch e) s = do { (_, s) \<leftarrow> na_set_current_epoch N e s; Some (Done, s) }"

fun net_run :: "'s nas \<Rightarrow> borsh_lib \<Rightarrow> u16 \<Rightarrow> u16 \<Rightarrow> net_call list \<Rightarrow> 's \<Rightarrow> (outcome list \<times> 's) option" where
  "net_run N B n M [] s = Some ([], s)"
| "net_run N B n M (c # cs) s = do {
     (r, s) \<leftarrow> net_exec N B n M c s;
     (rs, s) \<leftarrow> net_run N B n M cs s;
     Some (r # rs, s)
   }"

section \<open>The specification\<close>

text \<open>The list of a validator pool after a push, and its outcome; \<open>None\<close> outside the contract.\<close>

definition spec_push :: "u16 \<Rightarrow> u16 \<Rightarrow> pool \<Rightarrow> stake_value list \<Rightarrow> (pool \<times> stake_value list) list \<Rightarrow>
    (outcome \<times> (pool \<times> stake_value list) list) option" where
  "spec_push n M p ss ps =
     (if operator p \<in> (\<lambda>e. operator (fst e)) ` set ps \<or>
         \<not> distinct (map (\<lambda>v. owner (inner_stake v)) ss) \<or> 2 ^ 32 \<le> length ss then None
      else if length ps < unat n then Some (Done, ps @ [(p, if length ss \<le> unat M then ss else [])])
      else Some (Refused, ps))"

definition put_deposit :: "b32 \<Rightarrow> b32 \<Rightarrow> u64 option \<times> bool option \<Rightarrow> network \<Rightarrow> network" where
  "put_deposit a b x A = A\<lparr>n_deposits := (n_deposits A)(a := (n_deposits A a)(b := x))\<rparr>"

definition put_n_pool :: "b32 \<Rightarrow> (pool \<times> stake_value multiset) option \<Rightarrow> network \<Rightarrow> network" where
  "put_n_pool a x A = A\<lparr>n_pools := (n_pools A)(a := x)\<rparr>"

fun net_spec :: "u16 \<Rightarrow> u16 \<Rightarrow> net_call \<Rightarrow> network \<Rightarrow> (outcome \<times> network) option" where
  "net_spec n M (VpPush p ss) A =
     do { (r, ps) \<leftarrow> spec_push n M p ss (n_vp A); Some (r, A\<lparr>n_vp := ps\<rparr>) }"
| "net_spec n M VpClear A = Some (Done, A\<lparr>n_vp := []\<rparr>)"
| "net_spec n M (PvpPush p ss) A =
     do { (r, ps) \<leftarrow> spec_push n M p ss (n_pvp A); Some (r, A\<lparr>n_pvp := ps\<rparr>) }"
| "net_spec n M PvpClear A = Some (Done, A\<lparr>n_pvp := []\<rparr>)"
| "net_spec n M (NvpInsert k) A =
     (if operator_of k \<in> operator_of ` set_mset (n_nvp A) then None
      else if size (n_nvp A) < unat n then Some (Done, A\<lparr>n_nvp := add_mset k (n_nvp A)\<rparr>)
      else Some (Refused, A))"
| "net_spec n M NvpExtract A =
     (if n_nvp A = {#} then Some (Extracted None, A)
      else let k = Min (set_mset (n_nvp A))
           in Some (Extracted (Some k), A\<lparr>n_nvp := n_nvp A - {#k#}\<rparr>))"
| "net_spec n M (NvpRemove a) A = Some (Done, A\<lparr>n_nvp := other_keys a (n_nvp A)\<rparr>)"
| "net_spec n M (NvpChangeKey k) A =
     Some (Done, A\<lparr>n_nvp := if operator_of k \<in> operator_of ` set_mset (n_nvp A)
        then add_mset k (other_keys (operator_of k) (n_nvp A)) else n_nvp A\<rparr>)"
| "net_spec n M (MakePool a p) A = Some (Done, put_n_pool a (Some (p, pool_stakes A a)) A)"
| "net_spec n M (SetPoolPower a x) A =
     (case n_pools A a of
        None \<Rightarrow> None
      | Some (p, S) \<Rightarrow> Some (Done, put_n_pool a (Some (p\<lparr>power := x\<rparr>, S)) A))"
| "net_spec n M (DeletePool a) A = Some (Done, put_n_pool a None A)"
| "net_spec n M (Delegate a v) A =
     (case n_pools A a of
        None \<Rightarrow> None
      | Some (p, S) \<Rightarrow>
          if owner (inner_stake v) \<in> (\<lambda>w. owner (inner_stake w)) ` set_mset S then None
          else if size S < unat M then Some (Done, put_n_pool a (Some (p, add_mset v S)) A)
          else Some (Refused, A))"
| "net_spec n M (SetDeposit a b x) A = Some (Done, put_deposit a b (Some x, snd (n_deposits A a b)) A)"
| "net_spec n M (SetAutoStake a b x) A = Some (Done, put_deposit a b (fst (n_deposits A a b), Some x) A)"
| "net_spec n M (DeleteDeposit a b) A = Some (Done, put_deposit a b (None, None) A)"
| "net_spec n M (SetEpoch e) A = Some (Done, A\<lparr>n_epoch := e\<rparr>)"

fun net_spec_run :: "u16 \<Rightarrow> u16 \<Rightarrow> net_call list \<Rightarrow> network \<Rightarrow> (outcome list \<times> network) option" where
  "net_spec_run n M [] A = Some ([], A)"
| "net_spec_run n M (c # cs) A = do {
     (r, A) \<leftarrow> net_spec n M c A;
     (rs, A) \<leftarrow> net_spec_run n M cs A;
     Some (r # rs, A)
   }"

section \<open>Refinement\<close>

lemma Min_eq_least: "l \<in># K \<Longrightarrow> \<forall>k \<in># K. l \<le> k \<Longrightarrow> Min (set_mset K) = l"
  by (rule Min_eqI) auto

lemma put_pool_ok:
  assumes P: "pool_store N rep B" and A: "represents rep B n M A s"
  shows "\<exists>s'. put_pool N B (na_pools a) p s = Some ((), s') \<and>
     represents rep B n M (put_n_pool a (Some (p, pool_stakes A a)) A) s'"
  unfolding put_pool_def put_n_pool_def using pool_store.pools_create [OF P A, of a p] by simp

lemma net_exec_refines:
  assumes P: "pool_store N rep B" and A: "represents rep B n M A s" and r: "net_spec n M c A = Some (r, A')"
  shows "\<exists>s'. net_exec N B n M c s = Some (r, s') \<and> represents rep B n M A' s'"
proof (cases c)
  case (VpPush p ss)
  have ss: "distinct (map (\<lambda>v. owner (inner_stake v)) ss)" "length ss < 2 ^ 32"
    and p: "operator p \<notin> (\<lambda>e. operator (fst e)) ` set (n_vp A)"
    using r VpPush by (auto simp: spec_push_def split: if_splits)
  show ?thesis
    using validators_push(1) [OF P A ss p] r VpPush p ss
    by (auto simp: spec_push_def result_outcome_def split: if_splits)
next
  case (PvpPush p ss)
  have ss: "distinct (map (\<lambda>v. owner (inner_stake v)) ss)" "length ss < 2 ^ 32"
    and p: "operator p \<notin> (\<lambda>e. operator (fst e)) ` set (n_pvp A)"
    using r PvpPush by (auto simp: spec_push_def split: if_splits)
  show ?thesis
    using validators_push(2) [OF P A ss p] r PvpPush p ss
    by (auto simp: spec_push_def result_outcome_def split: if_splits)
next
  case VpClear
  then show ?thesis using validators_push(3) [OF P A, of "[]"] r by auto
next
  case PvpClear
  then show ?thesis using validators_push(4) [OF P A, of "[]"] r by auto
next
  case (NvpInsert k)
  then show ?thesis
    using pool_store.nvp_insert [OF P A, of k] r by (auto simp: result_outcome_def split: if_splits)
next
  case NvpExtract
  show ?thesis
  proof (cases "n_nvp A = {#}")
    case True
    then show ?thesis using pool_store.nvp_extract [OF P A] r NvpExtract by auto
  next
    case False
    then obtain l s' where l: "ih_extract N (pool_key_ops B) (na_nvp n) s = Some (Some l, s')"
      "l \<in># n_nvp A" "\<forall>l' \<in># n_nvp A. l \<le> l'" "represents rep B n M (A\<lparr>n_nvp := n_nvp A - {#l#}\<rparr>) s'"
      using pool_store.nvp_extract [OF P A] by auto
    then show ?thesis using r NvpExtract False Min_eq_least [OF l(2,3)] by (auto simp: Let_def)
  qed
next
  case (NvpRemove a)
  then show ?thesis using pool_store.nvp_remove_item [OF P A, of a] r by auto
next
  case (NvpChangeKey k)
  then show ?thesis using pool_store.nvp_change_key [OF P A, of k] r by auto
next
  case (MakePool a p)
  then show ?thesis using put_pool_ok [OF P A, of a p] r by auto
next
  case (SetPoolPower a x)
  then obtain p S where p: "n_pools A a = Some (p, S)"
    using r by (auto split: option.splits)
  then show ?thesis
    using pool_store.pools_set_power [OF P A p, of x] r SetPoolPower by (auto simp: put_n_pool_def)
next
  case (DeletePool a)
  then show ?thesis using pool_store.pools_delete [OF P A, of a] r by (auto simp: put_n_pool_def)
next
  case (Delegate a v)
  then obtain p S where p: "n_pools A a = Some (p, S)"
    and v: "owner (inner_stake v) \<notin> (\<lambda>w. owner (inner_stake w)) ` set_mset S"
    using r by (auto split: option.splits if_splits)
  then show ?thesis
    using pool_store.pools_delegate [OF P A p v] r Delegate
    by (auto simp: put_n_pool_def result_outcome_def split: if_splits)
next
  case (SetDeposit a b x)
  then show ?thesis
    using deposits_and_epoch_ok [OF pool_storeD(1) [OF P] A, where op = a and own = b and e = 0 and a = True and x = x] r
    by (auto simp: put_deposit_def)
next
  case (SetAutoStake a b x)
  then show ?thesis
    using deposits_and_epoch_ok [OF pool_storeD(1) [OF P] A, where op = a and own = b and a = x and e = 0 and x = 0] r
    by (auto simp: put_deposit_def)
next
  case (DeleteDeposit a b)
  then show ?thesis
    using deposits_and_epoch_ok [OF pool_storeD(1) [OF P] A, where op = a and own = b and a = True and e = 0 and x = 0] r
    by (auto simp: put_deposit_def)
next
  case (SetEpoch e)
  then show ?thesis
    using deposits_and_epoch_ok [OF pool_storeD(1) [OF P] A, where e = e and op = undefined and own = undefined and a = True and x = 0] r by auto
qed

lemma net_run_refines:
  assumes P: "pool_store N rep B"
  shows "represents rep B n M A s \<Longrightarrow> net_spec_run n M cs A = Some (rs, A') \<Longrightarrow>
     \<exists>s'. net_run N B n M cs s = Some (rs, s') \<and> represents rep B n M A' s'"
proof (induction cs arbitrary: A s rs)
  case (Cons c cs)
  then obtain r A1 rs' where 1: "net_spec n M c A = Some (r, A1)" "net_spec_run n M cs A1 = Some (rs', A')"
    "rs = r # rs'"
    by (auto simp: bind_eq_Some_conv)
  obtain s1 where "net_exec N B n M c s = Some (r, s1)" "represents rep B n M A1 s1"
    using net_exec_refines [OF P Cons.prems(1) 1(1)] by blast
  then show ?case using Cons.IH [OF _ 1(2)] 1(3) by fastforce
qed simp

section \<open>The limits of the account\<close>

text \<open>
  Every container is within its capacity and holds one entry per key: an operator is once in
  each set of pools, an owner once in each pool.
\<close>

definition once :: "('a \<Rightarrow> 'k) \<Rightarrow> 'a multiset \<Rightarrow> bool" where
  "once f X \<longleftrightarrow> (\<forall>k. count (image_mset f X) k \<le> 1)"

definition validators_wf :: "u16 \<Rightarrow> u16 \<Rightarrow> (pool \<times> stake_value list) list \<Rightarrow> bool" where
  "validators_wf n M ps \<longleftrightarrow>
     length ps \<le> unat n \<and> distinct (map (\<lambda>e. operator (fst e)) ps) \<and>
     (\<forall>(p, ss) \<in> set ps. length ss \<le> unat M \<and> distinct (map (\<lambda>v. owner (inner_stake v)) ss))"

definition network_wf :: "u16 \<Rightarrow> u16 \<Rightarrow> network \<Rightarrow> bool" where
  "network_wf n M A \<longleftrightarrow>
     validators_wf n M (n_pvp A) \<and> validators_wf n M (n_vp A) \<and>
     size (n_nvp A) \<le> unat n \<and> once operator_of (n_nvp A) \<and>
     (\<forall>a p S. n_pools A a = Some (p, S) \<longrightarrow>
        size S \<le> unat M \<and> once (\<lambda>v. owner (inner_stake v)) S)"

lemma once_mset: "once f (mset xs) \<longleftrightarrow> distinct (map f xs)"
proof -
  have "once f (mset xs) \<longleftrightarrow> (\<forall>k. count (mset (map f xs)) k \<le> 1)" by (simp add: once_def)
  also have "\<dots> \<longleftrightarrow> distinct (map f xs)"
    unfolding distinct_count_atmost_1 by (auto simp: le_Suc_eq count_eq_zero_iff)
  finally show ?thesis .
qed

lemma distinct_keys:
  "distinct (map (vkey P) xs) \<Longrightarrow> (\<And>v. vkey P v = b32_bytes (f v)) \<Longrightarrow> distinct (map f xs)"
  by (auto simp: distinct_map inj_on_def)

lemma stakes_within:
  assumes "stakes_ok B M d ss \<sigma>"
  shows "length ss \<le> unat M \<and> distinct (map (\<lambda>v. owner (inner_stake v)) ss)"
proof -
  have "distinct (map (\<lambda>v. owner (inner_stake v)) ss)"
    by (rule distinct_keys [OF im_rep_distinct [OF im_okD(1) [OF assms]]]) simp
  moreover have "length ss \<le> unat M"
    using im_okD(2) [OF assms] by (simp add: pd_delegated_stakes_def ih_new_def im_new_def capacity_u16)
  ultimately show ?thesis by blast
qed

lemma validators_within:
  assumes "vp_ok B M V ps \<sigma>" "unat (capacity V) = unat n"
  shows "validators_wf n M ps"
proof -
  have "distinct (map address_of (map (\<lambda>e. PoolAddress (operator (fst e))) ps))" "length ps \<le> unat n"
    using vp_okD(1) [OF assms(1)] assms(2) distinct_keys [of pool_address_ops _ address_of]
    by (simp_all add: im_live_def del: map_map)
  moreover have "length ss \<le> unat M \<and> distinct (map (\<lambda>v. owner (inner_stake v)) ss)"
    if "(p, ss) \<in> set ps" for p ss
    by (rule stakes_within [of B M "vp_dict V (operator p)" ss \<sigma>])
       (use assms(1) that in \<open>auto simp: vp_ok_def dict_ok_def\<close>)
  ultimately show ?thesis
    by (auto simp: validators_wf_def o_def)
qed

lemma represents_within:
  assumes A: "represents rep B n M A s"
  shows "network_wf n M A"
proof -
  obtain \<sigma> where ok: "network_ok B n M A \<sigma>" using A by (rule representsE)
  note r = ok [unfolded network_ok_def, rule_format]
  have "validators_wf n M (n_pvp A)" "validators_wf n M (n_vp A)"
    using r [of PrevValidators] r [of Validators] validators_within na_capacity by fastforce+
  moreover have "size (n_nvp A) \<le> unat n \<and> once operator_of (n_nvp A)"
  proof -
    obtain xs where xs: "ih_ok (pool_key_ops B) id (na_nvp n) xs \<sigma>" "mset xs = n_nvp A"
      using r [of NextValidators] by auto
    have "distinct (map operator_of xs)"
      by (rule distinct_keys [OF im_rep_distinct [OF ih_okD(2) [OF xs(1)]]]) simp
    then show ?thesis
      using ih_okD(5) [OF xs(1)] na_capacity once_mset [of operator_of xs] xs(2) by (metis size_mset)
  qed
  moreover have "size S \<le> unat M \<and> once (\<lambda>v. owner (inner_stake v)) S" if p: "n_pools A a = Some (p, S)" for a p S
  proof -
    obtain ss where ss: "stakes_heap B M (na_pools a) ss \<sigma>" "mset ss = S"
      using r [of "PoolOf a"] p by auto
    show ?thesis using stakes_within [OF ih_okD(1) [OF ss(1)]] ss(2) once_mset by fastforce
  qed
  ultimately show ?thesis unfolding network_wf_def by blast
qed

lemma represents_lengths:
  assumes P: "pool_store N rep B" and A: "represents rep B n M A s"
  shows "\<exists>s'. vp_length N (na_pvp n) s = Some (of_nat (length (n_pvp A)), s')"
    and "\<exists>s'. vp_length N (na_vp n) s = Some (of_nat (length (n_vp A)), s')"
    and "\<exists>s'. im_length N (na_nvp n) s = Some (of_nat (size (n_nvp A)), s')"
    and "n_pools A a = Some (p, S) \<Longrightarrow>
      \<exists>s'. im_length N (pd_delegated_stakes M (na_pools a)) s = Some (of_nat (size S), s')"
    and "(p, ss) \<in> set (n_pvp A) \<Longrightarrow>
      \<exists>s'. im_length N (pd_delegated_stakes M (vp_dict (na_pvp n) (operator p))) s = Some (of_nat (length ss), s')"
    and "(p, ss) \<in> set (n_vp A) \<Longrightarrow>
      \<exists>s'. im_length N (pd_delegated_stakes M (vp_dict (na_vp n) (operator p))) s = Some (of_nat (length ss), s')"
proof -
  obtain \<sigma> where s: "rep s \<sigma>" and ok: "network_ok B n M A \<sigma>" using A by (rule representsE)
  note r = ok [unfolded network_ok_def, rule_format]
  have live: "\<exists>s'. im_length N m s = Some (of_nat (length xs), s')" if "im_live Q m xs \<sigma>"
    for Q :: "'v vops" and m xs
    using simD [OF network_account_storage.sim_im_length [OF pool_storeD(1) [OF P]] s
        kv_live_length [OF that]] by blast
  show "\<exists>s'. vp_length N (na_pvp n) s = Some (of_nat (length (n_pvp A)), s')"
    "\<exists>s'. vp_length N (na_vp n) s = Some (of_nat (length (n_vp A)), s')"
    using r [of PrevValidators] r [of Validators] live [OF vp_okD(1)] by (auto simp: vp_length_def)
  show "\<exists>s'. im_length N (na_nvp n) s = Some (of_nat (size (n_nvp A)), s')"
    using r [of NextValidators] live [OF im_ok_live [OF ih_okD(1)]] by (metis region_ok.simps(3) size_mset)
  show "\<exists>s'. im_length N (pd_delegated_stakes M (na_pools a)) s = Some (of_nat (size S), s')"
    if "n_pools A a = Some (p, S)"
    using r [of "PoolOf a"] that live [OF im_ok_live [OF ih_okD(1)]] by fastforce
  show "\<exists>s'. im_length N (pd_delegated_stakes M (vp_dict (na_pvp n) (operator p))) s = Some (of_nat (length ss), s')"
    if "(p, ss) \<in> set (n_pvp A)"
    using vp_okD(2) [OF _ that] r [of PrevValidators] live [OF im_ok_live] by (fastforce simp: dict_ok_def)
  show "\<exists>s'. im_length N (pd_delegated_stakes M (vp_dict (na_vp n) (operator p))) s = Some (of_nat (length ss), s')"
    if "(p, ss) \<in> set (n_vp A)"
    using vp_okD(2) [OF _ that] r [of Validators] live [OF im_ok_live] by (fastforce simp: dict_ok_def)
qed

text \<open>A length read from a store is the number of entries, and within a \<open>u16\<close> capacity.\<close>

definition length_is :: "(u32 \<times> 's) option \<Rightarrow> nat \<Rightarrow> u16 \<Rightarrow> bool" where
  "length_is r k c \<longleftrightarrow> (case r of Some (l, _) \<Rightarrow> unat l = k | None \<Rightarrow> False) \<and> k \<le> unat c"

lemma length_isI:
  assumes "\<exists>t. r = Some (of_nat k, t)" "k \<le> unat c"
  shows "length_is r k c"
proof -
  have "unat c < 65536" using unsigned_less [of c] by simp
  then have "unat (of_nat k :: u32) = k" using assms(2) by (simp add: unat_of_nat)
  then show ?thesis using assms by (auto simp: length_is_def)
qed

lemma validators_wf_stakes:
  "validators_wf n M ps \<Longrightarrow> (p, ss) \<in> set ps \<Longrightarrow> length ss \<le> unat M"
  by (auto simp: validators_wf_def)

section \<open>Properties\<close>

text \<open>
  C2: Every sequence of operations on the network account that keeps the contract of each one
  runs on every lawful store without a panic: its outcomes, the errors of full containers and
  the extracted keys included, are those of the specification on the represented network, and
  the store represents the network the specification ends in.
\<close>

theorem network_run:
  assumes P: "pool_store N rep B" and A: "represents rep B n M A s"
    and r: "net_spec_run n M cs A = Some (rs, A')"
  shows "\<exists>s'. net_run N B n M cs s = Some (rs, s') \<and> represents rep B n M A' s'"
  by (rule net_run_refines [OF P A r])

theorem network_run_witness:
  "\<exists>s'. net_run kv_store borsh_std 1 2
     [NvpInsert (PoolKey (b32_fill 1) 10), NvpInsert (PoolKey (b32_fill 2) 5), NvpExtract, SetEpoch 7,
      NvpExtract] Map.empty =
     Some ([Done, Refused, Extracted (Some (PoolKey (b32_fill 1) 10)), Done, Extracted None], s')"
proof -
  have "net_spec_run 1 2
     [NvpInsert (PoolKey (b32_fill 1) 10), NvpInsert (PoolKey (b32_fill 2) 5), NvpExtract, SetEpoch 7,
      NvpExtract] empty_network =
     Some ([Done, Refused, Extracted (Some (PoolKey (b32_fill 1) 10)), Done, Extracted None],
       empty_network\<lparr>n_epoch := 7\<rparr>)"
    by (simp add: empty_network_def)
  from network_run [OF kv_std.pool_store_axioms represents_empty this] show ?thesis by blast
qed

definition pool_a :: pool where
  "pool_a = \<lparr>operator = b32_fill 1, commission_rate = 10, power = 500, operator_stake = None\<rparr>"

text \<open>
  C13: The network account is within its limits after every run from a represented state: a
  validator set holds at most \<open>n\<close> pools and each pool at most \<open>M\<close> stakes, no operator occurs twice
  in a validator set and no owner twice in a pool.  The \<open>u32\<close> lengths that the code reads from the
  store are the numbers of entries of the previous, the current and the next validators, of the
  stakes of each pool of the first two, and of the stakes of each pool of the next ones.
\<close>

theorem network_within_limits:
  assumes P: "pool_store N rep B" and A: "represents rep B n M A s"
    and r: "net_spec_run n M cs A = Some (rs, A')"
  shows "\<exists>s'. net_run N B n M cs s = Some (rs, s') \<and> network_wf n M A' \<and>
    length_is (vp_length N (na_pvp n) s') (length (n_pvp A')) n \<and>
    length_is (vp_length N (na_vp n) s') (length (n_vp A')) n \<and>
    length_is (im_length N (na_nvp n) s') (size (n_nvp A')) n \<and>
    (\<forall>(p, ss) \<in> set (n_pvp A').
       length_is (im_length N (pd_delegated_stakes M (vp_dict (na_pvp n) (operator p))) s') (length ss) M) \<and>
    (\<forall>(p, ss) \<in> set (n_vp A').
       length_is (im_length N (pd_delegated_stakes M (vp_dict (na_vp n) (operator p))) s') (length ss) M) \<and>
    (\<forall>a p S. n_pools A' a = Some (p, S) \<longrightarrow>
       length_is (im_length N (pd_delegated_stakes M (na_pools a)) s') (size S) M)"
proof -
  obtain s' where s': "net_run N B n M cs s = Some (rs, s')" "represents rep B n M A' s'"
    using net_run_refines [OF P A r] by blast
  have w: "network_wf n M A'" by (rule represents_within [OF s'(2)])
  note wf = w [unfolded network_wf_def] and L = represents_lengths [OF P s'(2)]
  have "length (n_vp A') \<le> unat n" "length (n_pvp A') \<le> unat n"
    using wf by (simp_all add: validators_wf_def)
  then have "length_is (vp_length N (na_pvp n) s') (length (n_pvp A')) n"
    "length_is (vp_length N (na_vp n) s') (length (n_vp A')) n"
    "length_is (im_length N (na_nvp n) s') (size (n_nvp A')) n"
    using L(1-3) wf by (auto intro: length_isI)
  moreover have "length_is (im_length N (pd_delegated_stakes M (vp_dict (na_pvp n) (operator p))) s') (length ss) M"
    if "(p, ss) \<in> set (n_pvp A')" for p ss
    using L(5) [OF that] validators_wf_stakes [OF _ that] wf by (blast intro: length_isI)
  moreover have "length_is (im_length N (pd_delegated_stakes M (vp_dict (na_vp n) (operator p))) s') (length ss) M"
    if "(p, ss) \<in> set (n_vp A')" for p ss
    using L(6) [OF that] validators_wf_stakes [OF _ that] wf by (blast intro: length_isI)
  moreover have "length_is (im_length N (pd_delegated_stakes M (na_pools a)) s') (size S) M"
    if "n_pools A' a = Some (p, S)" for a p S
    using L(4) [OF that] wf that by (blast intro: length_isI)
  ultimately show ?thesis using s'(1) w by blast
qed

text \<open>
  A pool with a stake, a pool with more stakes than \<open>M\<close>, a next validator and a delegated stake.
\<close>

theorem network_within_limits_witness:
  "\<exists>s'. net_run kv_store borsh_std 2 1
     [VpPush pool_a [StakeValue (Stake (b32_fill 2) 7)],
      PvpPush pool_a [StakeValue (Stake (b32_fill 2) 7), StakeValue (Stake (b32_fill 3) 7)],
      NvpInsert (PoolKey (b32_fill 1) 10), MakePool (b32_fill 1) pool_a,
      Delegate (b32_fill 1) (StakeValue (Stake (b32_fill 2) 7))] Map.empty =
       Some ([Done, Done, Done, Done, Done], s') \<and>
     length_is (vp_length kv_store (na_vp 2) s') 1 2 \<and> length_is (vp_length kv_store (na_pvp 2) s') 1 2 \<and>
     length_is (im_length kv_store (na_nvp 2) s') 1 2 \<and>
     length_is (im_length kv_store (pd_delegated_stakes 1 (vp_dict (na_vp 2) (b32_fill 1))) s') 1 1 \<and>
     length_is (im_length kv_store (pd_delegated_stakes 1 (vp_dict (na_pvp 2) (b32_fill 1))) s') 0 1 \<and>
     length_is (im_length kv_store (pd_delegated_stakes 1 (na_pools (b32_fill 1))) s') 1 1"
proof -
  let ?s2 = "StakeValue (Stake (b32_fill 2) 7)" and ?s3 = "StakeValue (Stake (b32_fill 3) 7)"
  let ?A = "empty_network\<lparr>n_vp := [(pool_a, [?s2])], n_pvp := [(pool_a, [])],
    n_nvp := {#PoolKey (b32_fill 1) 10#}, n_pools := [b32_fill 1 \<mapsto> (pool_a, {#?s2#})]\<rparr>"
  have "net_spec_run 2 1 [VpPush pool_a [?s2], PvpPush pool_a [?s2, ?s3], NvpInsert (PoolKey (b32_fill 1) 10),
      MakePool (b32_fill 1) pool_a, Delegate (b32_fill 1) ?s2] empty_network =
    Some ([Done, Done, Done, Done, Done], ?A)"
    by (simp add: empty_network_def spec_push_def pool_a_def put_n_pool_def pool_stakes_def)
  from network_within_limits [OF kv_std.pool_store_axioms represents_empty this]
  obtain s' where s': "net_run kv_store borsh_std 2 1 [VpPush pool_a [?s2], PvpPush pool_a [?s2, ?s3],
      NvpInsert (PoolKey (b32_fill 1) 10), MakePool (b32_fill 1) pool_a, Delegate (b32_fill 1) ?s2] Map.empty =
      Some ([Done, Done, Done, Done, Done], s')"
    "length_is (vp_length kv_store (na_pvp 2) s') (length (n_pvp ?A)) 2"
    "length_is (vp_length kv_store (na_vp 2) s') (length (n_vp ?A)) 2"
    "length_is (im_length kv_store (na_nvp 2) s') (size (n_nvp ?A)) 2"
    "\<forall>(p, ss) \<in> set (n_pvp ?A).
       length_is (im_length kv_store (pd_delegated_stakes 1 (vp_dict (na_pvp 2) (operator p))) s') (length ss) 1"
    "\<forall>(p, ss) \<in> set (n_vp ?A).
       length_is (im_length kv_store (pd_delegated_stakes 1 (vp_dict (na_vp 2) (operator p))) s') (length ss) 1"
    "\<And>a p S. n_pools ?A a = Some (p, S) \<Longrightarrow>
       length_is (im_length kv_store (pd_delegated_stakes 1 (na_pools a)) s') (size S) 1"
    by blast
  have "length_is (im_length kv_store (pd_delegated_stakes 1 (na_pools (b32_fill 1))) s') 1 1"
    using s'(7) [of "b32_fill 1" pool_a "{#?s2#}"] by simp
  then show ?thesis
    using s'(1-6) by (intro exI [of _ s'] conjI) (simp_all add: empty_network_def pool_a_def)
qed

end
