(* ===== verification/World_Calls.thy ===== *)
theory World_Calls
  imports Network_Run
begin

text \<open>
  Sequences of operations on a world state: account fields, contract storages, the network
  account, commits and the upgrade, with their execution and their specification.  A commit closes
  the world state, applies the changes to the database and opens a new world state on it at the
  returned root, as the caller of the library does at the end of every block.
\<close>

section \<open>Access to the accounts\<close>

text \<open>
  The references that \<open>account_trie\<close> and \<open>account_trie_mut\<close> return: the first is read, an edit
  through the second changes the accounts trie of the world state.
\<close>

definition ws_account_trie :: "world_state \<Rightarrow> accounts_trie" where
  "ws_account_trie w = accounts_trie w"

definition ws_account_trie_mut ::
    "(accounts_trie \<Rightarrow> 'r \<times> accounts_trie) \<Rightarrow> world_state \<Rightarrow> 'r \<times> world_state" where
  "ws_account_trie_mut edit w =
     (case edit (accounts_trie w) of (r, A) \<Rightarrow> (r, w\<lparr>accounts_trie := A\<rparr>))"

section \<open>Calls and their execution\<close>

datatype world_call =
    SetNonce b32 u64
  | SetBalance b32 u64
  | SetCode b32 bytes
  | SetCbiVersion b32 u32
  | ReadNonce b32
  | ReadBalance b32
  | ReadCode b32
  | ReadCbiVersion b32
  | ProveNonce b32
  | ProveBalance b32
  | ProveCode b32
  | ProveCbiVersion b32
  | ProveStorageHash b32
  | Contains account_field b32
  | ListAccounts
  | ListStorageHashes
  | SetStorage b32 bytes bytes
  | RemoveStorage b32 bytes
  | BatchSetStorage b32 "(bytes \<times> bytes) list"
  | RemoveStorageTrie b32
  | ReadStorage b32 bytes
  | ProveStorage b32 bytes
  | ContainsStorage b32 bytes
  | OnNetwork net_call
  | Commit
  | Upgrade

datatype answer =
    Unit
  | Number u64
  | Bytes "bytes option"
  | Version "u32 option"
  | Truth bool
  | Accounts "b32 \<Rightarrow> account"
  | OfNetwork outcome

text \<open>Every \<open>Result\<close> is unwrapped: an error is a panic.\<close>

definition unwrap_edit :: "('e + unit) \<times> world_state \<Rightarrow> (answer \<times> world_state) option" where
  "unwrap_edit x = (case x of (Inl _, _) \<Rightarrow> None | (Inr _, w) \<Rightarrow> Some (Unit, w))"

definition unwrap_read :: "('a \<Rightarrow> answer) \<Rightarrow> world_state \<Rightarrow> ('e + 'a) option \<Rightarrow> (answer \<times> world_state) option" where
  "unwrap_read f w x = (case x of Some (Inr a) \<Rightarrow> Some (f a, w) | _ \<Rightarrow> None)"

text \<open>The answer of a read with proof is the value; proofs are not compared.\<close>

definition proved :: "('a \<Rightarrow> answer) \<Rightarrow> bytes list \<times> 'a \<Rightarrow> answer" where
  "proved f x = f (snd x)"

text \<open>
  What \<open>all\<close> tells of the accounts, the storage hashes apart: those it lists, and a default
  account for the others.
\<close>

definition listed :: "(b32 \<times> account) list \<Rightarrow> b32 \<Rightarrow> account" where
  "listed R a = (case map_of R a of None \<Rightarrow> account_default | Some x \<Rightarrow> x\<lparr>storage_hash := []\<rparr>)"

text \<open>Reading the storage hash of every listed account panics on one that is not 32 bytes.\<close>

definition storage_hashes :: "(b32 \<times> account) list \<Rightarrow> world_state \<Rightarrow> (answer \<times> world_state) option" where
  "storage_hashes R w =
     (if list_all (\<lambda>(_, x). account_storage_hash x \<noteq> None) R then Some (Unit, w) else None)"

definition read_storage :: "'t trie_lib \<Rightarrow> b32 \<Rightarrow> ('a \<Rightarrow> answer) \<Rightarrow> (storage_trie \<Rightarrow> mpt_error + 'a) \<Rightarrow>
    world_state \<Rightarrow> (answer \<times> world_state) option" where
  "read_storage E a f read w = do {
     (r, w) \<leftarrow> ws_storage_trie E w a;
     case r of
       Inl _ \<Rightarrow> None
     | Inr T \<Rightarrow> unwrap_read f w (Some (read T))
   }"

definition edit_storage :: "'t trie_lib \<Rightarrow> b32 \<Rightarrow> (storage_trie \<Rightarrow> (mpt_error + unit) \<times> storage_trie) \<Rightarrow>
    world_state \<Rightarrow> (answer \<times> world_state) option" where
  "edit_storage E a edit w = do {
     (r, w) \<leftarrow> ws_storage_trie_mut E w a;
     case r of
       Inl _ \<Rightarrow> None
     | Inr T \<Rightarrow>
         (case edit T of
            (Inl _, _) \<Rightarrow> None
          | (Inr _, T) \<Rightarrow> Some (Unit, ws_put_storage a T w))
   }"

definition commit :: "'t trie_lib \<Rightarrow> world_state \<Rightarrow> (answer \<times> world_state) option" where
  "commit E w =
     (case ws_close E w of
        (Inl _, _) \<Rightarrow> None
      | (Inr (ins, del, r), _) \<Rightarrow>
          Some (Unit, ws_open (ws_version w) (apply_changes (ins, del) (ws_db w)) r))"

text \<open>Only a version 1 world state has the method \<open>upgrade\<close>.\<close>

definition upgraded :: "'t trie_lib \<Rightarrow> world_state \<Rightarrow> (answer \<times> world_state) option" where
  "upgraded E w =
     (if ws_version w = V1 then
        (case ws_upgrade E w of Some (Inr w) \<Rightarrow> Some (Unit, w) | _ \<Rightarrow> None)
      else None)"

fun world_exec :: "'t trie_lib \<Rightarrow> borsh_lib \<Rightarrow> u16 \<Rightarrow> u16 \<Rightarrow> world_call \<Rightarrow> world_state \<Rightarrow>
    (answer \<times> world_state) option" where
  "world_exec E B n M (SetNonce a x) w =
     unwrap_edit (ws_account_trie_mut (\<lambda>A. at_set_nonce E A a x) w)"
| "world_exec E B n M (SetBalance a x) w =
     unwrap_edit (ws_account_trie_mut (\<lambda>A. at_set_balance E A a x) w)"
| "world_exec E B n M (SetCode a c) w =
     unwrap_edit (ws_account_trie_mut (\<lambda>A. at_set_code E A a c) w)"
| "world_exec E B n M (SetCbiVersion a x) w =
     unwrap_edit (ws_account_trie_mut (\<lambda>A. at_set_cbi_version E A a x) w)"
| "world_exec E B n M (ReadNonce a) w = unwrap_read Number w (at_nonce E (ws_account_trie w) a)"
| "world_exec E B n M (ReadBalance a) w = unwrap_read Number w (at_balance E (ws_account_trie w) a)"
| "world_exec E B n M (ReadCode a) w = unwrap_read Bytes w (Some (at_code E (ws_account_trie w) a))"
| "world_exec E B n M (ReadCbiVersion a) w =
     unwrap_read Version w (at_cbi_version E (ws_account_trie w) a)"
| "world_exec E B n M (ProveNonce a) w =
     unwrap_read (proved Number) w (at_nonce_with_proof E (ws_account_trie w) a)"
| "world_exec E B n M (ProveBalance a) w =
     unwrap_read (proved Number) w (at_balance_with_proof E (ws_account_trie w) a)"
| "world_exec E B n M (ProveCode a) w =
     unwrap_read (proved Bytes) w (Some (at_code_with_proof E (ws_account_trie w) a))"
| "world_exec E B n M (ProveCbiVersion a) w =
     unwrap_read (proved Version) w (at_cbi_version_with_proof E (ws_account_trie w) a)"
| "world_exec E B n M (ProveStorageHash a) w =
     unwrap_read (\<lambda>_. Unit) w (at_storage_hash_with_proof E (ws_account_trie w) a)"
| "world_exec E B n M (Contains f a) w = unwrap_read Truth w (Some (at_contains E (ws_account_trie w) f a))"
| "world_exec E B n M ListAccounts w =
     unwrap_read (\<lambda>R. Accounts (listed R)) w (Some (at_all E (ws_account_trie w)))"
| "world_exec E B n M ListStorageHashes w =
     (case at_all E (ws_account_trie w) of Inl _ \<Rightarrow> None | Inr R \<Rightarrow> storage_hashes R w)"
| "world_exec E B n M (SetStorage a k v) w = edit_storage E a (\<lambda>T. st_set E T k v) w"
| "world_exec E B n M (RemoveStorage a k) w = edit_storage E a (\<lambda>T. st_remove E T k) w"
| "world_exec E B n M (BatchSetStorage a kvs) w = edit_storage E a (\<lambda>T. st_batch_set E T kvs) w"
| "world_exec E B n M (RemoveStorageTrie a) w = edit_storage E a (\<lambda>T. st_remove_trie E T) w"
| "world_exec E B n M (ReadStorage a k) w = read_storage E a Bytes (\<lambda>T. st_get E T k) w"
| "world_exec E B n M (ProveStorage a k) w = read_storage E a (proved Bytes) (\<lambda>T. st_get_with_proof E T k) w"
| "world_exec E B n M (ContainsStorage a k) w = read_storage E a Truth (\<lambda>T. st_contains E T k) w"
| "world_exec E B n M (OnNetwork c) w = do {
     (r, w) \<leftarrow> net_exec (storage_world_state E) B n M c w;
     Some (OfNetwork r, w)
   }"
| "world_exec E B n M Commit w = commit E w"
| "world_exec E B n M Upgrade w = upgraded E w"

fun world_steps :: "'t trie_lib \<Rightarrow> borsh_lib \<Rightarrow> u16 \<Rightarrow> u16 \<Rightarrow> world_call list \<Rightarrow> world_state \<Rightarrow>
    (answer list \<times> world_state) option" where
  "world_steps E B n M [] w = Some ([], w)"
| "world_steps E B n M (c # cs) w = do {
     (r, w) \<leftarrow> world_exec E B n M c w;
     (rs, w) \<leftarrow> world_steps E B n M cs w;
     Some (r # rs, w)
   }"

section \<open>The specification\<close>

text \<open>
  A chain is a version, a map of accounts, a map of storages and the network.  The storage of the
  network address is the network: a client does not write it directly.
\<close>

record chain =
  chain_version :: version
  accounts :: "b32 \<Rightarrow> account"
  storages :: "b32 \<Rightarrow> bytes bytemap"
  net :: network

definition put_account :: "b32 \<Rightarrow> account \<Rightarrow> chain \<Rightarrow> chain" where
  "put_account a x X = X\<lparr>accounts := (accounts X)(a := x)\<rparr>"

definition spec_edit_storage :: "b32 \<Rightarrow> bytes bytemap \<Rightarrow> chain \<Rightarrow> (answer \<times> chain) option" where
  "spec_edit_storage a s X =
     (if a = network_address then None else Some (Unit, X\<lparr>storages := (storages X)(a := s)\<rparr>))"

definition spec_read_storage :: "b32 \<Rightarrow> answer \<Rightarrow> chain \<Rightarrow> (answer \<times> chain) option" where
  "spec_read_storage a r X = (if a = network_address then None else Some (r, X))"

text \<open>
  A field is contained when its value is not the default; that a default value is stored, and
  the storage hash, are left open.
\<close>

fun spec_contains :: "account_field \<Rightarrow> account \<Rightarrow> bool option" where
  "spec_contains Nonce x = (if nonce x = 0 then None else Some True)"
| "spec_contains Balance x = (if account.balance x = 0 then None else Some True)"
| "spec_contains ContractCode x = Some (code x \<noteq> [])"
| "spec_contains CbiVersion x = Some (cbi_version x \<noteq> None)"
| "spec_contains StorageHash x = None"

definition code_bytes :: "account \<Rightarrow> bytes option" where
  "code_bytes x = (if code x = [] then None else Some (code x))"

text \<open>A commit keeps the chain, an upgrade all but its version.\<close>

fun chain_spec :: "u16 \<Rightarrow> u16 \<Rightarrow> world_call \<Rightarrow> chain \<Rightarrow> (answer \<times> chain) option" where
  "chain_spec n M (SetNonce a x) X = Some (Unit, put_account a ((accounts X a)\<lparr>nonce := x\<rparr>) X)"
| "chain_spec n M (SetBalance a x) X = Some (Unit, put_account a ((accounts X a)\<lparr>account.balance := x\<rparr>) X)"
| "chain_spec n M (SetCode a c) X = Some (Unit, put_account a ((accounts X a)\<lparr>code := c\<rparr>) X)"
| "chain_spec n M (SetCbiVersion a x) X =
     Some (Unit, put_account a ((accounts X a)\<lparr>cbi_version := Some x\<rparr>) X)"
| "chain_spec n M (ReadNonce a) X = Some (Number (nonce (accounts X a)), X)"
| "chain_spec n M (ReadBalance a) X = Some (Number (account.balance (accounts X a)), X)"
| "chain_spec n M (ReadCode a) X = Some (Bytes (code_bytes (accounts X a)), X)"
| "chain_spec n M (ReadCbiVersion a) X = Some (Version (cbi_version (accounts X a)), X)"
| "chain_spec n M (ProveNonce a) X = Some (Number (nonce (accounts X a)), X)"
| "chain_spec n M (ProveBalance a) X = Some (Number (account.balance (accounts X a)), X)"
| "chain_spec n M (ProveCode a) X = Some (Bytes (code_bytes (accounts X a)), X)"
| "chain_spec n M (ProveCbiVersion a) X = Some (Version (cbi_version (accounts X a)), X)"
| "chain_spec n M (ProveStorageHash a) X = Some (Unit, X)"
| "chain_spec n M (Contains f a) X = map_option (\<lambda>b. (Truth b, X)) (spec_contains f (accounts X a))"
| "chain_spec n M ListAccounts X = Some (Accounts (accounts X), X)"
| "chain_spec n M ListStorageHashes X = Some (Unit, X)"
| "chain_spec n M (SetStorage a k v) X = spec_edit_storage a (put_content k v (storages X a)) X"
| "chain_spec n M (RemoveStorage a k) X = spec_edit_storage a ((storages X a)(k := None)) X"
| "chain_spec n M (BatchSetStorage a kvs) X =
     (if distinct (map fst kvs) then spec_edit_storage a (put_all kvs (storages X a)) X else None)"
| "chain_spec n M (RemoveStorageTrie a) X = spec_edit_storage a Map.empty X"
| "chain_spec n M (ReadStorage a k) X = spec_read_storage a (Bytes (storages X a k)) X"
| "chain_spec n M (ProveStorage a k) X = spec_read_storage a (Bytes (storages X a k)) X"
| "chain_spec n M (ContainsStorage a k) X = spec_read_storage a (Truth (storages X a k \<noteq> None)) X"
| "chain_spec n M (OnNetwork c) X = do {
     (r, A) \<leftarrow> net_spec n M c (net X);
     Some (OfNetwork r, X\<lparr>net := A\<rparr>)
   }"
| "chain_spec n M Commit X = Some (Unit, X)"
| "chain_spec n M Upgrade X =
     (if chain_version X = V1 then Some (Unit, X\<lparr>chain_version := V2\<rparr>) else None)"

fun chain_spec_run :: "u16 \<Rightarrow> u16 \<Rightarrow> world_call list \<Rightarrow> chain \<Rightarrow> (answer list \<times> chain) option" where
  "chain_spec_run n M [] X = Some ([], X)"
| "chain_spec_run n M (c # cs) X = do {
     (r, X) \<leftarrow> chain_spec n M c X;
     (rs, X) \<leftarrow> chain_spec_run n M cs X;
     Some (r # rs, X)
   }"

text \<open>\<open>K\<close>: all changes the world state collected since it was opened were collected in version 2.\<close>

definition holds_chain ::
    "'t trie_model \<Rightarrow> borsh_lib \<Rightarrow> bool \<Rightarrow> u16 \<Rightarrow> u16 \<Rightarrow> chain \<Rightarrow> world_state \<Rightarrow> bool" where
  "holds_chain Md B K n M X w \<longleftrightarrow>
     represents (world_rep Md K (chain_version X) (ws_db w) (storages X) (accounts X)) B n M (net X) w"

text \<open>
  The condition on the commits of a run: each one closes a world state of version 1, or one that
  collected its changes in version 2, or one whose tries are separate.  It concerns the first commit
  after the upgrade only, which writes changes of both versions.
\<close>

definition opened_v2 :: "bool \<Rightarrow> world_call \<Rightarrow> version \<Rightarrow> bool" where
  "opened_v2 K c V \<longleftrightarrow> K \<or> c = Commit \<and> V = V2"

lemma opened_v2_simps [simp]: "c \<noteq> Commit \<Longrightarrow> opened_v2 K c V = K" "opened_v2 True c V"
  by (simp_all add: opened_v2_def)

fun commits_separate :: "'t trie_lib \<Rightarrow> borsh_lib \<Rightarrow> 't trie_model \<Rightarrow> u16 \<Rightarrow> u16 \<Rightarrow> bool \<Rightarrow> world_call list \<Rightarrow>
    world_state \<Rightarrow> bool" where
  "commits_separate E B Md n M K [] w = True"
| "commits_separate E B Md n M K (c # cs) w =
     ((c = Commit \<longrightarrow> K \<or> ws_version w = V1 \<or> separate E Md w) \<and>
      (case world_exec E B n M c w of
         None \<Rightarrow> True
       | Some (_, w') \<Rightarrow> commits_separate E B Md n M (opened_v2 K c (ws_version w)) cs w'))"

lemma commits_separate_v2 [simp]: "commits_separate E B Md n M True cs w"
  by (induction cs arbitrary: w) (simp_all split: option.split)

end
