(* ===== verification/Node_Paths.thy ===== *)
theory Node_Paths
  imports Accounts_Trie Storage_Trie
begin

text \<open>
  Where nodes of version 1 tries lie.  The physical keys of the accounts trie can meet those of a
  storage trie (\<open>v1_node_keys_meet\<close>), but the visibility byte of their keys tells the entries below
  such nodes apart: under a collision-free hash no node of one is a node of the other.
\<close>

section \<open>Half bytes\<close>

lemma nibbles_simps [simp]:
  "nibbles [] = []" "nibbles (b # bs) = b div 16 # b mod 16 # nibbles bs"
  "nibbles (xs @ ys) = nibbles xs @ nibbles ys"
  by (simp_all add: nibbles_def)

lemma length_nibbles [simp]: "length (nibbles bs) = 2 * length bs"
  by (induction bs) simp_all

lemma nibbles_inj [simp]: "nibbles xs = nibbles ys \<longleftrightarrow> xs = ys"
proof (induction xs arbitrary: ys)
  case Nil
  then show ?case by (cases ys) simp_all
next
  case (Cons x xs)
  show ?case
  proof (cases ys)
    case (Cons y ys')
    have "x = y" if "x div 16 = y div 16" "x mod 16 = y mod 16"
      using that by (metis div_mult_mod_eq)
    then show ?thesis using Cons.IH Cons by auto
  qed simp
qed

lemma path_nibbles_append: "path_nibbles (bs @ fst p, snd p) = nibbles bs @ path_nibbles p"
  by (simp add: path_nibbles_def)

lemma even_path: "even (length (path_nibbles p)) \<longleftrightarrow> snd p = None"
  by (cases "snd p") (simp_all add: path_nibbles_def)

lemma path_bytes_append:
  assumes "path_bytes p = bs @ path_bytes q" "snd p = None \<longleftrightarrow> snd q = None"
  shows "p = (bs @ fst q, snd q)"
proof (cases "snd q")
  case None
  then show ?thesis using assms by (cases p) (simp add: path_bytes_def)
next
  case (Some n)
  then obtain n' where "snd p = Some n'" using assms(2) by auto
  then show ?thesis using assms(1) Some by (cases p) (simp add: path_bytes_def flip: append_assoc)
qed

section \<open>Entries below a path\<close>

text \<open>
  The nodes at two paths that lie in one another's place have the same entries below them only if
  the keys of the one trie are those of the other behind the same bytes.
\<close>

lemma below_shifted:
  assumes "path_bytes p = bs @ path_bytes q" "below m p = below m' q" "below m p \<noteq> {}"
  obtains k v where "m (bs @ k) = Some v" "m' k = Some v"
proof -
  obtain s v where s: "(s, v) \<in> below m p" "(s, v) \<in> below m' q" using assms(2,3) by auto
  then obtain l k where l: "m l = Some v" "nibbles l = path_nibbles p @ s"
    and k: "m' k = Some v" "nibbles k = path_nibbles q @ s"
    by (auto simp: below_def)
  have "even (length (path_nibbles p @ s))" "even (length (path_nibbles q @ s))"
    by (simp_all flip: l(2) k(2))
  then have "snd p = None \<longleftrightarrow> snd q = None"
    by (simp add: even_path)
  then have "p = (bs @ fst q, snd q)" by (rule path_bytes_append [OF assms(1)])
  then have "path_nibbles p = nibbles bs @ path_nibbles q"
    using path_nibbles_append [of bs q] by simp
  then have "nibbles l = nibbles (bs @ k)" by (simp add: l(2) k(2))
  then have "l = bs @ k" by (simp only: nibbles_inj)
  then show thesis using that l(1) k(1) by simp
qed

text \<open>The byte behind the address is 1 in the accounts trie and 0 in a storage trie.\<close>

lemma v1_entries_apart:
  assumes "accounts_wf V1 m" "storage_wf V1 m'" "m (b32_bytes a @ k) = Some v"
  shows "m' k \<noteq> Some v"
proof
  assume "m' k = Some v"
  then obtain k' where "k = storage_key V1 k'" using assms(2) by (auto simp: storage_wf_def)
  moreover obtain b f where "b32_bytes a @ k = account_key V1 b f"
    using assms(1,3) unfolding accounts_wf_def by blast
  ultimately show False by (auto simp: account_key_def storage_key_def)
qed

section \<open>Nodes of well-formed tries\<close>

lemma v1_content_keys_apart:
  assumes C: "merkle_trie E M" and wf: "accounts_wf V1 m" "storage_wf V1 m'"
    and d: "kdb_version d = V1" "prefix d = []" "kdb_version d' = V1" "prefix d' = b32_bytes a"
  shows "content_keys M d m \<inter> content_keys M d' m' = {}"
proof (rule equals0I)
  fix x assume "x \<in> content_keys M d m \<inter> content_keys M d' m'"
  then obtain h p g q where n: "is_node M m h p" "is_node M m' g q"
    and x: "build_key d (ref_node_key h p) = build_key d' (ref_node_key g q)"
    by (auto simp: content_keys_def)
  have "path_bytes p @ b32_bytes h = (b32_bytes a @ path_bytes q) @ b32_bytes g"
    using x d by (simp add: build_key_tag key_tag_def ref_node_key_path)
  then have p: "path_bytes p = b32_bytes a @ path_bytes q" and "h = g"
    by (simp_all only: node_key_split)
  then have n': "is_node M m' h q" using n(2) by simp
  have "p \<noteq> q" "p \<noteq> ([], None)"
    using p by (auto simp: path_bytes_def dest: arg_cong [of _ _ length])
  then have "below m p = below m' q" "below m p \<noteq> {}"
    using merkle_trie.same_hash [OF C n(1) n'] merkle_trie.inhabited [OF C n(1)] by simp_all
  from below_shifted [OF p this] show False
    using v1_entries_apart [OF wf] by metis
qed

text \<open>Storage tries of different addresses have different physical keys anyway.\<close>

lemma v1_storage_keys_apart:
  assumes "kdb_version d = V1" "prefix d = b32_bytes a" "kdb_version d' = V1" "prefix d' = b32_bytes b" "a \<noteq> b"
  shows "content_keys M d m \<inter> content_keys M d' m' = {}"
  using assms by (auto simp: content_keys_def build_key_tag key_tag_def)

end
