(* ===== verification/World_V1.thy ===== *)
theory World_V1
  imports World_Close Node_Paths
begin

text \<open>
  The tries of a version 1 world state are separate.  What a trie has touched are nodes of the tries
  it was in the course of its edits; all of these are well formed, and nodes of well-formed tries
  have different physical keys (\<open>Node_Paths\<close>).
\<close>

definition home_wf :: "b32 option \<Rightarrow> content \<Rightarrow> bool" where
  "home_wf x = (case x of None \<Rightarrow> accounts_wf V1 | Some a \<Rightarrow> storage_wf V1)"

lemma v1_homes_apart:
  assumes C: "merkle_trie E M" and xy: "x \<noteq> y" and wf: "home_wf x m" "home_wf y m'"
    and d: "kdb_version d = V1" "prefix d = home x" "kdb_version d' = V1" "prefix d' = home y"
  shows "content_keys M d m \<inter> content_keys M d' m' = {}"
proof (cases x)
  case None
  then obtain b where y: "y = Some b" using xy by (cases y) auto
  show ?thesis
    by (rule v1_content_keys_apart [OF C]) (use None y wf d in \<open>simp_all add: home_wf_def\<close>)
next
  case (Some a)
  show ?thesis
  proof (cases y)
    case None
    have "content_keys M d' m' \<inter> content_keys M d m = {}"
      by (rule v1_content_keys_apart [OF C]) (use Some None wf d in \<open>simp_all add: home_wf_def\<close>)
    then show ?thesis by blast
  next
    case (Some b)
    show ?thesis
      by (rule v1_storage_keys_apart) (use Some \<open>x = Some a\<close> xy d in simp_all)
  qed
qed

lemma closing_trie_history:
  assumes C: "trie_contract E M" and R: "ws_rel M w m S" and V: "ws_version w = V1"
    and t: "closing_trie E w x = Some t"
  shows "\<exists>c. mpt_holds M t c \<and> home_wf x c \<and> touched_by M (home_wf x) t"
proof (cases x)
  case None
  obtain m' where "at_holds M (closing_accounts E w) m'"
    "same_frame (at_trie (accounts_trie w)) (at_trie (closing_accounts E w))"
    using ws_close_run [OF C R] by blast
  moreover from this have "at_version (closing_accounts E w) = V1"
    using V by (simp add: same_frame_version ws_version_def)
  ultimately show ?thesis
    using t None by (auto simp: closing_trie_def home_wf_def at_holds_def)
next
  case (Some a)
  have T: "\<exists>c. mpt_holds M (st_trie T) c \<and> home_wf x c \<and> touched_by M (home_wf x) (st_trie T)"
    if "st_holds M T s" "st_version T = V1" for T s
    using that Some by (auto simp: st_holds_def home_wf_def)
  have rel: "storage_rel M w m a (S a)" using R by (simp add: ws_rel_def)
  show ?thesis
  proof (cases "map_of (storage_trie_map w) a")
    case (Some T')
    then show ?thesis
      using T [of T' "S a"] storage_relD [OF rel Some] V t \<open>x = Some a\<close>
      by (auto simp: closing_trie_def storage_home_def)
  next
    case None
    then obtain h where h: "at_storage_hash E (accounts_trie w) a = Some (Inr (Some h))"
      "t = st_trie (st_open (ws_version w) (ws_db w) h a)"
      using t Some by (auto simp: closing_trie_def split: option.splits sum.splits)
    have A: "at_holds M (accounts_trie w) m" using R by (simp add: ws_rel_def)
    have "Option.bind (m (account_key V1 a StorageHash)) b32_try_from = Some h"
      using h(1) at_getters_ok(5) [OF C A, of a] V by (simp add: ws_version_def)
    then have "st_holds M (st_open V1 (ws_db w) h a) (S a)"
      using rel None V by (auto simp: storage_rel_def bind_eq_Some_conv)
    from T [OF this] show ?thesis using h(2) V by (simp add: st_version_def st_open_def mpt_open_def)
  qed
qed

lemma v1_tries_separate:
  assumes C: "merkle_trie E M" and R: "ws_rel M w m S" and V: "ws_version w = V1"
  shows "separate E M w"
proof -
  note C' = merkle_contract [OF C]
  show ?thesis
    unfolding separate_def
  proof (intro allI impI)
    fix x y t t' assume t: "closing_trie E w x = Some t" "closing_trie E w y = Some t'" and xy: "x \<noteq> y"
    obtain c where c: "mpt_holds M t c" "home_wf x c"
      using closing_trie_history [OF C' R V t(1)] by blast
    have t': "touched_by M (home_wf y) t'"
      using closing_trie_history [OF C' R V t(2)] by blast
    have "node_keys M t \<subseteq> content_keys M (db t) c"
      using trie_nodes_of_content [OF C' c(1) [unfolded mpt_holds_def]]
      by (auto simp: node_keys_def content_keys_def)
    moreover have "content_keys M (db t) c \<inter> content_keys M (db t') c' = {}" if "home_wf y c'" for c'
      using v1_homes_apart [OF C xy c(2) that] closing_trie_home(1,2) [OF C' R t(1)]
        closing_trie_home(1,2) [OF C' R t(2)] V by simp
    ultimately show "node_keys M t \<inter> touched (db t') = {}"
      using t' unfolding touched_by_def by blast
  qed
qed

section \<open>Properties\<close>

text \<open>
  C7: In version 1, where physical keys of the accounts trie and of storage tries can meet, no trie of
  a world state has inserted or deleted a physical key of a node of another one, at the time the
  world state is closed, provided that nodes of one hash at different paths have the same entries
  below them.  So closing the world state and opening a new one at the returned root, over the
  changed database, preserves the accounts and the storages.
\<close>

theorem v1_close_open:
  assumes C: "merkle_trie E M" and R: "ws_rel M w m S" and V: "ws_version w = V1"
  shows "separate E M w \<and>
    (\<exists>ins del r w' m'. ws_close E w = (Inr (ins, del, r), w') \<and>
       ws_rel M (ws_open V1 (apply_changes (ins, del) (ws_db w)) r) m' S \<and>
       user_account V1 m' = user_account V1 m)"
proof -
  note C' = merkle_contract [OF C]
  note sep = v1_tries_separate [OF assms]
  show ?thesis using sep ws_close_ok [OF C' R sep] V unfolding fun_eq_iff by metis
qed

theorem v1_close_open_witness:
  "\<exists>ins del r w' m'. ws_close flat_lib (flat_world V1) = (Inr (ins, del, r), w') \<and>
     ws_rel flat_model (ws_open V1 (apply_changes (ins, del) (ws_db (flat_world V1))) r) m'
       ((\<lambda>_. Map.empty)(b32_fill 7 := [[1] \<mapsto> [2]]))"
  using v1_close_open [OF flat_merkle flat_world_rel flat_world_version] by blast

end
