(* ===== verification/World_Run.thy ===== *)
theory World_Run
  imports World_Calls World_V1
begin

text \<open>
  Every sequence of operations on a world state refines its specification on a chain: each call
  answers as specified and keeps the relation \<open>holds_chain\<close>.
\<close>

section \<open>The accounts of a world state\<close>

lemma user_account_put_field:
  "f \<noteq> StorageHash \<Longrightarrow> v \<noteq> [] \<Longrightarrow> user_account V (put_content (account_key V a f) v m) =
     (user_account V m)(a := write_field f v (user_account V m a))"
  by (cases f) (simp_all add: fun_eq_iff user_account_def put_content_def account_at_upd)

lemma u64_u32_to_le_nonempty [simp]: "u64_to_le x \<noteq> []" "u32_to_le i \<noteq> []"
  by (simp_all flip: length_0_conv)

lemma user_account_put:
  "user_account V (put_content (account_key V a Nonce) (u64_to_le x) m) =
     (user_account V m)(a := (user_account V m a)\<lparr>nonce := x\<rparr>)"
  "user_account V (put_content (account_key V a Balance) (u64_to_le x) m) =
     (user_account V m)(a := (user_account V m a)\<lparr>account.balance := x\<rparr>)"
  "user_account V (put_content (account_key V a ContractCode) c m) =
     (user_account V m)(a := (user_account V m a)\<lparr>code := c\<rparr>)"
  "user_account V (put_content (account_key V a CbiVersion) (u32_to_le i) m) =
     (user_account V m)(a := (user_account V m a)\<lparr>cbi_version := Some i\<rparr>)"
proof -
  show "user_account V (put_content (account_key V a ContractCode) c m) =
      (user_account V m)(a := (user_account V m a)\<lparr>code := c\<rparr>)"
    by (cases "c = []") (simp_all add: user_account_put_field, simp add: fun_eq_iff user_account_def
        account_at_def put_content_def)
qed (simp_all add: user_account_put_field from_le_to_le)

text \<open>A change of the accounts trie that keeps the storage hashes keeps the storages.\<close>

lemma ws_rel_accounts:
  assumes R: "ws_rel M w m S" and A: "at_holds M A m'" "same_frame (at_trie (accounts_trie w)) (at_trie A)"
    and m': "\<And>a. m' (account_key (ws_version w) a StorageHash) = m (account_key (ws_version w) a StorageHash)"
  shows "ws_rel M (w\<lparr>accounts_trie := A\<rparr>) m' S"
proof -
  have v: "ws_version (w\<lparr>accounts_trie := A\<rparr>) = ws_version w"
    using same_frame_version [OF A(2)] by (simp add: ws_version_def)
  have "storage_rel M (w\<lparr>accounts_trie := A\<rparr>) m' a (S a)" for a
    using R m' [of a] by (simp add: ws_rel_def storage_rel_def v cong: option.case_cong)
  moreover have "accounts_home (ws_version w) (ws_db w) A"
    using accounts_home_frame [OF _ A(2)] R by (simp add: ws_rel_def)
  moreover have "ws_version w = V1 \<longrightarrow> (\<forall>a. map_of (storage_trie_map w) a \<noteq> None \<longrightarrow>
      m' (account_key V1 a StorageHash) \<noteq> None)"
    using R m' unfolding ws_rel_def by metis
  ultimately show ?thesis using R A(1) unfolding ws_rel_def v by simp
qed

lemma world_rep_accounts:
  assumes C: "trie_contract E M" and R: "world_rep M K V d S U w \<sigma>"
    and f: "f \<noteq> StorageHash" "v \<noteq> [] \<longrightarrow> field_ok f v"
    and U': "\<And>m. user_account V m = U \<Longrightarrow> user_account V (put_content (account_key V a f) v m) = U'"
  shows "\<exists>A. at_set E (accounts_trie w) (account_key (at_version (accounts_trie w)) a f) v = (Inr (), A) \<and>
     world_rep M K V d S U' (w\<lparr>accounts_trie := A\<rparr>) \<sigma>"
proof -
  obtain m where m: "ws_rel M w m (S(network_address := \<sigma>))" "user_account V m = U"
    and w: "ws_version w = V" "ws_db w = d" "K \<longrightarrow> V = V2 \<and> ws_apart w"
    using R by (auto simp: world_rep_def)
  have A0: "at_holds M (accounts_trie w) m" "accounts_home V d (accounts_trie w)"
    using m(1) w by (simp_all add: ws_rel_def)
  obtain A where A: "at_set E (accounts_trie w) (account_key (at_version (accounts_trie w)) a f) v = (Inr (), A)"
    "at_holds M A (put_content (account_key V a f) v m)" "same_frame (at_trie (accounts_trie w)) (at_trie A)"
    using at_set_ok [OF C A0(1) f(2), of a] w(1) by (auto simp: ws_version_def)
  have "ws_rel M (w\<lparr>accounts_trie := A\<rparr>) (put_content (account_key V a f) v m) (S(network_address := \<sigma>))"
    by (rule ws_rel_accounts [OF m(1) A(2,3)]) (use f(1) w(1) in \<open>simp add: put_content_def\<close>)
  moreover have "ws_version (w\<lparr>accounts_trie := A\<rparr>) = V"
    using same_frame_version [OF A(3)] w(1) by (simp add: ws_version_def)
  moreover have "K \<longrightarrow> V = V2 \<and> ws_apart (w\<lparr>accounts_trie := A\<rparr>)"
    using accounts_frame_apart [OF _ A(3)] A0(2) w(3) by (auto simp: ws_apart_def)
  ultimately show ?thesis using A(1) U' [OF m(2)] w(2) unfolding world_rep_def by auto
qed

section \<open>Refinement\<close>

lemma edit_storage_ok:
  assumes C: "trie_contract E M" and R: "world_rep M K V d S U w \<sigma>" and a: "a \<noteq> network_address"
    and edit: "\<And>T. st_holds M T (S a) \<Longrightarrow>
      \<exists>T'. edit T = (Inr (), T') \<and> st_holds M T' s \<and> same_frame (st_trie T) (st_trie T')"
  shows "\<exists>w'. edit_storage E a edit w = Some (Unit, w') \<and> world_rep M K V d (S(a := s)) U w' \<sigma>"
proof -
  obtain T w1 where o: "ws_storage_trie_mut E w a = Some (Inr T, w1)" "st_holds M T (S a)"
    "map_of (storage_trie_map w1) a = Some T" "world_rep M K V d S U w1 \<sigma>"
    using world_rep_open [OF C R, of a] a by auto
  obtain T' where T': "edit T = (Inr (), T')" "st_holds M T' s" "same_frame (st_trie T) (st_trie T')"
    using edit [OF o(2)] by blast
  have "world_rep M K V d (S(a := s)) U (ws_put_storage a T' w1) \<sigma>"
    by (rule world_rep_put [OF o(4,3) T'(2,3)]) (use a in \<open>auto simp: fun_upd_twist\<close>)
  then show ?thesis using o(1) T'(1) by (simp add: edit_storage_def)
qed

text \<open>What the accounts trie of a world state holds, in terms of its accounts.\<close>

lemma world_rep_content:
  assumes "world_rep M K V d S U w \<sigma>"
  obtains m where "at_holds M (accounts_trie w) m" "at_version (accounts_trie w) = V"
    "\<And>a. nonce (account_at V m a) = nonce (U a)"
    "\<And>a. account.balance (account_at V m a) = account.balance (U a)"
    "\<And>a. cbi_version (account_at V m a) = cbi_version (U a)"
    "\<And>a. m (account_key V a ContractCode) = code_bytes (U a)" "user_account V m = U"
proof -
  obtain m where m: "at_holds M (accounts_trie w) m" "user_account V m = U"
    and w: "at_version (accounts_trie w) = V"
    using assms by (auto simp: world_rep_def ws_rel_def ws_version_def)
  have U: "U a = (account_at V m a)\<lparr>storage_hash := []\<rparr>" for a using m(2) by (auto simp: user_account_def)
  have "m (account_key V a ContractCode) \<noteq> Some []" for a
    using at_field [OF m(1), unfolded w, of a ContractCode "[]"] by (auto simp: field_ok_def)
  then have "m (account_key V a ContractCode) = code_bytes (U a)" for a
    unfolding U code_bytes_def by (auto simp: account_at_def split: option.splits)
  then show ?thesis using that [OF m(1) w] m(2) by (simp add: U)
qed

lemma world_rep_getters:
  assumes C: "trie_contract E M" and R: "world_rep M K V d S U w \<sigma>"
  shows "at_nonce E (ws_account_trie w) a = Some (Inr (nonce (U a)))"
    and "at_balance E (ws_account_trie w) a = Some (Inr (account.balance (U a)))"
    and "at_code E (ws_account_trie w) a = Inr (code_bytes (U a))"
    and "at_cbi_version E (ws_account_trie w) a = Some (Inr (cbi_version (U a)))"
proof -
  obtain m where m: "at_holds M (accounts_trie w) m" "at_version (accounts_trie w) = V"
    "\<And>a. nonce (account_at V m a) = nonce (U a)"
    "\<And>a. account.balance (account_at V m a) = account.balance (U a)"
    "\<And>a. cbi_version (account_at V m a) = cbi_version (U a)"
    "\<And>a. m (account_key V a ContractCode) = code_bytes (U a)"
    by (rule world_rep_content [OF R]) blast
  show "at_nonce E (ws_account_trie w) a = Some (Inr (nonce (U a)))"
    "at_balance E (ws_account_trie w) a = Some (Inr (account.balance (U a)))"
    "at_code E (ws_account_trie w) a = Inr (code_bytes (U a))"
    "at_cbi_version E (ws_account_trie w) a = Some (Inr (cbi_version (U a)))"
    using at_getters_ok(1-4) [OF C m(1), of a] unfolding m(2-6) ws_account_trie_def .
qed

lemma world_rep_proofs:
  assumes C: "trie_contract E M" and R: "world_rep M K V d S U w \<sigma>"
  shows "\<exists>p. at_nonce_with_proof E (ws_account_trie w) a = Some (Inr (p, nonce (U a)))"
    and "\<exists>p. at_balance_with_proof E (ws_account_trie w) a = Some (Inr (p, account.balance (U a)))"
    and "\<exists>p. at_code_with_proof E (ws_account_trie w) a = Inr (p, code_bytes (U a))"
    and "\<exists>p. at_cbi_version_with_proof E (ws_account_trie w) a = Some (Inr (p, cbi_version (U a)))"
    and "\<exists>p h. at_storage_hash_with_proof E (ws_account_trie w) a = Some (Inr (p, h))"
proof -
  obtain m where m: "at_holds M (accounts_trie w) m"
    by (rule world_rep_content [OF R]) blast
  note P = account_getters_with_proof [OF C m, of a, folded ws_account_trie_def]
    world_rep_getters [OF C R, of a] at_getters_ok(5) [OF C m, of a, folded ws_account_trie_def]
  show "\<exists>p. at_nonce_with_proof E (ws_account_trie w) a = Some (Inr (p, nonce (U a)))"
    "\<exists>p. at_balance_with_proof E (ws_account_trie w) a = Some (Inr (p, account.balance (U a)))"
    "\<exists>p. at_code_with_proof E (ws_account_trie w) a = Inr (p, code_bytes (U a))"
    "\<exists>p. at_cbi_version_with_proof E (ws_account_trie w) a = Some (Inr (p, cbi_version (U a)))"
    "\<exists>p h. at_storage_hash_with_proof E (ws_account_trie w) a = Some (Inr (p, h))"
    using P by auto
qed

lemma world_rep_contains:
  assumes C: "trie_contract E M" and R: "world_rep M K V d S U w \<sigma>" and b: "spec_contains f (U a) = Some b"
  shows "at_contains E (ws_account_trie w) f a = Inr b"
proof -
  obtain m where m: "at_holds M (accounts_trie w) m" "at_version (accounts_trie w) = V"
    "nonce (account_at V m a) = nonce (U a)" "account.balance (account_at V m a) = account.balance (U a)"
    "cbi_version (account_at V m a) = cbi_version (U a)" "m (account_key V a ContractCode) = code_bytes (U a)"
    by (rule world_rep_content [OF R]) blast
  show ?thesis
    using at_contains_ok [OF C m(1), of f a] m(2-6) b
    by (cases f) (auto simp: ws_account_trie_def account_at_def code_bytes_def split: if_splits option.splits)
qed

lemma world_rep_all:
  assumes C: "trie_contract E M" and R: "world_rep M K V d S U w \<sigma>"
  shows "\<exists>xs. at_all E (ws_account_trie w) = Inr xs \<and> listed xs = U \<and> storage_hashes xs w' = Some (Unit, w')"
proof -
  obtain m where m: "at_holds M (accounts_trie w) m" "at_version (accounts_trie w) = V" "user_account V m = U"
    by (rule world_rep_content [OF R]) blast
  obtain xs where xs: "at_all E (accounts_trie w) = Inr xs" "map_of xs = accounts_of V m" "distinct (map fst xs)"
    using at_all_ok [OF C m(1)] m(2) by auto
  have "listed xs a = U a" for a
  proof (cases "known_account V m a")
    case True
    then show ?thesis using m(3) by (auto simp: listed_def xs(2) accounts_of_def user_account_def)
  next
    case False
    then have "m (account_key V a f) = None" for f by (auto simp: known_account_def)
    then show ?thesis
      using False m(3) by (auto simp: listed_def xs(2) accounts_of_def user_account_def account_at_def account_default_def)
  qed
  moreover have "account_storage_hash x \<noteq> None" if "(a, x) \<in> set xs" for a x
  proof -
    have "accounts_of V m a = Some x" using that xs(2,3) by (metis map_of_is_SomeI)
    then show ?thesis
      using at_field [OF m(1), of a StorageHash] m(2)
      by (auto simp: accounts_of_def account_at_def account_storage_hash_def b32_try_from_def field_ok_def
          split: if_splits option.splits)
  qed
  then have "storage_hashes xs w' = Some (Unit, w')" by (auto simp: storage_hashes_def list_all_iff)
  ultimately show ?thesis using xs(1) by (auto simp: ws_account_trie_def)
qed

lemma read_storage_ok:
  assumes C: "trie_contract E M" and R: "world_rep M K V d S U w \<sigma>" and a: "a \<noteq> network_address"
    and read: "\<And>T. st_holds M T (S a) \<Longrightarrow> \<exists>x. read T = Inr x \<and> f x = r"
  shows "\<exists>w'. read_storage E a f read w = Some (r, w') \<and> world_rep M K V d S U w' \<sigma>"
proof -
  obtain T w1 where o: "ws_storage_trie_mut E w a = Some (Inr T, w1)" "st_holds M T (S a)"
    "world_rep M K V d S U w1 \<sigma>"
    using world_rep_open [OF C R, of a] a by auto
  show ?thesis
    using read [OF o(2)] o(1,3) by (auto simp: read_storage_def ws_storage_trie_eq unwrap_read_def)
qed

lemma commit_ok:
  assumes C: "trie_contract E M" and R: "represents (world_rep M K V d S U) B n k A w"
    and K: "K \<or> separate E M w"
  shows "\<exists>w'. commit E w = Some (Unit, w') \<and> represents (world_rep M (V = V2) V (ws_db w') S U) B n k A w'"
proof -
  obtain \<sigma> c where ok: "network_ok B n k A \<sigma>"
    and c: "ws_rel M w c (S(network_address := \<sigma>))" "user_account V c = U"
    and w: "ws_version w = V" "ws_db w = d" "K \<longrightarrow> V = V2 \<and> ws_apart w"
    using R by (auto simp: represents_def world_rep_def)
  have "separate E M w" using K v2_separate [OF C c(1)] w by blast
  then obtain ins del r w' c' where k: "ws_close E w = (Inr (ins, del, r), w')"
    "ws_rel M (ws_open V (apply_changes (ins, del) d) r) c' (S(network_address := \<sigma>))"
    "\<And>a. user_account V c' a = user_account V c a"
    using ws_close_ok [OF C c(1)] w(1,2) by blast
  have "user_account V c' = U" using k(3) c(2) by (simp add: fun_eq_iff)
  then have "world_rep M (V = V2) V (apply_changes (ins, del) d) S U (ws_open V (apply_changes (ins, del) d) r) \<sigma>"
    using k(2) unfolding world_rep_def by auto
  then show ?thesis using k(1) ok w by (auto simp: commit_def represents_def)
qed

lemma upgraded_ok:
  assumes C: "trie_contract E M" and R: "represents (world_rep M K V1 d S U) B n k A w"
  shows "\<exists>w'. upgraded E w = Some (Unit, w') \<and> represents (world_rep M False V2 (ws_db w') S U) B n k A w'"
proof -
  obtain \<sigma> c where ok: "network_ok B n k A \<sigma>"
    and c: "ws_rel M w c (S(network_address := \<sigma>))" "user_account V1 c = U"
    and w: "ws_version w = V1"
    using R by (auto simp: represents_def world_rep_def)
  obtain w2 c2 where "ws_upgrade E w = Some (Inr w2)" "ws_version w2 = V2"
    "ws_rel M w2 c2 (S(network_address := \<sigma>))" "user_account V2 c2 = U"
    using ws_upgrade_ok [OF C c(1) w] c(2) by (metis ext)
  then show ?thesis using ok w unfolding upgraded_def represents_def world_rep_def by auto
qed

lemma holds_chainI:
  "world_rep Md K (chain_version X) d (storages X) (accounts X) w \<sigma> \<Longrightarrow> network_ok B n M (net X) \<sigma> \<Longrightarrow>
     holds_chain Md B K n M X w"
  unfolding holds_chain_def represents_def world_rep_def by blast

lemma holds_chainE:
  assumes "holds_chain Md B K n M X w"
  obtains \<sigma> where "world_rep Md K (chain_version X) (ws_db w) (storages X) (accounts X) w \<sigma>" "network_ok B n M (net X) \<sigma>"
  using assms unfolding holds_chain_def represents_def by blast

text \<open>The setters of one field of an account.\<close>

lemma account_edit_ok:
  assumes C: "trie_contract E Md" and H: "holds_chain Md B K n M X w" and f: "f \<noteq> StorageHash"
    and edit: "\<And>A. edit A = at_set E A (account_key (at_version A) a f) v" and v: "v \<noteq> [] \<longrightarrow> field_ok f v"
    and U': "\<And>V m. user_account V (put_content (account_key V a f) v m) = (user_account V m)(a := g (user_account V m a))"
  shows "\<exists>w'. unwrap_edit (ws_account_trie_mut edit w) = Some (Unit, w') \<and>
     holds_chain Md B K n M (put_account a (g (accounts X a)) X) w'"
proof -
  obtain \<sigma> where R: "world_rep Md K (chain_version X) (ws_db w) (storages X) (accounts X) w \<sigma>" "network_ok B n M (net X) \<sigma>"
    using H by (rule holds_chainE)
  have "user_account (chain_version X) m = accounts X \<Longrightarrow>
      user_account (chain_version X) (put_content (account_key (chain_version X) a f) v m) = (accounts X)(a := g (accounts X a))" for m
    by (simp add: U')
  from world_rep_accounts [OF C R(1) f v this] obtain A where
    A: "at_set E (accounts_trie w) (account_key (at_version (accounts_trie w)) a f) v = (Inr (), A)"
    "world_rep Md K (chain_version X) (ws_db w) (storages X) ((accounts X)(a := g (accounts X a))) (w\<lparr>accounts_trie := A\<rparr>) \<sigma>"
    by blast
  have "holds_chain Md B K n M (put_account a (g (accounts X a)) X) (w\<lparr>accounts_trie := A\<rparr>)"
    by (rule holds_chainI [where \<sigma> = \<sigma>]) (use A(2) R(2) in \<open>simp_all add: put_account_def\<close>)
  then show ?thesis
    by (simp add: ws_account_trie_mut_def unwrap_edit_def edit A(1))
qed

lemma storage_edit_ok:
  assumes C: "trie_contract E Md" and H: "holds_chain Md B K n M X w"
    and s: "spec_edit_storage a s X = Some (r, X')"
    and edit: "\<And>T. st_holds Md T (storages X a) \<Longrightarrow>
      \<exists>T'. edit T = (Inr (), T') \<and> st_holds Md T' s \<and> same_frame (st_trie T) (st_trie T')"
  shows "\<exists>w'. edit_storage E a edit w = Some (r, w') \<and> holds_chain Md B K n M X' w'"
proof -
  obtain \<sigma> where R: "world_rep Md K (chain_version X) (ws_db w) (storages X) (accounts X) w \<sigma>" "network_ok B n M (net X) \<sigma>"
    using H by (rule holds_chainE)
  have a: "a \<noteq> network_address" "r = Unit" and X': "X' = X\<lparr>storages := (storages X)(a := s)\<rparr>"
    using s by (auto simp: spec_edit_storage_def split: if_splits)
  obtain w' where w': "edit_storage E a edit w = Some (Unit, w')"
    "world_rep Md K (chain_version X) (ws_db w) ((storages X)(a := s)) (accounts X) w' \<sigma>"
    using edit_storage_ok [OF C R(1) a(1) edit] by blast
  have "holds_chain Md B K n M X' w'"
    by (rule holds_chainI [where \<sigma> = \<sigma>]) (use w'(2) R(2) in \<open>simp_all add: X'\<close>)
  then show ?thesis using w'(1) a(2) by blast
qed

lemma storage_read_ok:
  assumes C: "trie_contract E Md" and H: "holds_chain Md B K n M X w"
    and s: "spec_read_storage a r0 X = Some (r, X')"
    and read: "\<And>T. st_holds Md T (storages X a) \<Longrightarrow> \<exists>x. read T = Inr x \<and> f x = r0"
  shows "\<exists>w'. read_storage E a f read w = Some (r, w') \<and> holds_chain Md B K n M X' w'"
proof -
  obtain \<sigma> where R: "world_rep Md K (chain_version X) (ws_db w) (storages X) (accounts X) w \<sigma>" "network_ok B n M (net X) \<sigma>"
    using H by (rule holds_chainE)
  have a: "a \<noteq> network_address" "r = r0" "X' = X"
    using s by (auto simp: spec_read_storage_def split: if_splits)
  have "\<exists>w'. read_storage E a f read w = Some (r0, w') \<and>
      world_rep Md K (chain_version X) (ws_db w) (storages X) (accounts X) w' \<sigma>"
    by (rule read_storage_ok [OF C R(1) a(1)]) (rule read)
  then show ?thesis using holds_chainI R(2) a(2,3) by blast
qed

text \<open>A call that refines its specification, from every world state that holds a chain.\<close>

definition refined :: "'t trie_lib \<Rightarrow> borsh_lib \<Rightarrow> 't trie_model \<Rightarrow> u16 \<Rightarrow> u16 \<Rightarrow> world_call \<Rightarrow> bool" where
  "refined E B Md n M c \<longleftrightarrow>
     (\<forall>K X w r X'. holds_chain Md B K n M X w \<longrightarrow> chain_spec n M c X = Some (r, X') \<longrightarrow>
        (c = Commit \<longrightarrow> K \<or> separate E Md w) \<longrightarrow>
        (\<exists>w'. world_exec E B n M c w = Some (r, w') \<and>
           holds_chain Md B (opened_v2 K c (ws_version w)) n M X' w'))"

lemma refinedI:
  assumes "c \<noteq> Commit"
    and "\<And>K X w r X'. holds_chain Md B K n M X w \<Longrightarrow> chain_spec n M c X = Some (r, X') \<Longrightarrow>
      \<exists>w'. world_exec E B n M c w = Some (r, w') \<and> holds_chain Md B K n M X' w'"
  shows "refined E B Md n M c"
  using assms by (simp add: refined_def)

lemma refined_setters:
  assumes C: "trie_contract E Md"
  shows "refined E B Md n M (SetNonce a x)" "refined E B Md n M (SetBalance a x)"
    "refined E B Md n M (SetCode a c)" "refined E B Md n M (SetCbiVersion a i)"
proof -
  have "\<exists>w'. unwrap_edit (ws_account_trie_mut (\<lambda>A. at_set_nonce E A a x) w) = Some (Unit, w') \<and>
      holds_chain Md B K n M (put_account a ((accounts X a)\<lparr>nonce := x\<rparr>) X) w'"
    if "holds_chain Md B K n M X w" for K X w
    by (rule account_edit_ok [OF C that, of Nonce _ a "u64_to_le x"])
      (simp_all add: at_set_nonce_def Let_def field_ok_def user_account_put)
  then show "refined E B Md n M (SetNonce a x)" by (auto intro: refinedI)
  have "\<exists>w'. unwrap_edit (ws_account_trie_mut (\<lambda>A. at_set_balance E A a x) w) = Some (Unit, w') \<and>
      holds_chain Md B K n M (put_account a ((accounts X a)\<lparr>account.balance := x\<rparr>) X) w'"
    if "holds_chain Md B K n M X w" for K X w
    by (rule account_edit_ok [OF C that, of Balance _ a "u64_to_le x"])
      (simp_all add: at_set_balance_def Let_def field_ok_def user_account_put)
  then show "refined E B Md n M (SetBalance a x)" by (auto intro: refinedI)
  have "\<exists>w'. unwrap_edit (ws_account_trie_mut (\<lambda>A. at_set_code E A a c) w) = Some (Unit, w') \<and>
      holds_chain Md B K n M (put_account a ((accounts X a)\<lparr>code := c\<rparr>) X) w'"
    if "holds_chain Md B K n M X w" for K X w
    by (rule account_edit_ok [OF C that, of ContractCode _ a c])
      (simp_all add: at_set_code_def Let_def field_ok_def user_account_put)
  then show "refined E B Md n M (SetCode a c)" by (auto intro: refinedI)
  have "\<exists>w'. unwrap_edit (ws_account_trie_mut (\<lambda>A. at_set_cbi_version E A a i) w) = Some (Unit, w') \<and>
      holds_chain Md B K n M (put_account a ((accounts X a)\<lparr>cbi_version := Some i\<rparr>) X) w'"
    if "holds_chain Md B K n M X w" for K X w
    by (rule account_edit_ok [OF C that, of CbiVersion _ a "u32_to_le i"])
      (simp_all add: at_set_cbi_version_def Let_def field_ok_def user_account_put)
  then show "refined E B Md n M (SetCbiVersion a i)" by (auto intro: refinedI)
qed

lemma refined_reads:
  assumes C: "trie_contract E Md"
  shows "refined E B Md n M (ReadNonce a)" "refined E B Md n M (ReadBalance a)"
    "refined E B Md n M (ReadCode a)" "refined E B Md n M (ReadCbiVersion a)"
    "refined E B Md n M (ProveNonce a)" "refined E B Md n M (ProveBalance a)"
    "refined E B Md n M (ProveCode a)" "refined E B Md n M (ProveCbiVersion a)"
    "refined E B Md n M (ProveStorageHash a)" "refined E B Md n M (Contains f a)"
    "refined E B Md n M ListAccounts" "refined E B Md n M ListStorageHashes"
proof -
  have "refined E B Md n M c"
    if "\<And>K V d S U w \<sigma> r X X'. world_rep Md K V d S U w \<sigma> \<Longrightarrow> U = accounts X \<Longrightarrow>
      chain_spec n M c X = Some (r, X') \<Longrightarrow> world_exec E B n M c w = Some (r, w) \<and> X' = X" "c \<noteq> Commit" for c
    by (rule refinedI [OF that(2)]) (metis that(1) holds_chainE)
  note read = this
  note get = world_rep_getters [OF C, where a = a] and prove = world_rep_proofs [OF C, where a = a]
  show "refined E B Md n M (ReadNonce a)" by (rule read) (auto dest!: get(1) simp: unwrap_read_def)
  show "refined E B Md n M (ReadBalance a)" by (rule read) (auto dest!: get(2) simp: unwrap_read_def)
  show "refined E B Md n M (ReadCode a)" by (rule read) (auto dest!: get(3) simp: unwrap_read_def)
  show "refined E B Md n M (ReadCbiVersion a)" by (rule read) (auto dest!: get(4) simp: unwrap_read_def)
  show "refined E B Md n M (ProveNonce a)"
    by (rule read) (auto dest!: prove(1) simp: unwrap_read_def proved_def)
  show "refined E B Md n M (ProveBalance a)"
    by (rule read) (auto dest!: prove(2) simp: unwrap_read_def proved_def)
  show "refined E B Md n M (ProveCode a)"
    by (rule read) (auto dest!: prove(3) simp: unwrap_read_def proved_def)
  show "refined E B Md n M (ProveCbiVersion a)"
    by (rule read) (auto dest!: prove(4) simp: unwrap_read_def proved_def)
  show "refined E B Md n M (ProveStorageHash a)"
    by (rule read) (auto dest!: prove(5) simp: unwrap_read_def)
  show "refined E B Md n M (Contains f a)"
    by (rule read) (auto dest: world_rep_contains [OF C] simp: unwrap_read_def)
  have "\<exists>xs. at_all E (ws_account_trie w) = Inr xs \<and> listed xs = U \<and> storage_hashes xs w = Some (Unit, w)"
    if "world_rep Md K V d S U w \<sigma>" for K V d S U w \<sigma>
    by (rule world_rep_all [OF C that])
  then show "refined E B Md n M ListAccounts" "refined E B Md n M ListStorageHashes"
    by - (rule read; fastforce simp: unwrap_read_def)+
qed

lemma refined_storage_edits:
  assumes C: "trie_contract E Md"
  shows "refined E B Md n M (SetStorage a k v)" "refined E B Md n M (RemoveStorage a k)"
    "refined E B Md n M (BatchSetStorage a kvs)" "refined E B Md n M (RemoveStorageTrie a)"
proof -
  show "refined E B Md n M (SetStorage a k v)"
    by (rule refinedI) (simp_all, rule storage_edit_ok [OF C _ _ st_set_ok [OF C]])
  show "refined E B Md n M (RemoveStorage a k)"
    by (rule refinedI) (simp_all, rule storage_edit_ok [OF C _ _ st_remove_ok [OF C]])
  show "refined E B Md n M (BatchSetStorage a kvs)"
    by (rule refinedI) (simp_all split: if_splits, rule storage_edit_ok [OF C _ _ st_batch_set_ok [OF C]])
  have "\<exists>T'. st_remove_trie E T = (Inr (), T') \<and> st_holds Md T' Map.empty \<and> same_frame (st_trie T) (st_trie T')"
    if "st_holds Md T s" for T s
    using st_remove_trie_ok [OF C that] by blast
  from storage_edit_ok [OF C _ _ this] show "refined E B Md n M (RemoveStorageTrie a)"
    by (auto intro: refinedI)
qed

lemma refined_storage_reads:
  assumes C: "trie_contract E Md"
  shows "refined E B Md n M (ReadStorage a k)" "refined E B Md n M (ProveStorage a k)"
    "refined E B Md n M (ContainsStorage a k)"
proof -
  have "\<exists>w'. read_storage E a Bytes (\<lambda>T. st_get E T k) w = Some (r, w') \<and> holds_chain Md B K n M X' w'"
    if "holds_chain Md B K n M X w" "spec_read_storage a (Bytes (storages X a k)) X = Some (r, X')" for K X w r X'
    by (rule storage_read_ok [OF C that]) (use st_get_ok [OF C] in auto)
  then show "refined E B Md n M (ReadStorage a k)" by (auto intro: refinedI)
  have "\<exists>w'. read_storage E a (proved Bytes) (\<lambda>T. st_get_with_proof E T k) w = Some (r, w') \<and>
      holds_chain Md B K n M X' w'"
    if "holds_chain Md B K n M X w" "spec_read_storage a (Bytes (storages X a k)) X = Some (r, X')" for K X w r X'
    by (rule storage_read_ok [OF C that]) (use st_get_with_proof_ok [OF C, of _ _ k] in \<open>fastforce simp: proved_def\<close>)
  then show "refined E B Md n M (ProveStorage a k)" by (auto intro: refinedI)
  have "\<exists>w'. read_storage E a Truth (\<lambda>T. st_contains E T k) w = Some (r, w') \<and> holds_chain Md B K n M X' w'"
    if "holds_chain Md B K n M X w" "spec_read_storage a (Truth (storages X a k \<noteq> None)) X = Some (r, X')"
    for K X w r X'
    by (rule storage_read_ok [OF C that]) (use st_contains_ok [OF C] in auto)
  then show "refined E B Md n M (ContainsStorage a k)" by (auto intro: refinedI)
qed

lemma refined_network:
  assumes C: "trie_contract E Md" and B: "borsh_codec B"
  shows "refined E B Md n M (OnNetwork c)"
proof (rule refinedI)
  fix K X w r X'
  assume H: "holds_chain Md B K n M X w" and r: "chain_spec n M (OnNetwork c) X = Some (r, X')"
  obtain r' A where s: "net_spec n M c (net X) = Some (r', A)" "r = OfNetwork r'" "X' = X\<lparr>net := A\<rparr>"
    using r by (auto simp: bind_eq_Some_conv)
  obtain w' where w': "net_exec (storage_world_state E) B n M c w = Some (r', w')"
    "represents (world_rep Md K (chain_version X) (ws_db w) (storages X) (accounts X)) B n M A w'"
    using net_exec_refines [OF storage_world_state_pools [OF C B] H [unfolded holds_chain_def] s(1)] by blast
  have "holds_chain Md B K n M X' w'"
    using w'(2) unfolding represents_def by (auto intro: holds_chainI simp: s(3))
  then show "\<exists>w'. world_exec E B n M (OnNetwork c) w = Some (r, w') \<and> holds_chain Md B K n M X' w'"
    using w'(1) s(2) by simp
qed simp

lemma refined_commit:
  assumes C: "trie_contract E Md"
  shows "refined E B Md n M Commit"
  unfolding refined_def
proof (intro allI impI)
  fix K X w r X'
  assume H: "holds_chain Md B K n M X w" and r: "chain_spec n M Commit X = Some (r, X')"
    and "Commit = Commit \<longrightarrow> K \<or> separate E Md w"
  then have "K \<or> separate E Md w" by simp
  from commit_ok [OF C H [unfolded holds_chain_def] this] obtain w' where
    "commit E w = Some (Unit, w')" "holds_chain Md B (chain_version X = V2) n M X w'"
    by (auto simp: holds_chain_def)
  moreover have "opened_v2 K Commit (ws_version w) = (chain_version X = V2)"
    using H by (auto simp: opened_v2_def holds_chain_def represents_def world_rep_def)
  ultimately show "\<exists>w'. world_exec E B n M Commit w = Some (r, w') \<and>
      holds_chain Md B (opened_v2 K Commit (ws_version w)) n M X' w'"
    using r by simp
qed

lemma refined_upgrade:
  assumes C: "trie_contract E Md"
  shows "refined E B Md n M Upgrade"
proof (rule refinedI)
  fix K X w r X'
  assume H: "holds_chain Md B K n M X w" and r: "chain_spec n M Upgrade X = Some (r, X')"
  then have X': "r = Unit" "X' = X\<lparr>chain_version := V2\<rparr>" "chain_version X = V1" by (auto split: if_splits)
  have "\<not> K" using H X'(3) by (auto simp: holds_chain_def represents_def world_rep_def)
  then show "\<exists>w'. world_exec E B n M Upgrade w = Some (r, w') \<and> holds_chain Md B K n M X' w'"
    using upgraded_ok [OF C, of K _ _ _ B n M] H X' by (auto simp: holds_chain_def)
qed simp

lemmas refined_calls = refined_setters refined_reads refined_storage_edits refined_storage_reads
  refined_network refined_commit refined_upgrade

lemma world_exec_refines:
  assumes C: "trie_contract E Md" and B: "borsh_codec B" and H: "holds_chain Md B K n M X w"
    and r: "chain_spec n M c X = Some (r, X')" and sep: "c = Commit \<longrightarrow> K \<or> separate E Md w"
  shows "\<exists>w'. world_exec E B n M c w = Some (r, w') \<and>
    holds_chain Md B (opened_v2 K c (ws_version w)) n M X' w'"
proof -
  have "refined E B Md n M c" by (cases c) (simp_all add: refined_calls C B)
  then show ?thesis using H r sep by (simp add: refined_def)
qed

lemma holds_chain_version: "holds_chain Md B K n M X w \<Longrightarrow> ws_version w = chain_version X"
  by (auto simp: holds_chain_def represents_def world_rep_def)

lemma holds_chain_ws_rel: "holds_chain Md B K n M X w \<Longrightarrow> \<exists>m S. ws_rel Md w m S"
  by (auto simp: holds_chain_def represents_def world_rep_def)

lemma v1_commit_separate:
  assumes "merkle_trie E Md" "holds_chain Md B K n M X w" "K \<or> ws_version w = V1 \<or> separate E Md w"
  shows "K \<or> separate E Md w"
  using assms(3) v1_tries_separate [OF assms(1)] holds_chain_ws_rel [OF assms(2)] by blast

lemma world_run_refines:
  assumes C: "merkle_trie E Md" and B: "borsh_codec B"
  shows "holds_chain Md B K n M X w \<Longrightarrow> chain_spec_run n M cs X = Some (rs, X') \<Longrightarrow>
     commits_separate E B Md n M K cs w \<Longrightarrow>
     \<exists>K' w'. world_steps E B n M cs w = Some (rs, w') \<and> holds_chain Md B K' n M X' w' \<and> (K \<longrightarrow> K')"
proof (induction cs arbitrary: K X w rs)
  case (Cons c cs)
  then obtain r X1 rs' where 1: "chain_spec n M c X = Some (r, X1)"
    "chain_spec_run n M cs X1 = Some (rs', X')" "rs = r # rs'"
    by (auto simp: bind_eq_Some_conv)
  obtain w1 where w1: "world_exec E B n M c w = Some (r, w1)"
    "holds_chain Md B (opened_v2 K c (ws_version w)) n M X1 w1"
    using world_exec_refines [OF merkle_contract [OF C] B Cons.prems(1) 1(1)]
      v1_commit_separate [OF C Cons.prems(1)] Cons.prems(3) by auto
  have "commits_separate E B Md n M (opened_v2 K c (ws_version w)) cs w1"
    using Cons.prems(3) w1(1) by simp
  from Cons.IH [OF w1(2) 1(2) this] show ?case using 1(3) w1(1) by (fastforce simp: opened_v2_def)
qed auto

text \<open>Only the upgrade changes the version; without it the condition holds in version 1.\<close>

lemma chain_spec_version:
  "chain_spec n M c X = Some (r, X') \<Longrightarrow> c \<noteq> Upgrade \<Longrightarrow> chain_version X' = chain_version X"
  by (cases c) (auto simp: put_account_def spec_edit_storage_def spec_read_storage_def bind_eq_Some_conv
      split: if_splits option.splits)

lemma commits_separate_v1:
  assumes C: "merkle_trie E Md" and B: "borsh_codec B"
  shows "holds_chain Md B K n M X w \<Longrightarrow> chain_version X = V1 \<Longrightarrow> Upgrade \<notin> set cs \<Longrightarrow>
     chain_spec_run n M cs X = Some (rs, X') \<Longrightarrow> commits_separate E B Md n M K cs w"
proof (induction cs arbitrary: K X w rs)
  case (Cons c cs)
  then obtain r X1 rs' where 1: "chain_spec n M c X = Some (r, X1)" "chain_spec_run n M cs X1 = Some (rs', X')"
    by (auto simp: bind_eq_Some_conv)
  have V: "ws_version w = V1" "chain_version X1 = V1"
    using Cons.prems(2,3) holds_chain_version [OF Cons.prems(1)] chain_spec_version [OF 1(1)] by auto
  obtain w1 where w1: "world_exec E B n M c w = Some (r, w1)"
    "holds_chain Md B (opened_v2 K c (ws_version w)) n M X1 w1"
    using world_exec_refines [OF merkle_contract [OF C] B Cons.prems(1) 1(1)]
      v1_commit_separate [OF C Cons.prems(1)] V(1) by blast
  from Cons.IH [OF w1(2) V(2) _ 1(2)] show ?case using Cons.prems(3) w1(1) V(1) by simp
qed simp

section \<open>A new world state\<close>

definition empty_chain :: "version \<Rightarrow> chain" where
  "empty_chain V =
     \<lparr>chain_version = V, accounts = (\<lambda>_. account_default), storages = (\<lambda>_. Map.empty), net = empty_network\<rparr>"

lemma new_world_holds:
  assumes "trie_contract E Md"
  shows "holds_chain Md B (V = V2) n M (empty_chain V) (ws_new E V s)"
proof -
  have "user_account V Map.empty = (\<lambda>_. account_default)"
    by (simp add: fun_eq_iff user_account_def account_default_def)
  then show ?thesis
    using new_world_represents [OF assms, of V s B n M]
    by (simp add: holds_chain_def empty_chain_def ws_new_def)
qed

end
