(* ===== verification/Flat_World.thy ===== *)
theory Flat_World
  imports World_Close
begin

text \<open>
  The hypothesis of the round trip can be met in every version: over the concrete trie library,
  whose only node lies under the empty nibble path, all tries of a world state stay separate,
  whatever is done to it.
\<close>

section \<open>The keys it changes\<close>

text \<open>The key of a root node, as either version writes it.\<close>

definition root_keys :: "bytes \<Rightarrow> bytes set" where
  "root_keys p = {key_tag V p @ b32_bytes h | V h. True}"

definition flat_db :: "kdb \<Rightarrow> bool" where
  "flat_db d \<longleftrightarrow> touched d \<subseteq> root_keys (prefix d)"

text \<open>Lengths 32 and 64 in version 1, 33 and 65 in version 2.\<close>

lemma root_keys_disjoint:
  assumes "x \<noteq> y"
  shows "root_keys (home x) \<inter> root_keys (home y) = {}"
proof -
  have "key_tag V (home x) @ b32_bytes h \<noteq> key_tag V' (home y) @ b32_bytes h'" for V V' h h'
  proof
    assume eq: "key_tag V (home x) @ b32_bytes h = key_tag V' (home y) @ b32_bytes h'"
    then have "length (key_tag V (home x)) = length (key_tag V' (home y))"
      by (auto dest: arg_cong [of _ _ length])
    moreover have "key_tag V (home x) = key_tag V' (home y)" using eq by simp
    ultimately show False
      using assms by (cases V; cases V'; cases x; cases y) (auto simp: key_tag_def)
  qed
  then show ?thesis unfolding root_keys_def by blast
qed

lemma root_key: "build_key d (b32_bytes h) \<in> root_keys (prefix d)"
  by (auto simp: build_key_tag root_keys_def)

lemma flat_db_new [simp]: "flat_db (kdb_new V s p)"
  by (simp add: flat_db_def touched_def)

lemma flat_db_put [simp]: "flat_db d \<Longrightarrow> flat_db (snd (kdb_put d (b32_bytes h) v))"
  using root_key [of d h] by (auto simp: flat_db_def touched_def)

lemma flat_db_delete [simp]: "flat_db d \<Longrightarrow> flat_db (kdb_delete d (b32_bytes h))"
  using root_key [of d h] by (auto simp: flat_db_def touched_def)

lemma flat_db_upgrade [simp]: "flat_db (kdb_upgrade d) = flat_db d"
  by (simp add: flat_db_def touched_def)

section \<open>The operations of the tries\<close>

fun root_call :: "hashdb_call \<Rightarrow> bool" where
  "root_call (HInsert p v) = (p = ([], None))"
| "root_call (HEmplace h p v) = (p = ([], None))"
| "root_call (HRemove h p) = (p = ([], None))"

lemma flat_calls:
  "\<forall>c \<in> set cs. root_call c \<Longrightarrow> flat_db (db t) \<Longrightarrow> flat_db (db (fold (hashdb_call E) cs t))"
proof (induction cs arbitrary: t)
  case (Cons c cs)
  then have "flat_db (db (hashdb_call E c t))"
    by (cases c) (simp_all add: hashdb_insert_def hashdb_emplace_def hashdb_remove_def Let_def)
  with Cons show ?case by simp
qed simp

lemma flat_lib_calls:
  "\<forall>c \<in> set (fst (tm_commit flat_lib x)). root_call c" "\<forall>c \<in> set (tm_drop flat_lib x). root_call c"
  by (auto simp: flat_lib_def split: prod.splits if_splits)

lemma flat_finish: "flat_db (db t) \<Longrightarrow> flat_db (db (mpt_finish flat_lib t x))"
  by (auto simp: mpt_finish_def Let_def split_beta flat_lib_calls simp del: fold_append intro!: flat_calls)

lemma flat_abort: "flat_db (db t) \<Longrightarrow> flat_db (db (mpt_abort flat_lib t x))"
  by (simp add: mpt_abort_def flat_calls flat_lib_calls)

lemma flat_edits_mpt [simp]:
  assumes "flat_db (db t)"
  shows "flat_db (db (snd (mpt_set flat_lib t k v)))"
    and "flat_db (db (snd (mpt_batch_set flat_lib t kvs)))"
    and "flat_db (db (snd (mpt_remove flat_lib t k)))"
    and "flat_db (db (snd (mpt_batch_remove flat_lib t ks)))"
  using assms flat_finish flat_abort
  by (auto simp: mpt_set_def mpt_batch_set_def mpt_remove_def mpt_batch_remove_def Let_def
      split: prod.split option.split sum.split bool.split)

lemma flat_batch:
  "mpt_batch_set flat_lib t kvs = (r, t') \<Longrightarrow> flat_db (db t) \<Longrightarrow> flat_db (db t')"
  "mpt_batch_remove flat_lib t ks = (r, t') \<Longrightarrow> flat_db (db t) \<Longrightarrow> flat_db (db t')"
  by (metis flat_edits_mpt(2) snd_conv, metis flat_edits_mpt(4) snd_conv)

lemma flat_new [simp]: "flat_db d \<Longrightarrow> flat_db (db (mpt_new E d))"
  by (simp add: mpt_new_def Let_def)

lemma flat_deinit: "mpt_deinit_and_upgrade E t = Inr t' \<Longrightarrow> flat_db (db t) \<Longrightarrow> flat_db (db t')"
  by (auto simp: mpt_deinit_and_upgrade_def Let_def split: if_splits sum.splits)

lemma flat_edits_accounts [simp]:
  assumes "flat_db (db (at_trie T))"
  shows "flat_db (db (at_trie (snd (at_set flat_lib T k v))))"
    and "flat_db (db (at_trie (snd (at_set_nonce flat_lib T a n))))"
    and "flat_db (db (at_trie (snd (at_set_balance flat_lib T a n))))"
    and "flat_db (db (at_trie (snd (at_set_code flat_lib T a c))))"
    and "flat_db (db (at_trie (snd (at_set_cbi_version flat_lib T a i))))"
    and "flat_db (db (at_trie (snd (at_set_storage_hash flat_lib T a h))))"
  using flat_edits_mpt(1) [OF assms]
  by (simp_all add: at_set_def at_set_nonce_def at_set_balance_def at_set_code_def at_set_cbi_version_def
      at_set_storage_hash_def Let_def split_beta)

lemma flat_at_upgrade:
  assumes "at_upgrade flat_lib T = Some (Inr (T', st))" "flat_db (db (at_trie T))"
  shows "flat_db (db (at_trie T'))"
  using assms
  by (auto simp: at_upgrade_def split: sum.splits prod.splits option.splits unit.splits)
     (meson flat_batch flat_deinit)

lemma flat_edits_storage [simp]:
  assumes "flat_db (db (st_trie T))"
  shows "flat_db (db (st_trie (snd (st_set flat_lib T k v))))"
    and "flat_db (db (st_trie (snd (st_remove flat_lib T k))))"
    and "flat_db (db (st_trie (snd (st_batch_set flat_lib T kvs))))"
    and "flat_db (db (st_trie (snd (st_remove_trie flat_lib T))))"
  using flat_edits_mpt [OF assms] assms
  by (simp_all add: st_set_def st_remove_def st_batch_set_def st_remove_trie_def Let_def split_beta
      split: sum.split)

lemma flat_st_upgrade:
  assumes "st_upgrade flat_lib T = Inr T'" "flat_db (db (st_trie T))"
  shows "flat_db (db (st_trie T'))"
proof (cases "root_hash (st_trie T) = null_root flat_lib")
  case True
  then show ?thesis
    using assms by (auto simp: st_upgrade_def dest: flat_deinit)
next
  case False
  let ?F = "\<lambda>(ks, m). case mpt_batch_remove flat_lib (st_trie T) ks of
       (Inl e, _) \<Rightarrow> Inl (MptError e)
     | (Inr (), t) \<Rightarrow>
         and_then (map_err MptError (mpt_deinit_and_upgrade flat_lib t)) (\<lambda>trie_v2.
           case mpt_batch_set flat_lib trie_v2 m of
             (Inl e, _) \<Rightarrow> Inl (MptError e)
           | (Inr (), trie_v2) \<Rightarrow> Inr \<lparr>st_trie = trie_v2\<rparr>)"
  obtain x where "?F x = Inr T'"
    using assms(1) unfolding st_upgrade_def null_node_key_root if_not_P [OF False] and_then_Inr_iff by blast
  then obtain ks m where m: "?F (ks, m) = Inr T'" by (metis surj_pair)
  obtain r t where r: "mpt_batch_remove flat_lib (st_trie T) ks = (r, t)" by (meson surj_pair)
  have u: "r = Inr ()" using m r by (cases r) simp_all
  obtain t2 where d: "mpt_deinit_and_upgrade flat_lib t = Inr t2" "(case mpt_batch_set flat_lib t2 m of
       (Inl e, _) \<Rightarrow> Inl (MptError e) | (Inr (), trie_v2) \<Rightarrow> Inr \<lparr>st_trie = trie_v2\<rparr>) = Inr T'"
    using m by (cases "mpt_deinit_and_upgrade flat_lib t") (simp_all add: r u split: unit.splits)
  obtain r3 t3 where b: "mpt_batch_set flat_lib t2 m = (r3, t3)" by (meson surj_pair)
  have "T' = \<lparr>st_trie = t3\<rparr>" using d(2) by (cases r3) (simp_all add: b split: unit.splits)
  then show ?thesis
    using flat_batch(1) [OF b] flat_deinit [OF d(1) flat_batch(2) [OF r assms(2)]] by simp
qed

section \<open>World states\<close>

definition flat_ws :: "world_state \<Rightarrow> bool" where
  "flat_ws w \<longleftrightarrow>
     flat_db (db (at_trie (accounts_trie w))) \<and>
     (\<forall>a T. map_of (storage_trie_map w) a = Some T \<longrightarrow> flat_db (db (st_trie T)))"

lemma flat_st_open [simp]: "flat_db (db (st_trie (st_open V s h a)))"
  by (simp add: st_open_def mpt_open_def)

lemma flat_ws_new [simp]: "flat_ws (ws_new E V s)"
  by (simp add: flat_ws_def ws_new_def at_new_def)

lemma flat_ws_open [simp]: "flat_ws (ws_open V s r)"
  by (simp add: flat_ws_def at_open_def mpt_open_def)

lemma flat_ws_put: "flat_ws w \<Longrightarrow> flat_db (db (st_trie T)) \<Longrightarrow> flat_ws (ws_put_storage a T w)"
  by (simp add: flat_ws_def ws_put_storage_def)

lemma flat_ws_accounts: "flat_ws w \<Longrightarrow> flat_db (db (at_trie A)) \<Longrightarrow> flat_ws (w\<lparr>accounts_trie := A\<rparr>)"
  by (simp add: flat_ws_def)

lemma flat_set_storage_hash:
  "at_set_storage_hash flat_lib A a h = (r, A') \<Longrightarrow> flat_db (db (at_trie A)) \<Longrightarrow> flat_db (db (at_trie A'))"
  by (metis flat_edits_accounts(6) snd_conv)

lemma flat_storage_trie_mut:
  assumes "ws_storage_trie_mut flat_lib w a = Some (Inr T, w')" "flat_ws w"
  shows "flat_ws w' \<and> flat_db (db (st_trie T))"
  using assms
  by (auto simp: ws_storage_trie_mut_def flat_ws_def st_new_def Let_def
      split: option.splits sum.splits prod.splits unit.splits if_splits dest: flat_set_storage_hash)

lemma try_fold_inv:
  "try_fold f xs s = Inr s' \<Longrightarrow> P s \<Longrightarrow> (\<And>x s s'. f x s = Inr s' \<Longrightarrow> P s \<Longrightarrow> P s') \<Longrightarrow> P s'"
  by (induction xs arbitrary: s) (auto simp: and_then_Inr_iff)

lemma flat_ws_upgrade:
  assumes "ws_upgrade flat_lib w = Some (Inr w')" "flat_ws w"
  shows "flat_ws w'"
proof -
  let ?P = "\<lambda>R. \<forall>a T. map_of R a = Some T \<longrightarrow> flat_db (db (st_trie T))"
  let ?f = "\<lambda>(address, storage_hash) storage_map.
               let storage_trie_v1 = (case map_of (storage_trie_map w) address of
                                        Some T \<Rightarrow> T
                                      | None \<Rightarrow> st_open V1 (ws_db w) storage_hash address)
               in map_ok (\<lambda>storage_trie_v2. hm_insert address storage_trie_v2 storage_map)
                    (st_upgrade flat_lib storage_trie_v1)"
  obtain A st R where up: "at_upgrade flat_lib (accounts_trie w) = Some (Inr (A, st))"
    "try_fold ?f (visit (hash_order flat_lib) st) [] = Inr R"
    "w' = \<lparr>accounts_trie = A, storage_trie_map = R, ws_db = ws_db w\<rparr>"
    using assms(1) by (auto simp: ws_upgrade_def split: option.splits sum.splits)
  have "?P R' \<Longrightarrow> ?f x R' = Inr R'' \<Longrightarrow> ?P R''" for x R' R''
    using assms(2) by (cases x)
      (auto simp: flat_ws_def Let_def split: option.splits if_splits dest!: flat_st_upgrade)
  from try_fold_inv [where P = ?P, OF up(2) _ this] have "?P R" by simp
  then show ?thesis
    using flat_at_upgrade [OF up(1)] assms(2) by (simp add: flat_ws_def up(3))
qed

section \<open>They stay separate\<close>

lemma flat_close_storages:
  "flat_db (db (at_trie A)) \<Longrightarrow> flat_db (db (at_trie (snd (close_storages flat_lib es A c))))"
proof (induction es arbitrary: A c)
  case (Cons e es)
  obtain a T where e: "e = (a, T)" by (cases e)
  obtain r A' where A': "at_set_storage_hash flat_lib A a (st_root_hash T) = (r, A')" by fastforce
  have "flat_db (db (at_trie A'))" by (rule flat_set_storage_hash [OF A' Cons.prems])
  then show ?case
    using A' Cons.IH by (cases r) (simp_all add: e st_close_eq split: unit.split)
qed simp

lemma flat_separate:
  assumes R: "ws_rel flat_model w m S" and F: "flat_ws w"
  shows "separate flat_lib flat_model w"
  unfolding separate_def
proof (intro allI impI)
  fix x y t t'
  assume t: "closing_trie flat_lib w x = Some t" "closing_trie flat_lib w y = Some t'" and "x \<noteq> y"
  have "flat_db (db t')"
    using t(2) F flat_close_storages
    by (auto simp: closing_trie_def closing_accounts_def flat_ws_def split: option.splits sum.splits)
  then have "touched (db t') \<subseteq> root_keys (home y)"
    using closing_trie_home(1) [OF flat_contract R t(2)] by (simp add: flat_db_def)
  moreover have "node_keys flat_model t \<subseteq> root_keys (home x)"
    using root_key [of "db t"] closing_trie_home(1) [OF flat_contract R t(1)]
    by (auto simp: node_keys_def flat_model_def)
  ultimately show "node_keys flat_model t \<inter> touched (db t') = {}"
    using root_keys_disjoint [OF \<open>x \<noteq> y\<close>] by blast
qed

end
