(* ===== verification/World_Life.thy ===== *)
theory World_Life
  imports World_Run Flat_World
begin

text \<open>
  The life of a world state, from its creation in version 1 through edits, commits and the
  upgrade to version 2: it refines the map of accounts, the map of storages and the network.
  Over the concrete trie library every run meets the condition on the commit after an upgrade.
\<close>

section \<open>Runs over the concrete library\<close>

text \<open>A read of a result that panics on an error.\<close>

lemma case_sumE:
  assumes "(case r of Inl e \<Rightarrow> None | Inr a \<Rightarrow> f a) = Some y"
  obtains a where "r = Inr a" "f a = Some y"
  using assms by (cases r) auto

lemma case_resultE:
  assumes "(case x of (Inl e, _) \<Rightarrow> None | (Inr a, T) \<Rightarrow> f a T) = Some y"
  obtains a T where "x = (Inr a, T)" "f a T = Some y"
  using assms by (cases x; cases "fst x") auto

lemma unwrap_readD: "unwrap_read f w x = Some (r, w') \<Longrightarrow> w' = w"
  by (auto simp: unwrap_read_def split: option.splits sum.splits)

lemma flat_sws:
  assumes "flat_ws w"
  shows "sws_get flat_lib w k = Some (v, w') \<Longrightarrow> flat_ws w'"
    and "sws_contains flat_lib w k = Some (b, w') \<Longrightarrow> flat_ws w'"
    and "sws_set flat_lib w k x = Some (u, w') \<Longrightarrow> flat_ws w'"
    and "sws_delete flat_lib w k = Some (u, w') \<Longrightarrow> flat_ws w'"
proof -
  have set: "flat_ws (ws_put_storage network_address T' w1)"
    if "ws_storage_trie_mut flat_lib w network_address = Some (Inr T, w1)" "st_set flat_lib T k x = (r, T')"
    for T T' w1 x r
    using flat_storage_trie_mut [OF that(1) assms] flat_edits_storage(1) [of T k x] that(2)
    by (simp add: flat_ws_put)
  show "sws_get flat_lib w k = Some (v, w') \<Longrightarrow> flat_ws w'"
    "sws_contains flat_lib w k = Some (b, w') \<Longrightarrow> flat_ws w'"
    using flat_storage_trie_mut [OF _ assms]
    by (auto simp: sws_get_def sws_contains_def ws_storage_trie_eq bind_eq_Some_conv elim!: case_sumE)
  show "sws_set flat_lib w k x = Some (u, w') \<Longrightarrow> flat_ws w'"
    "sws_delete flat_lib w k = Some (u, w') \<Longrightarrow> flat_ws w'"
    by (auto simp: sws_set_def sws_delete_def bind_eq_Some_conv elim!: case_sumE case_resultE intro: set)
qed

lemma flat_world_store_lawful:
  "network_account_storage (storage_world_state flat_lib) (\<lambda>w \<sigma>. world_rep flat_model K V d S U w \<sigma> \<and> flat_ws w)"
proof
  fix w \<sigma> k assume R: "world_rep flat_model K V d S U w \<sigma> \<and> flat_ws w"
  note flat = flat_sws [OF R [THEN conjunct2]]
  note L = flat_world_store.get_law [OF R [THEN conjunct1], of k]
    flat_world_store.contains_law [OF R [THEN conjunct1], of k]
    flat_world_store.set_law [OF R [THEN conjunct1], of _ k]
    flat_world_store.delete_law [OF R [THEN conjunct1], of k]
  show "\<exists>w'. nas_get (storage_world_state flat_lib) w k = Some (\<sigma> k, w') \<and>
      world_rep flat_model K V d S U w' \<sigma> \<and> flat_ws w'"
    using L(1) flat(1) by (auto simp: storage_world_state_def)
  show "\<exists>w'. nas_contains (storage_world_state flat_lib) w k = Some (\<sigma> k \<noteq> None, w') \<and>
      world_rep flat_model K V d S U w' \<sigma> \<and> flat_ws w'"
    using L(2) flat(2) by (auto simp: storage_world_state_def)
  show "\<exists>w'. nas_delete (storage_world_state flat_lib) w k = Some ((), w') \<and>
      world_rep flat_model K V d S U w' (\<sigma>(k := None)) \<and> flat_ws w'"
    using L(4) flat(4) by (auto simp: storage_world_state_def)
  fix v :: bytes assume "v \<noteq> []"
  then show "\<exists>w'. nas_set (storage_world_state flat_lib) w k v = Some ((), w') \<and>
      world_rep flat_model K V d S U w' (\<sigma>(k \<mapsto> v)) \<and> flat_ws w'"
    using L(3) [of v] flat(3) by (fastforce simp: storage_world_state_def)
qed

lemma flat_edit_storage:
  assumes "edit_storage flat_lib a edit w = Some (r, w')" "flat_ws w"
    and "\<And>T. flat_db (db (st_trie T)) \<Longrightarrow> flat_db (db (st_trie (snd (edit T))))"
  shows "flat_ws w'"
  using assms(1) flat_storage_trie_mut [OF _ assms(2)] assms(3)
  by (auto simp: edit_storage_def bind_eq_Some_conv elim!: case_sumE case_resultE intro!: flat_ws_put)
     (metis snd_conv)

lemma flat_read_storage:
  "read_storage flat_lib a f read w = Some (r, w') \<Longrightarrow> flat_ws w \<Longrightarrow> flat_ws w'"
  using flat_storage_trie_mut [of w a]
  by (auto simp: read_storage_def ws_storage_trie_eq bind_eq_Some_conv elim!: case_sumE dest: unwrap_readD)

lemma flat_world_exec:
  assumes B: "borsh_codec B" and H: "holds_chain flat_model B K n M X w" and F: "flat_ws w"
    and r: "chain_spec n M c X = Some (r, X')" and w': "world_exec flat_lib B n M c w = Some (r', w')"
  shows "flat_ws w'"
proof (cases c)
  case (OnNetwork c')
  then obtain r0 A where s: "net_spec n M c' (net X) = Some (r0, A)" using r by (auto simp: bind_eq_Some_conv)
  have "represents (\<lambda>v \<sigma>. world_rep flat_model K (chain_version X) (ws_db w) (storages X) (accounts X) v \<sigma> \<and>
      flat_ws v) B n M (net X) w"
    using H F unfolding holds_chain_def represents_def by blast
  from net_exec_refines [OF pool_store.intro [OF flat_world_store_lawful B] this s]
  show ?thesis using w' OnNetwork by (auto simp: represents_def bind_eq_Some_conv)
next
  case Upgrade
  then show ?thesis
    using w' F flat_ws_upgrade by (auto simp: upgraded_def split: if_splits option.splits sum.splits)
next
  case Commit
  then show ?thesis using w' by (auto simp: commit_def split: prod.splits sum.splits)
next
  case ListStorageHashes
  then show ?thesis using w' F by (auto simp: storage_hashes_def split: sum.splits if_splits)
next
  case (SetStorage a k v)
  then show ?thesis using flat_edit_storage [OF _ F, of a "\<lambda>T. st_set flat_lib T k v"] w' by simp
next
  case (RemoveStorage a k)
  then show ?thesis using flat_edit_storage [OF _ F, of a "\<lambda>T. st_remove flat_lib T k"] w' by simp
next
  case (BatchSetStorage a kvs)
  then show ?thesis using flat_edit_storage [OF _ F, of a "\<lambda>T. st_batch_set flat_lib T kvs"] w' by simp
next
  case (RemoveStorageTrie a)
  then show ?thesis using flat_edit_storage [OF _ F, of a "\<lambda>T. st_remove_trie flat_lib T"] w' by simp
next
  case (ReadStorage a k)
  then show ?thesis using flat_read_storage [OF _ F] w' by simp
next
  case (ProveStorage a k)
  then show ?thesis using flat_read_storage [OF _ F] w' by simp
next
  case (ContainsStorage a k)
  then show ?thesis using flat_read_storage [OF _ F] w' by simp
qed (use w' F in \<open>auto simp: unwrap_edit_def unwrap_read_def ws_account_trie_mut_def flat_ws_def
    split: prod.splits sum.splits option.splits dest!: arg_cong [of _ _ snd]\<close>)

lemma flat_commits:
  assumes B: "borsh_codec B"
  shows "holds_chain flat_model B K n M X w \<Longrightarrow> flat_ws w \<Longrightarrow> chain_spec_run n M cs X = Some (rs, X') \<Longrightarrow>
     commits_separate flat_lib B flat_model n M K cs w"
proof (induction cs arbitrary: K X w rs)
  case (Cons c cs)
  then obtain r X1 rs' where 1: "chain_spec n M c X = Some (r, X1)" "chain_spec_run n M cs X1 = Some (rs', X')"
    by (auto simp: bind_eq_Some_conv)
  have sep: "separate flat_lib flat_model w"
    using Cons.prems(1) flat_separate [OF _ Cons.prems(2)] by (auto simp: holds_chain_def represents_def world_rep_def)
  then obtain w1 where w1: "world_exec flat_lib B n M c w = Some (r, w1)"
    "holds_chain flat_model B (opened_v2 K c (ws_version w)) n M X1 w1"
    using world_exec_refines [OF flat_contract B Cons.prems(1) 1(1)] by blast
  then show ?case
    using sep Cons.IH [OF w1(2) flat_world_exec [OF B Cons.prems(1,2) 1(1) w1(1)] 1(2)] by simp
qed simp

section \<open>Properties\<close>

text \<open>
  What is stored under a key of the accounts trie has the type its field asks for, and the keys of an
  opened storage trie are those of its version.
\<close>

definition entry_typed :: "version \<Rightarrow> bytes \<Rightarrow> bytes \<Rightarrow> bool" where
  "entry_typed V k v \<longleftrightarrow>
     (\<exists>a f. account_address k = Inr a \<and> account_field_of V k = Inr f \<and> field_ok f v)"

definition well_typed :: "'t trie_lib \<Rightarrow> world_state \<Rightarrow> bool" where
  "well_typed E w \<longleftrightarrow>
     (\<forall>k v. mpt_get E (at_trie (accounts_trie w)) k = Inr (Some v) \<longrightarrow> entry_typed (ws_version w) k v) \<and>
     (\<forall>a T. map_of (storage_trie_map w) a = Some T \<longrightarrow> st_version T = ws_version w \<and>
        (\<forall>k v. mpt_get E (st_trie T) k = Inr (Some v) \<longrightarrow> (\<exists>k'. k = storage_key (ws_version w) k')))"

lemma ws_rel_typed:
  assumes C: "trie_contract E M" and R: "ws_rel M w m S"
  shows "well_typed E w"
proof -
  have A: "at_holds M (accounts_trie w) m" and srel: "\<And>a. storage_rel M w m a (S a)"
    using R by (simp_all add: ws_rel_def)
  have "entry_typed (ws_version w) k v" if "mpt_get E (at_trie (accounts_trie w)) k = Inr (Some v)" for k v
  proof -
    have "m k = Some v" using that mpt_get_ok [OF C at_holdsD [OF A]] by simp
    then show ?thesis
      using at_holds_wf [OF A] by (force simp: accounts_wf_def entry_typed_def ws_version_def)
  qed
  moreover have "st_version T = ws_version w \<and> (\<exists>k'. k = storage_key (ws_version w) k')"
    if T: "map_of (storage_trie_map w) a = Some T" and v: "mpt_get E (st_trie T) k = Inr (Some v)" for a T k v
  proof -
    have h: "st_holds M T (S a)" "st_version T = ws_version w"
      using storage_relD [OF srel T] by (simp_all add: storage_home_def)
    obtain c where c: "mpt_holds M (st_trie T) c" "storage_wf (st_version T) c"
      using h(1) by (rule st_holdsE)
    have "c k = Some v" using v mpt_get_ok [OF C c(1)] by simp
    then show ?thesis using c(2) h(2) by (auto simp: storage_wf_def)
  qed
  moreover have "st_version T = ws_version w" if "map_of (storage_trie_map w) a = Some T" for a T
    using storage_relD [OF srel that] by (simp add: storage_home_def)
  ultimately show ?thesis unfolding well_typed_def by blast
qed

text \<open>
  C1: Every sequence of account updates and reads (single fields, with and without a proof, or all
  accounts), storage updates and reads, operations on the network account, commits and, in version 1, the upgrade runs without a panic on a world state
  that holds a chain, when its operations on the network account keep their contract: every
  answer is the one of the specification, and the final world state holds the specified chain.
  Commits, each of which rebuilds the world state from the database and the root hash, are not
  visible, and the upgrade changes the version only.  The hash of the trie library has to tell
  subtries apart (\<open>merkle_trie\<close>).  The condition on the commits is that the tries are separate at
  the first commit after the upgrade; it asks nothing of all others.
\<close>

theorem world_run:
  assumes C: "merkle_trie E Md" and B: "borsh_codec B" and H: "holds_chain Md B K n M X w"
    and r: "chain_spec_run n M cs X = Some (rs, X')" and s: "commits_separate E B Md n M K cs w"
  shows "\<exists>K' w'. world_steps E B n M cs w = Some (rs, w') \<and> holds_chain Md B K' n M X' w' \<and> (K \<longrightarrow> K')"
  by (rule world_run_refines [OF C B H r s])

theorem world_run_witness:
  "\<exists>w'. world_steps flat_lib borsh_std 1 2
     [SetBalance (b32_fill 3) 9, SetStorage (b32_fill 3) [1] [2], OnNetwork (NvpInsert (PoolKey (b32_fill 1) 10)),
      Commit, SetStorage (b32_fill 4) [5] [6], RemoveStorage (b32_fill 3) [1], Upgrade, SetCode (b32_fill 4) [0],
      ReadBalance (b32_fill 3), Commit, OnNetwork NvpExtract, ReadStorage (b32_fill 3) [1],
      ReadStorage (b32_fill 4) [5]] (ws_new flat_lib V1 Map.empty) =
     Some ([Unit, Unit, OfNetwork Done, Unit, Unit, Unit, Unit, Unit, Number 9, Unit,
       OfNetwork (Extracted (Some (PoolKey (b32_fill 1) 10))), Bytes None, Bytes (Some [6])], w')"
  (is "\<exists>w'. world_steps flat_lib borsh_std 1 2 ?cs ?w = Some (?rs, w')")
proof -
  have b: "b32_fill 3 \<noteq> network_address" "b32_fill 4 \<noteq> network_address" "b32_fill 3 \<noteq> b32_fill 4"
    by (simp_all add: network_address_def)
  have run: "\<exists>X'. chain_spec_run 1 2 ?cs (empty_chain V1) = Some (?rs, X')"
    using b by (simp add: empty_chain_def empty_network_def spec_edit_storage_def spec_read_storage_def put_account_def put_content_def)
  have new: "holds_chain flat_model borsh_std False 1 2 (empty_chain V1) ?w"
    using new_world_holds [OF flat_contract, where V = V1] by simp
  have "commits_separate flat_lib borsh_std flat_model 1 2 False ?cs ?w"
    using flat_commits [OF std.borsh_codec_axioms new flat_ws_new] run by blast
  with run show ?thesis using world_run [OF flat_merkle std.borsh_codec_axioms new] by blast
qed

text \<open>
  C5: In every world state that such a sequence ends in, each entry of the accounts trie has a key
  that decodes into an address and a field, and a value of the type of that field: eight bytes for
  the nonce and the balance, four for the CBI version, a storage hash of 32, code that is not
  empty.  The keys of every opened storage trie are those of the version, which is the version of
  the trie.
\<close>

theorem world_well_typed:
  assumes C: "merkle_trie E Md" and B: "borsh_codec B" and H: "holds_chain Md B K n M X w"
    and r: "chain_spec_run n M cs X = Some (rs, X')" and s: "commits_separate E B Md n M K cs w"
    and w': "world_steps E B n M cs w = Some (rs', w')"
  shows "well_typed E w'"
proof -
  obtain K' w2 where "world_steps E B n M cs w = Some (rs, w2)" "holds_chain Md B K' n M X' w2"
    using world_run_refines [OF C B H r s] by blast
  then have "holds_chain Md B K' n M X' w'" using w' by simp
  then show ?thesis
    using ws_rel_typed [OF merkle_contract [OF C]] by (auto simp: holds_chain_def represents_def world_rep_def)
qed

theorem world_well_typed_witness:
  "\<exists>w'. world_steps flat_lib borsh_std 1 2 [SetCbiVersion (b32_fill 3) 7, SetStorage (b32_fill 3) [1] [2], Commit,
     Upgrade, Commit] (ws_new flat_lib V1 Map.empty) = Some ([Unit, Unit, Unit, Unit, Unit], w') \<and>
     well_typed flat_lib w'"
  (is "\<exists>w'. world_steps flat_lib borsh_std 1 2 ?cs ?w = Some (?rs, w') \<and> _")
proof -
  have b: "b32_fill 3 \<noteq> network_address" by (simp add: network_address_def)
  obtain X' where run: "chain_spec_run 1 2 ?cs (empty_chain V1) = Some (?rs, X')"
    using b by (simp add: empty_chain_def spec_edit_storage_def put_account_def)
  have new: "holds_chain flat_model borsh_std False 1 2 (empty_chain V1) ?w"
    using new_world_holds [OF flat_contract, where V = V1] by simp
  note sep = flat_commits [OF std.borsh_codec_axioms new flat_ws_new run]
  obtain w' where w': "world_steps flat_lib borsh_std 1 2 ?cs ?w = Some (?rs, w')"
    using world_run_refines [OF flat_merkle std.borsh_codec_axioms new run sep] by blast
  then show ?thesis
    using world_well_typed [OF flat_merkle std.borsh_codec_axioms new run sep w'] by blast
qed

end
