(* ===== verification/Test_Logic.thy ===== *)
theory Test_Logic
  imports Prelude
begin

text \<open>
  What the translated unit tests share: \<open>unwrap\<close> and assertions, whose failure is \<open>None\<close>, and
  rules that run a test step by step, one rule for each kind of step.
\<close>

definition unwrap :: "'e + 'a \<Rightarrow> 'a option" where
  "unwrap r = (case r of Inl _ \<Rightarrow> None | Inr a \<Rightarrow> Some a)"

definition assert :: "bool \<Rightarrow> unit option" where
  "assert b = (if b then Some () else None)"

lemma unwrap_simps [simp]: "unwrap (Inr a) = Some a" "assert True = Some ()"
  by (simp_all add: unwrap_def assert_def)

lemma unwrap_Some_iff: "unwrap r = Some a \<longleftrightarrow> r = Inr a"
  by (cases r) (simp_all add: unwrap_def)

text \<open>The program \<open>x\<close> does not panic, and its result satisfies \<open>P\<close>.\<close>

definition returns :: "'a option \<Rightarrow> ('a \<Rightarrow> bool) \<Rightarrow> bool" where
  "returns x P \<longleftrightarrow> (\<exists>a. x = Some a \<and> P a)"

lemma returns_done: "P a \<Longrightarrow> returns (Some a) P"
  by (simp add: returns_def)

lemma returns_assert: "b \<Longrightarrow> P () \<Longrightarrow> returns (assert b) P"
  by (simp add: returns_def)

lemma returns_assert_then: "b \<Longrightarrow> returns (f ()) P \<Longrightarrow> returns (assert b \<bind> f) P"
  by simp

lemma returns_bind: "returns x Q \<Longrightarrow> (\<And>a. Q a \<Longrightarrow> returns (f a) P) \<Longrightarrow> returns (x \<bind> f) P"
  by (auto simp: returns_def)

lemma returns_weaken: "returns x Q \<Longrightarrow> (\<And>a. Q a \<Longrightarrow> P a) \<Longrightarrow> returns x P"
  by (auto simp: returns_def)

end
