(* ===== verification/World_Scripts.thy ===== *)
theory World_Scripts
  imports World_Life Test_Logic
begin

text \<open>
  The unit tests of \<open>tests/tests.rs\<close> that use storages, proofs, iteration and the upgrade, as scripts:
  the calls on one world state after another, each with the answer that is asserted.  The steps
  that close a world state, apply the changes to the database and open the next one are \<open>Commit\<close>.
\<close>

section \<open>Scripts\<close>

text \<open>
  No answer is given where the test only prints the result.  A reference to a storage trie that a
  test holds on to is taken anew at each use, which finds the same trie.
\<close>

type_synonym script = "(world_call \<times> answer option) list"

fun run_script :: "'t trie_lib \<Rightarrow> borsh_lib \<Rightarrow> u16 \<Rightarrow> u16 \<Rightarrow> script \<Rightarrow> world_state \<Rightarrow> unit option" where
  "run_script E B n M [] w = Some ()"
| "run_script E B n M ((c, expected) # cs) w = do {
     (r, w) \<leftarrow> world_exec E B n M c w;
     _ \<leftarrow> assert (case expected of None \<Rightarrow> True | Some x \<Rightarrow> r = x);
     run_script E B n M cs w
   }"

definition run_test :: "'t trie_lib \<Rightarrow> borsh_lib \<Rightarrow> u16 \<Rightarrow> u16 \<Rightarrow> version \<times> script \<Rightarrow> unit option" where
  "run_test E B n M t = run_script E B n M (snd t) (ws_new E (fst t) Map.empty)"

text \<open>The same script on the specification.\<close>

fun spec_script :: "u16 \<Rightarrow> u16 \<Rightarrow> script \<Rightarrow> chain \<Rightarrow> bool" where
  "spec_script n M [] X = True"
| "spec_script n M ((c, expected) # cs) X =
     (case chain_spec n M c X of
        None \<Rightarrow> False
      | Some (r, X') \<Rightarrow> (case expected of None \<Rightarrow> True | Some x \<Rightarrow> r = x) \<and> spec_script n M cs X')"

lemma spec_script_run:
  "spec_script n M cs X \<Longrightarrow> \<exists>rs X'. chain_spec_run n M (map fst cs) X = Some (rs, X')"
proof (induction cs arbitrary: X)
  case (Cons s cs)
  then show ?case by (cases s) (fastforce split: option.splits)
qed simp

lemma run_script_ok:
  assumes C: "merkle_trie E Md" and B: "borsh_codec B"
  shows "holds_chain Md B K n M X w \<Longrightarrow> spec_script n M cs X \<Longrightarrow>
     commits_separate E B Md n M K (map fst cs) w \<Longrightarrow> run_script E B n M cs w = Some ()"
proof (induction cs arbitrary: K X w)
  case (Cons s cs)
  obtain c expected where s: "s = (c, expected)" by (cases s)
  obtain r X1 where 1: "chain_spec n M c X = Some (r, X1)" "case expected of None \<Rightarrow> True | Some x \<Rightarrow> r = x"
    "spec_script n M cs X1"
    using Cons.prems(2) by (auto simp: s split: option.splits)
  obtain w1 where w1: "world_exec E B n M c w = Some (r, w1)"
    "holds_chain Md B (opened_v2 K c (ws_version w)) n M X1 w1"
    using world_exec_refines [OF merkle_contract [OF C] B Cons.prems(1) 1(1)]
      v1_commit_separate [OF C Cons.prems(1)] Cons.prems(3) by (auto simp: s)
  have "commits_separate E B Md n M (opened_v2 K c (ws_version w)) (map fst cs) w1"
    using Cons.prems(3) w1(1) by (simp add: s)
  from Cons.IH [OF w1(2) 1(3) this] show ?case using w1(1) 1(2) by (simp add: s)
qed simp

lemma run_test_ok:
  assumes C: "merkle_trie E Md" and B: "borsh_codec B" and s: "spec_script n M cs (empty_chain V)"
    and k: "V = V1 \<Longrightarrow> Upgrade \<in> fst ` set cs \<Longrightarrow>
      commits_separate E B Md n M False (map fst cs) (ws_new E V1 Map.empty)"
  shows "run_test E B n M (V, cs) = Some ()"
proof -
  have new: "holds_chain Md B (V = V2) n M (empty_chain V) (ws_new E V Map.empty)"
    by (rule new_world_holds [OF merkle_contract [OF C]])
  have "commits_separate E B Md n M (V = V2) (map fst cs) (ws_new E V Map.empty)"
  proof (cases "V = V2 \<or> Upgrade \<in> fst ` set cs")
    case True
    then show ?thesis using k by (cases V) auto
  next
    case False
    then show ?thesis
      using commits_separate_v1 [OF C B new] spec_script_run [OF s] by (cases V) (auto simp: empty_chain_def)
  qed
  from run_script_ok [OF C B new s this] show ?thesis by (simp add: run_test_def)
qed

section \<open>The tests\<close>

definition key_apple :: bytes where
  "key_apple = [4] @ replicate 32 1 @ replicate 30 2 @ [3, 4, 5, 6, 7]"

definition key_apple_63 :: bytes where
  "key_apple_63 = [4] @ replicate 32 1 @ replicate 30 2"

definition key_apple_word :: bytes where "key_apple_word = [97, 112, 112, 108, 101]"

definition value_apple :: bytes where "value_apple = [49, 50, 51, 52]"

definition key_banana :: bytes where "key_banana = [98, 97, 110, 97, 110, 97]"

definition value_banana :: bytes where "value_banana = [49, 50, 51, 52, 53]"

definition code_vec :: bytes where
  "code_vec = [72, 101, 108, 108, 111, 32, 119, 111, 114, 108, 100]"

definition update_storage_v1 :: "b32 \<Rightarrow> script" where
  "update_storage_v1 address =
     [(ReadStorage address key_apple, Some (Bytes None)), (ReadStorage address key_banana, Some (Bytes None)),
      (SetStorage address key_banana value_banana, None), (SetStorage address key_apple value_apple, None),
      (Commit, None),
      (ContainsStorage address key_apple, Some (Truth True)),
      (ContainsStorage address key_banana, Some (Truth True)),
      (ReadStorage address key_apple, Some (Bytes (Some value_apple))),
      (ReadStorage address key_banana, Some (Bytes (Some value_banana)))]"

definition update_storage_v2 :: "b32 \<Rightarrow> script" where
  "update_storage_v2 address =
     [(ReadStorage address key_apple, Some (Bytes None)), (ReadStorage address key_banana, Some (Bytes None)),
      (SetStorage address key_apple value_apple, None), (SetStorage address key_banana value_banana, None),
      (Commit, None),
      (ContainsStorage address key_apple, Some (Truth True)),
      (ContainsStorage address key_banana, Some (Truth True)),
      (ReadStorage address key_apple, Some (Bytes (Some value_apple))),
      (ReadStorage address key_banana, Some (Bytes (Some value_banana)))]"

text \<open>Of the listed accounts \<open>iter\<close> prints the fields, the decoded storage hash among them.\<close>

definition iter_setup :: "b32 \<Rightarrow> b32 \<Rightarrow> script" where
  "iter_setup address address' =
     [(SetNonce address 1, None), (SetBalance address 100000, None), (SetCode address code_vec, None),
      (SetCbiVersion address 1, None),
      (SetNonce address' 2, None), (SetBalance address' 200000, None), (SetCode address' code_vec, None),
      (SetCbiVersion address' 2, None),
      (SetStorage address key_apple value_apple, None), (SetStorage address key_banana value_banana, None),
      (Commit, None), (ListStorageHashes, None)]"

definition iter_v1 :: "b32 \<Rightarrow> b32 \<Rightarrow> script" where
  "iter_v1 address address' = iter_setup address address' @
     [(ContainsStorage address key_apple, Some (Truth True)),
      (ReadStorage address key_apple, Some (Bytes (Some value_apple))),
      (ContainsStorage address key_banana, Some (Truth True)),
      (ReadStorage address key_banana, Some (Bytes (Some value_banana)))]"

definition iter_v2 :: "b32 \<Rightarrow> b32 \<Rightarrow> script" where
  "iter_v2 address address' = iter_setup address address' @
     [(ContainsStorage address key_apple, Some (Truth True)),
      (ContainsStorage address key_banana, Some (Truth True))]"

definition search_setup :: "b32 \<Rightarrow> script" where
  "search_setup address =
     [(SetNonce address 1, None), (SetBalance address 100000, None), (SetCode address code_vec, None),
      (SetCbiVersion address 1, None), (SetStorage address key_apple_63 value_apple, None), (Commit, None),
      (ProveNonce address, None), (ProveNonce address, Some (Number 1))]"

definition search_checks :: "b32 \<Rightarrow> script" where
  "search_checks address =
     [(ProveBalance address, Some (Number 100000)), (ProveCode address, Some (Bytes (Some code_vec))),
      (ProveCbiVersion address, Some (Version (Some 1))), (ProveStorageHash address, None),
      (ProveStorage address key_apple_63, None),
      (ProveStorage address key_apple_63, Some (Bytes (Some value_apple)))]"

definition search_with_proof_v1 :: "b32 \<Rightarrow> script" where
  "search_with_proof_v1 address = search_setup address @ search_checks address"

text \<open>The version 2 part asserts the nonce twice.\<close>

definition search_with_proof_v2 :: "b32 \<Rightarrow> script" where
  "search_with_proof_v2 address =
     search_setup address @ [(ProveNonce address, Some (Number 1))] @ search_checks address"

definition upgrade_checks :: "b32 \<Rightarrow> script" where
  "upgrade_checks address =
     [(ListAccounts, None),
      (ContainsStorage address key_apple_63, Some (Truth True)),
      (ReadStorage address key_apple_63, Some (Bytes (Some value_apple))),
      (ContainsStorage address key_banana, Some (Truth True)),
      (ReadStorage address key_banana, Some (Bytes (Some value_banana)))]"

definition upgrade_test :: "b32 \<Rightarrow> b32 \<Rightarrow> script" where
  "upgrade_test address address' =
     [(SetNonce address 1, None), (SetBalance address 100000, None), (SetCbiVersion address 1, None),
      (SetCode address code_vec, None),
      (SetNonce address' 1, None), (SetBalance address' 200000, None), (SetCbiVersion address' 2, None),
      (SetCode address' code_vec, None),
      (SetStorage address key_apple_63 value_apple, None), (SetStorage address key_banana value_banana, None),
      (Commit, None)] @ upgrade_checks address @
     [(Upgrade, None), (Commit, None)] @ upgrade_checks address"

definition remove_storage_info :: "b32 \<Rightarrow> script" where
  "remove_storage_info address =
     [(SetStorage address key_apple_word value_apple, None), (SetStorage address key_banana value_banana, None),
      (Commit, None),
      (ListAccounts, None),
      (ContainsStorage address key_apple_word, Some (Truth True)),
      (ReadStorage address key_apple_word, Some (Bytes (Some value_apple))),
      (ContainsStorage address key_banana, Some (Truth True)),
      (ReadStorage address key_banana, Some (Bytes (Some value_banana))),
      (RemoveStorageTrie address, None),
      (Commit, None),
      (ListAccounts, None),
      (ContainsStorage address key_apple_word, Some (Truth False)),
      (ContainsStorage address key_banana, Some (Truth False))]"

definition storage_tests :: "b32 \<Rightarrow> b32 \<Rightarrow> (version \<times> script) list" where
  "storage_tests address address' =
     [(V1, update_storage_v1 address), (V2, update_storage_v2 address),
      (V1, iter_v1 address address'), (V2, iter_v2 address address'),
      (V1, search_with_proof_v1 address), (V2, search_with_proof_v2 address),
      (V1, upgrade_test address address'),
      (V1, remove_storage_info address), (V2, remove_storage_info address)]"

text \<open>
  The first entry of the map of inserts depends on the order of a \<open>HashMap\<close>: the test asserts that
  the two maps have entries, and different keys whichever come first.
\<close>

definition diff_version :: "'t trie_lib \<Rightarrow> unit option" where
  "diff_version E = do {
     let ws_1 = ws_new E V1 Map.empty;
     let ws_2 = ws_new E V2 Map.empty;
     ws_change_1 \<leftarrow> unwrap (fst (ws_close E ws_1));
     ws_change_2 \<leftarrow> unwrap (fst (ws_close E ws_2));
     _ \<leftarrow> assert (fst ws_change_1 \<noteq> Map.empty \<and> fst ws_change_2 \<noteq> Map.empty);
     assert (dom (fst ws_change_1) \<inter> dom (fst ws_change_2) = {})
   }"

section \<open>They pass\<close>

lemma test_keys [simp]: "key_apple \<noteq> key_banana" "key_apple_63 \<noteq> key_banana" "key_apple_word \<noteq> key_banana"
  by (auto simp: key_apple_def key_apple_63_def key_apple_word_def key_banana_def)

lemma test_values [simp]: "value_apple \<noteq> []" "value_banana \<noteq> []" "code_vec \<noteq> []"
  by (simp_all add: value_apple_def value_banana_def code_vec_def)

lemmas spec_steps = spec_edit_storage_def spec_read_storage_def put_account_def put_content_def code_bytes_def
  empty_chain_def account_default_def

lemma storage_scripts_ok:
  assumes a: "a \<noteq> network_address" "a \<noteq> b" and t: "(V, cs) \<in> set (storage_tests a b)"
  shows "spec_script n M cs (empty_chain V)"
proof -
  have k: "key_banana \<noteq> key_apple" "key_banana \<noteq> key_apple_63" "key_banana \<noteq> key_apple_word" "b \<noteq> a"
    using a(2) test_keys by (metis | simp)+
  consider "cs = update_storage_v1 a" | "cs = update_storage_v2 a" | "cs = iter_v1 a b" | "cs = iter_v2 a b"
    | "cs = search_with_proof_v1 a" | "cs = search_with_proof_v2 a" | "cs = upgrade_test a b \<and> V = V1"
    | "cs = remove_storage_info a"
    using t by (auto simp: storage_tests_def)
  then show ?thesis
  proof cases
    case 1
    then show ?thesis using a k by (simp add: update_storage_v1_def spec_steps)
  next
    case 2
    then show ?thesis using a k by (simp add: update_storage_v2_def spec_steps)
  next
    case 3
    then show ?thesis using a k by (simp add: iter_v1_def iter_setup_def spec_steps)
  next
    case 4
    then show ?thesis using a k by (simp add: iter_v2_def iter_setup_def spec_steps)
  next
    case 5
    then show ?thesis using a k by (simp add: search_with_proof_v1_def search_setup_def search_checks_def spec_steps)
  next
    case 6
    then show ?thesis using a k by (simp add: search_with_proof_v2_def search_setup_def search_checks_def spec_steps)
  next
    case 7
    then show ?thesis using a k by (simp add: upgrade_test_def upgrade_checks_def spec_steps)
  next
    case 8
    then show ?thesis using a k by (simp add: remove_storage_info_def spec_steps)
  qed
qed

lemma upgrading_test:
  "(V, cs) \<in> set (storage_tests a b) \<Longrightarrow> Upgrade \<in> fst ` set cs \<Longrightarrow> cs = upgrade_test a b"
  by (auto simp: storage_tests_def update_storage_v1_def update_storage_v2_def iter_v1_def iter_v2_def
      iter_setup_def search_with_proof_v1_def search_with_proof_v2_def search_setup_def search_checks_def
      remove_storage_info_def)

lemma new_world_inserts:
  assumes "trie_contract E M"
  shows "\<exists>del r w'. ws_close E (ws_new E V s) = (Inr (inserts (db (at_trie (at_new E V s))), del, r), w')"
proof -
  have "ws_rel M (ws_new E V s) Map.empty (\<lambda>_. Map.empty)" by (rule ws_new_ok [OF assms])
  moreover have "visit (hash_order E) (storage_trie_map (ws_new E V s)) = []"
    using visit_map(2) [OF trie_visit [OF assms], of "storage_trie_map (ws_new E V s)"]
    by (simp add: ws_new_def map_of_eq_empty_iff)
  ultimately show ?thesis
    by (auto simp: ws_close_def at_close_def mpt_close_ok) (simp add: ws_new_def)
qed

lemma diff_version_ok:
  assumes C: "trie_contract E M"
  shows "diff_version E = Some ()"
proof -
  have i: "inserts (db (at_trie (at_new E V Map.empty))) = [key_tag V [] @ b32_bytes (null_root E) \<mapsto> [0]]" for V
    by (simp add: at_new_def mpt_new_def Let_def build_key_tag)
  have d: "key_tag V1 [] @ b32_bytes h \<noteq> key_tag V2 [] @ b32_bytes h" for h
    by (auto simp: key_tag_def dest: arg_cong [of _ _ length])
  obtain del1 r1 w1 del2 r2 w2 where
    "ws_close E (ws_new E V1 Map.empty) = (Inr (inserts (db (at_trie (at_new E V1 Map.empty))), del1, r1), w1)"
    "ws_close E (ws_new E V2 Map.empty) = (Inr (inserts (db (at_trie (at_new E V2 Map.empty))), del2, r2), w2)"
    using new_world_inserts [OF C] by metis
  then show ?thesis using d by (simp add: diff_version_def i)
qed

section \<open>Properties\<close>

text \<open>
  C32: The unit tests with storages pass: reading and writing a storage, iterating over the accounts,
  searching with proofs, upgrading and emptying a storage, each over one or two rounds of closing
  and opening, answer every assertion for any two different addresses, the first not that of the
  network account, every trie library whose hash tells subtries apart and every codec, and the keys
  of the two versions in \<open>diff_version\<close> differ.  Where \<open>upgrade_test\<close> closes the world state just
  upgraded, its tries have to be separate.
\<close>

theorem storage_tests_pass:
  assumes C: "merkle_trie E Md" and B: "borsh_codec B" and a: "a \<noteq> network_address" "a \<noteq> b"
    and s: "commits_separate E B Md n M False (map fst (upgrade_test a b)) (ws_new E V1 Map.empty)"
  shows "(\<forall>t \<in> set (storage_tests a b). run_test E B n M t = Some ()) \<and> diff_version E = Some ()"
proof -
  have "run_test E B n M (V, cs) = Some ()" if "(V, cs) \<in> set (storage_tests a b)" for V cs
    by (rule run_test_ok [OF C B storage_scripts_ok [OF a that]]) (use s upgrading_test [OF that] in simp)
  then show ?thesis using diff_version_ok [OF merkle_contract [OF C]] by auto
qed

theorem storage_tests_pass_witness:
  "run_test flat_lib borsh_std 1 2 (V1, upgrade_test (b32_fill 3) (b32_fill 4)) = Some ()"
proof -
  have a: "b32_fill 3 \<noteq> network_address" "b32_fill 3 \<noteq> b32_fill 4"
    by (simp_all add: network_address_def)
  let ?cs = "upgrade_test (b32_fill 3) (b32_fill 4)"
  have t: "(V1, ?cs) \<in> set (storage_tests (b32_fill 3) (b32_fill 4))" by (simp add: storage_tests_def)
  have "commits_separate flat_lib borsh_std flat_model 1 2 False (map fst ?cs) (ws_new flat_lib V1 Map.empty)"
    using spec_script_run [OF storage_scripts_ok [OF a t]]
      flat_commits [OF std.borsh_codec_axioms _ flat_ws_new] new_world_holds [OF flat_contract, where V = V1] by fastforce
  from storage_tests_pass [OF flat_merkle std.borsh_codec_axioms a this] show ?thesis using t by blast
qed

end
