(* ===== verification/Integration_Test.thy ===== *)
theory Integration_Test
  imports World_Scripts
begin

text \<open>
  The integration tests (\<open>tests/integration_test.rs\<close>): a version 1 world state is filled, upgraded and
  closed, and the version 2 world state opened on the result has its accounts and storages.
\<close>

section \<open>One account\<close>

definition test_address :: b32 where "test_address = b32_fill 1"

definition test_entries :: "(bytes \<times> bytes) list" where
  "test_entries =
     [(replicate 31 31, [1]), (replicate 32 32, [2, 2]), (replicate 33 33, [3, 3, 3]),
      (replicate 64 64, [4, 4, 4, 4])]"

fun set_each :: "'t trie_lib \<Rightarrow> b32 \<Rightarrow> (bytes \<times> bytes) list \<Rightarrow> world_state \<Rightarrow> world_state option" where
  "set_each E address [] w = Some w"
| "set_each E address ((key, value) # es) w = do {
     (r, w) \<leftarrow> ws_storage_trie_mut E w address;
     T \<leftarrow> unwrap r;
     let (r, T) = st_set E T key value;
     _ \<leftarrow> unwrap r;
     set_each E address es (ws_put_storage address T w)
   }"

fun get_each :: "'t trie_lib \<Rightarrow> storage_trie \<Rightarrow> (bytes \<times> bytes) list \<Rightarrow> unit option" where
  "get_each E T [] = Some ()"
| "get_each E T ((key, value) # es) = do {
     v \<leftarrow> unwrap (st_get E T key);
     _ \<leftarrow> assert (v = Some value);
     get_each E T es
   }"

text \<open>The test up to the upgrade, and the rest of it.\<close>

definition test_setup :: "'t trie_lib \<Rightarrow> world_state option" where
  "test_setup E = do {
     let ws_1 = ws_new E V1 Map.empty;
     let (r, ws_1) = ws_account_trie_mut (\<lambda>A. at_set_balance E A test_address 12345) ws_1;
     _ \<leftarrow> unwrap r;
     ws_1 \<leftarrow> set_each E test_address test_entries ws_1;
     r \<leftarrow> ws_upgrade E ws_1;
     unwrap r
   }"

definition test_checks :: "'t trie_lib \<Rightarrow> world_state \<Rightarrow> unit option" where
  "test_checks E ws_2 = do {
     let (r, ws_2) = ws_close E ws_2;
     ws_2_changes \<leftarrow> unwrap r;
     let ws_2_root_hash = snd (snd ws_2_changes);
     let db = apply_changes (fst ws_2_changes, fst (snd ws_2_changes)) Map.empty;
     let ws_2 = ws_open V2 db ws_2_root_hash;
     ws_2_all_accounts \<leftarrow> unwrap (at_all E (ws_account_trie ws_2));
     _ \<leftarrow> assert (length ws_2_all_accounts = 1);
     account \<leftarrow> map_of ws_2_all_accounts test_address;
     _ \<leftarrow> assert ((account.balance account, cbi_version account, code account = [], nonce account,
                   storage_hash account = []) = (12345, None, True, 0, False));
     (r, ws_2) \<leftarrow> ws_storage_trie E ws_2 test_address;
     storage \<leftarrow> unwrap r;
     get_each E storage test_entries
   }"

definition test_upgrade_v1_to_v2 :: "'t trie_lib \<Rightarrow> unit option" where
  "test_upgrade_v1_to_v2 E = Option.bind (test_setup E) (test_checks E)"

section \<open>Many accounts\<close>

record account_instance =
  ai_nonce :: u64
  ai_balance :: u64
  ai_code :: bytes
  ai_cbi_version :: "u32 option"
  ai_storage_hash :: bytes
  ai_storages :: "(bytes \<times> bytes) list"

definition generate_spec_account :: "b32 \<Rightarrow> b32 \<times> account_instance" where
  "generate_spec_account address =
     (address, \<lparr>ai_nonce = 1, ai_balance = 100000, ai_code = [], ai_cbi_version = Some 1,
        ai_storage_hash = [], ai_storages = [([97, 112, 112, 108, 101], [97, 112, 112, 108, 101, 95, 118, 97, 108, 117, 101])]\<rparr>)"

text \<open>
  The generated addresses are parameters, one for each index from 1 to 99.  The keys of the
  storages are hashes of one byte.
\<close>

definition generate_storages :: "'t trie_lib \<Rightarrow> b32 \<Rightarrow> (bytes \<times> bytes) list" where
  "generate_storages E address =
     fold (\<lambda>i. hm_insert (b32_bytes (rh_hash E [of_nat i])) (b32_bytes address)) [1..<255] []"

definition generate_accounts ::
    "'t trie_lib \<Rightarrow> (nat \<Rightarrow> b32) \<Rightarrow> b32 \<Rightarrow> (b32 \<times> account_instance) list" where
  "generate_accounts E address spec_address =
     (let accounts_map = fold (\<lambda>index. hm_insert (address index)
            \<lparr>ai_nonce = of_nat index, ai_balance = of_nat (index * 1000), ai_code = b32_bytes (address index),
             ai_cbi_version = Some 1, ai_storage_hash = [], ai_storages = generate_storages E (address index)\<rparr>) [1..<100] [];
          spec_account = generate_spec_account spec_address
      in hm_insert (fst spec_account) (snd spec_account) accounts_map)"

definition store_account :: "b32 \<times> account_instance \<Rightarrow> world_call list option" where
  "store_account e =
     (case e of (address, account) \<Rightarrow>
        do {
          cbi \<leftarrow> ai_cbi_version account;
          Some ([SetNonce address (ai_nonce account), SetBalance address (ai_balance account),
                 SetCbiVersion address cbi, SetCode address (ai_code account)] @
                (if ai_storages account \<noteq> [] then [BatchSetStorage address (ai_storages account)] else []))
        })"

fun open_each :: "'t trie_lib \<Rightarrow> b32 list \<Rightarrow> world_state \<Rightarrow> unit option" where
  "open_each E [] w = Some ()"
| "open_each E (address # as) w = do {
     (r, w) \<leftarrow> ws_storage_trie E w address;
     _ \<leftarrow> unwrap r;
     open_each E as w
   }"

text \<open>The calls of \<open>upgrade\<close> on its world states, and the test.\<close>

definition upgrade_calls :: "'t trie_lib \<Rightarrow> (b32 \<times> account_instance) list \<Rightarrow> world_call list option" where
  "upgrade_calls E generated = do {
     cs \<leftarrow> those (map store_account (visit (hash_order E) generated));
     Some (concat cs @ [Commit, Upgrade, Commit])
   }"

definition integration_upgrade ::
    "'t trie_lib \<Rightarrow> borsh_lib \<Rightarrow> u16 \<Rightarrow> u16 \<Rightarrow> (b32 \<times> account_instance) list \<Rightarrow> unit option" where
  "integration_upgrade E B n M generated = do {
     cs \<leftarrow> upgrade_calls E generated;
     (_, ws_2_new) \<leftarrow> world_steps E B n M cs (ws_new E V1 Map.empty);
     listed_accounts \<leftarrow> unwrap (at_all E (ws_account_trie ws_2_new));
     open_each E (map fst (visit (hash_order E) listed_accounts)) ws_2_new
   }"

section \<open>A world state with one account\<close>

lemma at_holds_unique:
  "trie_contract E M \<Longrightarrow> at_holds M A m \<Longrightarrow> at_holds M A m' \<Longrightarrow> m = m'"
  using trie_content_unique by (auto simp: at_holds_def mpt_holds_def)

lemma storage_trie_mut_only:
  assumes C: "trie_contract E M" and R: "ws_rel M w m S" and R': "ws_rel M w' m' S'"
    and o: "ws_storage_trie_mut E w a = Some (Inr T, w')" and b: "b \<noteq> a"
  shows "m' (account_key (ws_version w) b f) = m (account_key (ws_version w) b f)"
    and "map_of (storage_trie_map w') b = map_of (storage_trie_map w) b"
proof -
  have A: "at_holds M (accounts_trie w) m" "at_holds M (accounts_trie w') m'"
    using R R' by (simp_all add: ws_rel_def)
  consider "accounts_trie w' = accounts_trie w" | h where
    "at_set_storage_hash E (accounts_trie w) a h = (Inr (), accounts_trie w')"
    using o by (auto simp: ws_storage_trie_mut_def Let_def split: option.splits sum.splits prod.splits unit.splits)
  then show "m' (account_key (ws_version w) b f) = m (account_key (ws_version w) b f)"
  proof cases
    case 1
    then show ?thesis using at_holds_unique [OF C] A by metis
  next
    case 2
    then have "at_holds M (accounts_trie w') (m(account_key (ws_version w) a StorageHash \<mapsto> b32_bytes h))"
      using at_set_storage_hash_ok [OF C A(1), of a h] by (auto simp: ws_version_def)
    then have "m' = m(account_key (ws_version w) a StorageHash \<mapsto> b32_bytes h)"
      using at_holds_unique [OF C A(2)] by simp
    then show ?thesis using b by simp
  qed
  show "map_of (storage_trie_map w') b = map_of (storage_trie_map w) b"
    using o b by (auto simp: ws_storage_trie_mut_def Let_def split: option.splits sum.splits prod.splits unit.splits)
qed

text \<open>Only account \<open>a\<close> has entries, and only its storage trie is opened.\<close>

definition one_account ::
    "'t trie_model \<Rightarrow> version \<Rightarrow> b32 \<Rightarrow> account \<Rightarrow> bytes bytemap \<Rightarrow> world_state \<Rightarrow> content \<Rightarrow> bool" where
  "one_account M V a x s w m \<longleftrightarrow>
     ws_rel M w m ((\<lambda>_. Map.empty)(a := s)) \<and> ws_version w = V \<and> user_account V m a = x \<and>
     (\<forall>b f. b \<noteq> a \<longrightarrow> m (account_key V b f) = None) \<and>
     (\<forall>b. b \<noteq> a \<longrightarrow> map_of (storage_trie_map w) b = None)"

lemma set_each_ok:
  assumes C: "trie_contract E M"
  shows "one_account M V a x s w m \<Longrightarrow> \<forall>(k, v) \<in> set es. v \<noteq> [] \<Longrightarrow>
    \<exists>w' m'. set_each E a es w = Some w' \<and> one_account M V a x (fold (\<lambda>(k, v) s. s(k \<mapsto> v)) es s) w' m' \<and>
      ws_db w' = ws_db w \<and> (map_of (storage_trie_map w) a \<noteq> None \<or> es \<noteq> [] \<longrightarrow> map_of (storage_trie_map w') a \<noteq> None)"
proof (induction es arbitrary: w m s)
  case Nil
  then show ?case by auto
next
  case (Cons e es)
  obtain k v where e: "e = (k, v)" by (cases e)
  let ?S = "(\<lambda>_. Map.empty)(a := s)"
  note J = Cons.prems(1) [unfolded one_account_def]
  obtain T w1 m1 where o: "ws_storage_trie_mut E w a = Some (Inr T, w1)" "st_holds M T (?S a)"
    "map_of (storage_trie_map w1) a = Some T" "ws_rel M w1 m1 ?S" "ws_version w1 = V" "ws_db w1 = ws_db w"
    "\<And>b. user_account V m1 b = user_account V m b"
    using ws_storage_trie_mut_ok [OF C, of w m ?S a] J by blast
  obtain T' where T': "st_set E T k v = (Inr (), T')" "st_holds M T' (s(k \<mapsto> v))" "same_frame (st_trie T) (st_trie T')"
    using st_set_ok [OF C o(2), of k v] Cons.prems(2) by (auto simp: e put_content_def)
  let ?w = "ws_put_storage a T' w1"
  have only: "m1 (account_key V b f) = None" "map_of (storage_trie_map ?w) b = None" if "b \<noteq> a" for b f
    using storage_trie_mut_only [OF C _ o(4,1) that] J that by (auto simp: ws_put_storage_def)
  have "?S(a := s(k \<mapsto> v)) = (\<lambda>_. Map.empty)(a := s(k \<mapsto> v))" by simp
  then have "one_account M V a x (s(k \<mapsto> v)) ?w m1"
    using ws_put_storage_ok [OF o(4,3) T'(2,3)] o(5,7) J only by (simp add: one_account_def)
  from Cons.IH [OF this] show ?case
    using Cons.prems(2) o(1,6) T'(1) by (auto simp: e ws_put_storage_def)
qed

lemma fold_test_entries: "fold (\<lambda>(k, v) s. s(k \<mapsto> v)) test_entries Map.empty = map_of test_entries"
  by (simp add: test_entries_def fun_upd_twist)

lemma get_each_ok:
  "trie_contract E M \<Longrightarrow> st_holds M T s \<Longrightarrow> \<forall>(k, v) \<in> set es. s k = Some v \<Longrightarrow> get_each E T es = Some ()"
  by (induction es) (auto simp: st_get_ok)

section \<open>The test on one account passes\<close>

definition test_account :: account where
  "test_account = account_default\<lparr>account.balance := 12345\<rparr>"

lemma test_balance_ok:
  assumes C: "trie_contract E M"
  defines "w \<equiv> ws_new E V1 Map.empty"
  shows "\<exists>A m. at_set_balance E (accounts_trie w) test_address 12345 = (Inr (), A) \<and>
    one_account M V1 test_address test_account Map.empty (w\<lparr>accounts_trie := A\<rparr>) m"
proof -
  let ?a = test_address and ?S = "\<lambda>_. Map.empty :: bytes bytemap"
  have n: "ws_rel M w Map.empty ?S" "ws_version w = V1"
    using ws_new_ok [OF C] by (auto simp: w_def)
  have A0: "at_holds M (accounts_trie w) Map.empty" "at_version (accounts_trie w) = V1"
    using n by (simp_all add: ws_rel_def ws_version_def)
  let ?m = "put_content (account_key V1 ?a Balance) (u64_to_le 12345) Map.empty"
  obtain A where A: "at_set E (accounts_trie w) (account_key V1 ?a Balance) (u64_to_le 12345) = (Inr (), A)"
    "at_holds M A ?m" "same_frame (at_trie (accounts_trie w)) (at_trie A)"
    using at_set_ok [OF C A0(1), of "u64_to_le 12345" Balance ?a] A0(2) by (auto simp: field_ok_def)
  have "ws_rel M (w\<lparr>accounts_trie := A\<rparr>) ?m ?S"
    by (rule ws_rel_accounts [OF n(1) A(2,3)]) (simp add: put_content_def n(2))
  moreover have "user_account V1 ?m ?a = test_account"
    unfolding user_account_put test_account_def
    by (simp add: user_account_def account_default_def)
  moreover have "ws_version (w\<lparr>accounts_trie := A\<rparr>) = V1"
    using same_frame_version [OF A(3)] n(2) by (simp add: ws_version_def)
  moreover have "?S(?a := Map.empty) = ?S" by (rule ext) simp
  moreover have "storage_trie_map (w\<lparr>accounts_trie := A\<rparr>) = []" by (simp add: w_def ws_new_def)
  ultimately have "one_account M V1 ?a test_account Map.empty (w\<lparr>accounts_trie := A\<rparr>) ?m"
    by (simp add: one_account_def put_content_def)
  then show ?thesis using A(1) A0(2) unfolding at_set_balance_def by auto
qed

lemma one_account_upgrade:
  assumes C: "trie_contract E M" and J: "one_account M V1 a acct s w m"
    and opened: "map_of (storage_trie_map w) a \<noteq> None"
  shows "\<exists>w2 m2. ws_upgrade E w = Some (Inr w2) \<and> ws_db w2 = ws_db w \<and>
    one_account M V2 a acct s w2 m2 \<and> map_of (storage_trie_map w2) a \<noteq> None"
proof -
  note J' = J [unfolded one_account_def]
  obtain w2 m2 where w2: "ws_upgrade E w = Some (Inr w2)" "ws_version w2 = V2" "ws_db w2 = ws_db w"
    "ws_rel M w2 m2 ((\<lambda>_. Map.empty)(a := s))"
    "\<And>b. user_account V2 m2 b = user_account V1 m b" "upgraded_content m m2"
    "\<And>b. map_of (storage_trie_map w2) b \<noteq> None \<longleftrightarrow> m (account_key V1 b StorageHash) \<noteq> None"
    using ws_upgrade_ok [OF C, of w m] J' by metis
  have "m2 (account_key V2 b f) = None" if "b \<noteq> a" for b f
  proof -
    have "account_at V1 m b = account_default" using J' that by (simp add: account_at_def account_default_def)
    then show ?thesis using w2(6) by (cases f) (simp_all add: upgraded_content_def account_default_def)
  qed
  moreover have "map_of (storage_trie_map w2) b = None" if "b \<noteq> a" for b
    using w2(7) [of b] J' that by simp
  ultimately have "one_account M V2 a acct s w2 m2"
    using w2(2,4,5) J' by (simp add: one_account_def)
  moreover have "map_of (storage_trie_map w2) a \<noteq> None"
    using w2(7) [of a] J' opened by (auto simp: ws_rel_def)
  ultimately show ?thesis using w2(1,3) by blast
qed

lemma test_setup_ok:
  assumes C: "trie_contract E M"
  shows "\<exists>w m. test_setup E = Some w \<and> one_account M V2 test_address test_account (map_of test_entries) w m \<and>
    ws_db w = Map.empty \<and> map_of (storage_trie_map w) test_address \<noteq> None"
proof -
  let ?w = "ws_new E V1 Map.empty"
  obtain A m where A: "at_set_balance E (accounts_trie ?w) test_address 12345 = (Inr (), A)"
    "one_account M V1 test_address test_account Map.empty (?w\<lparr>accounts_trie := A\<rparr>) m"
    using test_balance_ok [OF C] by blast
  have db: "ws_db (?w\<lparr>accounts_trie := A\<rparr>) = Map.empty" by (simp add: ws_new_def)
  have "\<forall>(k, v) \<in> set test_entries. v \<noteq> []" "test_entries \<noteq> []" by (auto simp: test_entries_def)
  with set_each_ok [OF C A(2), of test_entries] obtain w2 m2 where w2:
    "set_each E test_address test_entries (?w\<lparr>accounts_trie := A\<rparr>) = Some w2"
    "one_account M V1 test_address test_account (map_of test_entries) w2 m2" "ws_db w2 = Map.empty"
    "map_of (storage_trie_map w2) test_address \<noteq> None"
    unfolding fold_test_entries db by blast
  obtain w3 m3 where w3: "ws_upgrade E w2 = Some (Inr w3)" "ws_db w3 = ws_db w2"
    "one_account M V2 test_address test_account (map_of test_entries) w3 m3"
    "map_of (storage_trie_map w3) test_address \<noteq> None"
    using one_account_upgrade [OF C w2(2,4)] by blast
  have "test_setup E = Some w3"
    using A(1) w2(1) w3(1) by (simp add: test_setup_def Let_def ws_account_trie_mut_def)
  then show ?thesis using w3 w2(3) by metis
qed

lemma single_account_listed:
  assumes C: "trie_contract E M" and A: "at_holds M A m" and known: "\<And>b. known_account (at_version A) m b \<longleftrightarrow> b = a"
  shows "\<exists>xs. at_all E A = Inr xs \<and> length xs = 1 \<and> map_of xs a = Some (account_at (at_version A) m a)"
proof -
  obtain xs where xs: "at_all E A = Inr xs" "distinct (map fst xs)" "map_of xs = accounts_of (at_version A) m"
    using at_all_ok [OF C A] by blast
  have "dom (map_of xs) = {a}"
    unfolding xs(3) by (auto simp: accounts_of_def known split: if_splits)
  then have "fst ` set xs = {a}" by (simp add: dom_map_of_conv_image_fst)
  then have "length xs = 1" using distinct_card [OF xs(2)] by simp
  then show ?thesis using xs known by (simp add: accounts_of_def)
qed

lemma test_account_fields:
  assumes "user_account V m a = test_account"
  shows "account.balance (account_at V m a) = 12345" "cbi_version (account_at V m a) = None"
    "code (account_at V m a) = []" "nonce (account_at V m a) = 0"
proof -
  have u: "(account_at V m a)\<lparr>storage_hash := []\<rparr> = test_account"
    using assms by (simp add: user_account_def)
  show "account.balance (account_at V m a) = 12345" "cbi_version (account_at V m a) = None"
    "code (account_at V m a) = []" "nonce (account_at V m a) = 0"
    using arg_cong [OF u, of account.balance] arg_cong [OF u, of cbi_version] arg_cong [OF u, of code]
      arg_cong [OF u, of nonce] by (simp_all add: test_account_def account_default_def)
qed

lemma test_checks_ok:
  assumes C: "trie_contract E M" and J: "one_account M V2 test_address test_account (map_of test_entries) w m"
    and w: "ws_db w = Map.empty" "map_of (storage_trie_map w) test_address \<noteq> None" and sep: "separate E M w"
  shows "test_checks E w = Some ()"
proof -
  let ?a = test_address
  note J' = J [unfolded one_account_def]
  have R: "ws_rel M w m ((\<lambda>_. Map.empty)(?a := map_of test_entries))" and V: "ws_version w = V2"
    using J' by simp_all
  obtain T where T: "map_of (storage_trie_map w) ?a = Some T" using w(2) by auto
  obtain ins del r w' m' where c: "ws_close E w = (Inr (ins, del, r), w')"
    "ws_rel M (ws_open V2 (apply_changes (ins, del) Map.empty) r) m' ((\<lambda>_. Map.empty)(?a := map_of test_entries))"
    "\<And>a. user_account V2 m' a = user_account V2 m a"
    "\<And>b. m' (account_key V2 b StorageHash) =
       (case map_of (storage_trie_map w) b of Some T \<Rightarrow> Some (b32_bytes (st_root_hash T))
          | None \<Rightarrow> m (account_key V2 b StorageHash))"
    "\<And>b f. f \<noteq> StorageHash \<Longrightarrow> m' (account_key V2 b f) = m (account_key V2 b f)"
    using ws_close_ok [OF C R sep] unfolding V w(1) by blast
  let ?w = "ws_open V2 (apply_changes (ins, del) Map.empty) r"
  have A: "at_holds M (accounts_trie ?w) m'" using c(2) by (simp only: ws_rel_def)
  have v: "at_version (accounts_trie ?w) = V2" using ws_open_version [of V2] by (simp only: ws_version_def)
  have "m' (account_key V2 b f) = None" if "b \<noteq> ?a" for b f
    using J' c(4) [of b] c(5) [of f b] that by (cases "f = StorageHash") simp_all
  moreover have h: "m' (account_key V2 ?a StorageHash) = Some (b32_bytes (st_root_hash T))"
    using c(4) [of ?a] T by simp
  ultimately have known: "known_account V2 m' b \<longleftrightarrow> b = ?a" for b
    unfolding known_account_def by (cases "b = ?a") auto
  then obtain xs where xs: "at_all E (accounts_trie ?w) = Inr xs" "length xs = 1"
    "map_of xs ?a = Some (account_at V2 m' ?a)"
    using single_account_listed [OF C A, of ?a] unfolding v by blast
  have "user_account V2 m' ?a = test_account" using c(3) J' by simp
  note fields = test_account_fields [OF this]
  have hash: "storage_hash (account_at V2 m' ?a) \<noteq> []"
    by (simp add: account_at_def h)
  obtain T' w2 where o: "ws_storage_trie_mut E ?w ?a = Some (Inr T', w2)" "st_holds M T' (map_of test_entries)"
    using ws_storage_trie_mut_ok [OF C c(2), of ?a] by auto
  have "\<forall>(k, v) \<in> set test_entries. map_of test_entries k = Some v"
    by (simp add: test_entries_def)
  from get_each_ok [OF C o(2) this] show ?thesis
    using c(1) xs fields hash o(1) w(1)
    by (simp add: test_checks_def Let_def ws_account_trie_def ws_storage_trie_eq del: ws_open_fields)
qed

section \<open>The test on many accounts passes\<close>

text \<open>The calls that store an account always succeed and keep the version.\<close>

definition stores :: "world_call \<Rightarrow> bool" where
  "stores c \<longleftrightarrow> (\<exists>a x. c = SetNonce a x) \<or> (\<exists>a x. c = SetBalance a x) \<or> (\<exists>a x. c = SetCode a x) \<or>
     (\<exists>a x. c = SetCbiVersion a x) \<or>
     (\<exists>a kvs. c = BatchSetStorage a kvs \<and> a \<noteq> network_address \<and> distinct (map fst kvs))"

lemma empty_chain_version: "chain_version (empty_chain V) = V"
  by (simp add: empty_chain_def)

lemma stores_run:
  "list_all stores cs \<Longrightarrow> chain_version X = V \<Longrightarrow>
     \<exists>rs X'. chain_spec_run n M cs X = Some (rs, X') \<and> chain_version X' = V"
proof (induction cs arbitrary: X)
  case (Cons c cs)
  obtain X1 where "chain_spec n M c X = Some (Unit, X1)" "chain_version X1 = V"
    using Cons.prems by (auto simp: stores_def put_account_def spec_edit_storage_def)
  then show ?case using Cons.IH [of X1] Cons.prems(1) by auto
qed simp

lemma chain_spec_run_append:
  "chain_spec_run n M cs X = Some (rs, X1) \<Longrightarrow> chain_spec_run n M cs' X1 = Some (rs', X2) \<Longrightarrow>
     chain_spec_run n M (cs @ cs') X = Some (rs @ rs', X2)"
  by (induction cs arbitrary: X rs) (auto simp: bind_eq_Some_conv)

definition generated_ok :: "(b32 \<times> account_instance) list \<Rightarrow> bool" where
  "generated_ok es \<longleftrightarrow> (\<forall>(a, x) \<in> set es. a \<noteq> network_address \<and> ai_cbi_version x \<noteq> None \<and>
     distinct (map fst (ai_storages x)))"

lemma store_accounts_ok:
  "generated_ok es \<Longrightarrow> \<exists>css. those (map store_account es) = Some css \<and> list_all stores (concat css)"
proof (induction es)
  case (Cons e es)
  then obtain css where css: "those (map store_account es) = Some css" "list_all stores (concat css)"
    by (auto simp: generated_ok_def)
  obtain c where "store_account e = Some c" "list_all stores c"
    using Cons.prems by (cases e) (auto simp: generated_ok_def store_account_def stores_def)
  then show ?case using css by simp
qed simp

lemma upgrade_calls_ok:
  assumes "visit_order (hash_order E)" "generated_ok es"
  shows "\<exists>cs. upgrade_calls E es = Some (cs @ [Commit, Upgrade, Commit]) \<and> list_all stores cs"
proof -
  have "generated_ok (visit (hash_order E) es)"
    using assms(2) by (simp only: generated_ok_def visit_props(1) [OF assms(1)])
  from store_accounts_ok [OF this] show ?thesis by (auto simp: upgrade_calls_def)
qed

lemma upgrade_calls_run:
  assumes "visit_order (hash_order E)" "generated_ok es"
  shows "\<exists>cs rs X. upgrade_calls E es = Some cs \<and> chain_spec_run n M cs (empty_chain V1) = Some (rs, X)"
proof -
  obtain cs where cs: "upgrade_calls E es = Some (cs @ [Commit, Upgrade, Commit])" "list_all stores cs"
    using upgrade_calls_ok [OF assms] by blast
  obtain rs X1 where run: "chain_spec_run n M cs (empty_chain V1) = Some (rs, X1)" "chain_version X1 = V1"
    using stores_run [OF cs(2), of "empty_chain V1" V1 n M] empty_chain_version by blast
  have "chain_spec_run n M (cs @ [Commit, Upgrade, Commit]) (empty_chain V1) =
      Some (rs @ [Unit, Unit, Unit], X1\<lparr>chain_version := V2\<rparr>)"
    by (rule chain_spec_run_append [OF run(1)]) (simp add: run(2))
  then show ?thesis using cs(1) by blast
qed

lemma open_each_ok:
  assumes C: "trie_contract E M"
  shows "world_rep M K V d S U w \<sigma> \<Longrightarrow> open_each E as w = Some ()"
proof (induction as arbitrary: w)
  case (Cons a as)
  obtain T w' where "ws_storage_trie_mut E w a = Some (Inr T, w')" "world_rep M K V d S U w' \<sigma>"
    using world_rep_open [OF C Cons.prems, of a] by blast
  then show ?case using Cons.IH [of w'] by (simp add: ws_storage_trie_eq)
qed simp

lemma integration_upgrade_ok:
  assumes C: "merkle_trie E Md" and B: "borsh_codec B" and g: "generated_ok es"
    and s: "\<And>cs. upgrade_calls E es = Some cs \<Longrightarrow> commits_separate E B Md n M False cs (ws_new E V1 Map.empty)"
  shows "integration_upgrade E B n M es = Some ()"
proof -
  obtain cs rs X2 where cs: "upgrade_calls E es = Some cs" "chain_spec_run n M cs (empty_chain V1) = Some (rs, X2)"
    using upgrade_calls_run [OF trie_visit [OF merkle_contract [OF C]] g] by blast
  have "holds_chain Md B False n M (empty_chain V1) (ws_new E V1 Map.empty)"
    using new_world_holds [OF merkle_contract [OF C], where V = V1] by simp
  from world_run_refines [OF C B this cs(2) s [OF cs(1)]] obtain K w where
    w: "world_steps E B n M cs (ws_new E V1 Map.empty) = Some (rs, w)" "holds_chain Md B K n M X2 w"
    by blast
  obtain \<sigma> where R: "world_rep Md K (chain_version X2) (ws_db w) (storages X2) (accounts X2) w \<sigma>"
    using w(2) by (rule holds_chainE)
  obtain xs where "at_all E (ws_account_trie w) = Inr xs"
    using world_rep_all [OF merkle_contract [OF C] R] by blast
  then show ?thesis
    using cs(1) w(1) open_each_ok [OF merkle_contract [OF C] R] by (simp add: integration_upgrade_def)
qed

lemma set_hm_insert: "e \<in> set (hm_insert k v xs) \<Longrightarrow> e = (k, v) \<or> e \<in> set xs"
  by (induction xs) (auto split: if_splits)

lemma fold_hm_insert_all:
  "\<forall>e \<in> set xs. P e \<Longrightarrow> (\<And>i. P (f i, g i)) \<Longrightarrow> \<forall>e \<in> set (fold (\<lambda>i. hm_insert (f i) (g i)) is xs). P e"
proof (induction "is" arbitrary: xs)
  case (Cons i "is")
  have "\<forall>e \<in> set (hm_insert (f i) (g i) xs). P e"
  proof
    fix e assume "e \<in> set (hm_insert (f i) (g i) xs)"
    then show "P e" using set_hm_insert [of e "f i" "g i" xs] Cons.prems by metis
  qed
  from Cons.IH [OF this] show ?case using Cons.prems(2) by simp
qed simp

lemma distinct_fold_hm_insert:
  "distinct (map fst xs) \<Longrightarrow> distinct (map fst (fold (\<lambda>i. hm_insert (f i) v) is xs))"
  by (induction "is" arbitrary: xs) simp_all

lemma generated_accounts_ok:
  assumes "\<And>i. address i \<noteq> network_address" "spec_address \<noteq> network_address"
  shows "generated_ok (generate_accounts E address spec_address)"
proof -
  let ?P = "\<lambda>(a, x). a \<noteq> network_address \<and> ai_cbi_version x \<noteq> None \<and> distinct (map fst (ai_storages x))"
  have storages: "distinct (map fst (generate_storages E a))" for a
    unfolding generate_storages_def by (rule distinct_fold_hm_insert) (simp only: list.map distinct.simps simp_thms)
  let ?f = "\<lambda>i. hm_insert (address i)
     \<lparr>ai_nonce = of_nat i, ai_balance = of_nat (i * 1000), ai_code = b32_bytes (address i),
      ai_cbi_version = Some 1, ai_storage_hash = [], ai_storages = generate_storages E (address i)\<rparr>"
  have "\<forall>e \<in> set (fold ?f [1..<100] []). ?P e"
    by (rule fold_hm_insert_all) (use assms(1) storages in simp_all)
  then have "\<forall>e \<in> set (generate_accounts E address spec_address). ?P e"
    using assms(2)
    by (auto simp only: generate_accounts_def Let_def generate_spec_account_def fst_conv snd_conv
        account_instance.simps dest!: set_hm_insert) simp_all
  then show ?thesis by (simp add: generated_ok_def)
qed

section \<open>Over the concrete library\<close>

lemma flat_set_each:
  "set_each flat_lib a es w = Some w' \<Longrightarrow> flat_ws w \<Longrightarrow> flat_ws w'"
proof (induction es arbitrary: w)
  case (Cons e es)
  obtain k v where e: "e = (k, v)" by (cases e)
  obtain x w1 where o: "ws_storage_trie_mut flat_lib w a = Some (x, w1)"
    using Cons.prems(1) by (auto simp: e bind_eq_Some_conv)
  then obtain T where x: "x = Inr T"
    using Cons.prems(1) by (cases x) (simp_all add: e unwrap_def)
  obtain r T' where T': "st_set flat_lib T k v = (r, T')" by fastforce
  have "flat_ws (ws_put_storage a T' w1)"
    using flat_storage_trie_mut [OF o [unfolded x] Cons.prems(2)] flat_edits_storage(1) [of T k v] T'
    by (simp add: flat_ws_put)
  then show ?case
    using Cons.IH [of "ws_put_storage a T' w1"] Cons.prems(1) o x T' by (auto simp: e bind_eq_Some_conv)
qed simp

lemma flat_test_setup:
  assumes "test_setup flat_lib = Some w"
  shows "flat_ws w"
proof -
  let ?w = "ws_new flat_lib V1 Map.empty"
  obtain r w1 where w1: "ws_account_trie_mut (\<lambda>A. at_set_balance flat_lib A test_address 12345) ?w = (r, w1)"
    by fastforce
  obtain A where A: "at_set_balance flat_lib (accounts_trie ?w) test_address 12345 = (r, A)"
    "w1 = ?w\<lparr>accounts_trie := A\<rparr>"
    using w1 by (auto simp: ws_account_trie_mut_def split: prod.splits)
  have "flat_db (db (at_trie (accounts_trie ?w)))"
    using flat_ws_new [of flat_lib V1 Map.empty] unfolding flat_ws_def by blast
  from flat_edits_accounts(3) [OF this, of test_address 12345] have "flat_db (db (at_trie A))"
    by (simp only: A(1) snd_conv)
  then have "flat_ws w1" unfolding A(2) by (rule flat_ws_accounts [OF flat_ws_new])
  moreover obtain w2 where w2: "set_each flat_lib test_address test_entries w1 = Some w2"
    "ws_upgrade flat_lib w2 = Some (Inr w)"
    using assms w1 by (auto simp: test_setup_def bind_eq_Some_conv unwrap_Some_iff)
  ultimately show ?thesis using flat_set_each flat_ws_upgrade by blast
qed

section \<open>Properties\<close>

text \<open>
  C33: The integration tests pass, for all addresses that are not the network address, every trie
  library whose hash tells subtries apart and every codec: after the upgrade the only account of the one test is
  listed with its fields and the four entries of its storage, and in the other test the storage of
  every listed account can be opened.  The tries have to be separate where the tests close the world
  state just upgraded.
\<close>

theorem integration_tests_pass:
  assumes C: "merkle_trie E Md" and B: "borsh_codec B"
    and a: "\<forall>i. address i \<noteq> network_address" "spec_address \<noteq> network_address"
    and s1: "\<forall>w. test_setup E = Some w \<longrightarrow> separate E Md w"
    and s2: "\<forall>cs. upgrade_calls E (generate_accounts E address spec_address) = Some cs \<longrightarrow>
      commits_separate E B Md n M False cs (ws_new E V1 Map.empty)"
  shows "test_upgrade_v1_to_v2 E = Some () \<and>
    integration_upgrade E B n M (generate_accounts E address spec_address) = Some ()"
proof
  obtain w m where "test_setup E = Some w" "one_account Md V2 test_address test_account (map_of test_entries) w m"
    "ws_db w = Map.empty" "map_of (storage_trie_map w) test_address \<noteq> None"
    using test_setup_ok [OF merkle_contract [OF C]] by blast
  then show "test_upgrade_v1_to_v2 E = Some ()"
    using test_checks_ok [OF merkle_contract [OF C]] s1 by (simp add: test_upgrade_v1_to_v2_def)
  show "integration_upgrade E B n M (generate_accounts E address spec_address) = Some ()"
    by (rule integration_upgrade_ok [OF C B generated_accounts_ok]) (use a s2 in auto)
qed

theorem integration_tests_pass_witness:
  "test_upgrade_v1_to_v2 flat_lib = Some () \<and>
   integration_upgrade flat_lib borsh_std 1 2
     (generate_accounts flat_lib (\<lambda>i. if even i then b32_fill 5 else b32_fill 6) (b32_fill 7)) = Some ()"
proof (rule integration_tests_pass [OF flat_merkle std.borsh_codec_axioms])
  let ?es = "generate_accounts flat_lib (\<lambda>i. if even i then b32_fill 5 else b32_fill 6) (b32_fill 7)"
  have n: "b32_fill 5 \<noteq> network_address" "b32_fill 6 \<noteq> network_address" "b32_fill 7 \<noteq> network_address"
    by (simp_all add: network_address_def)
  then show a: "\<forall>i. (if even i then b32_fill 5 else b32_fill 6) \<noteq> network_address" "b32_fill 7 \<noteq> network_address"
    by simp_all
  obtain w m where w: "test_setup flat_lib = Some w"
    "one_account flat_model V2 test_address test_account (map_of test_entries) w m"
    using test_setup_ok [OF flat_contract] by blast
  then have "separate flat_lib flat_model w"
    using flat_separate [OF _ flat_test_setup [OF w(1)]] by (auto simp: one_account_def)
  then show "\<forall>w. test_setup flat_lib = Some w \<longrightarrow> separate flat_lib flat_model w" using w(1) by simp
  have "generated_ok ?es" by (rule generated_accounts_ok) (use n in simp_all)
  from upgrade_calls_run [OF trie_visit [OF flat_contract] this] obtain cs rs X where
    cs: "upgrade_calls flat_lib ?es = Some cs" "chain_spec_run 1 2 cs (empty_chain V1) = Some (rs, X)"
    by blast
  have "holds_chain flat_model borsh_std False 1 2 (empty_chain V1) (ws_new flat_lib V1 Map.empty)"
    using new_world_holds [OF flat_contract, where V = V1] by simp
  from flat_commits [OF std.borsh_codec_axioms this flat_ws_new cs(2)] cs(1)
  show "\<forall>cs. upgrade_calls flat_lib ?es = Some cs \<longrightarrow>
      commits_separate flat_lib borsh_std flat_model 1 2 False cs (ws_new flat_lib V1 Map.empty)"
    by simp
qed

end
