(* ===== verification/Network_Tests.thy ===== *)
theory Network_Tests
  imports Network_World Test_Logic
begin

text \<open>
  The unit tests of the network account (\<open>test_network_account\<close> and
  \<open>test_network_account_validator_set\<close> of \<open>tests/tests.rs\<close>), translated over any store and
  shown to pass on every lawful one that is empty, so on the new world states they run on.
\<close>

section \<open>The tests\<close>

text \<open>
  The \<open>push\<close> on the stakes of a pool is that of the index map behind the heap.  Each test ends
  with the store it leaves.
\<close>

definition check_new_network :: "'s nas \<Rightarrow> 's \<Rightarrow> (unit \<times> 's) option" where
  "check_new_network N s = do {
     (e, s) \<leftarrow> na_current_epoch N s;
     _ \<leftarrow> assert (e = 0);
     (n, s) \<leftarrow> vp_length N (na_pvp max_validator_set_size) s;
     _ \<leftarrow> assert (n = 0);
     (n, s) \<leftarrow> vp_length N (na_vp max_validator_set_size) s;
     _ \<leftarrow> assert (n = 0);
     (n, s) \<leftarrow> im_length N (na_nvp max_validator_set_size) s;
     _ \<leftarrow> assert (n = 0);
     (_, s) \<leftarrow> na_set_current_epoch N 1 s;
     (e, s) \<leftarrow> na_current_epoch N s;
     _ \<leftarrow> assert (e = 1);
     Some ((), s)
   }"

definition check_pool_fields :: "'s nas \<Rightarrow> 's \<Rightarrow> (unit \<times> 's) option" where
  "check_pool_fields N s = do {
     let pool = na_pools (b32_fill 1);
     (n, s) \<leftarrow> pd_power N pool s;
     _ \<leftarrow> assert (n = None);
     (_, s) \<leftarrow> pd_set_power N pool 123 s;
     (n, s) \<leftarrow> pd_power N pool s;
     n \<leftarrow> n;
     _ \<leftarrow> assert (n = 123);
     let pool = na_pools (b32_fill 1);
     (_, s) \<leftarrow> pd_set_commission_rate N pool 1 s;
     (_, s) \<leftarrow> pd_set_operator N pool (b32_fill 1) s;
     (a, s) \<leftarrow> pd_operator N pool s;
     a \<leftarrow> a;
     _ \<leftarrow> assert (a = b32_fill 1);
     (n, s) \<leftarrow> pd_power N pool s;
     n \<leftarrow> n;
     _ \<leftarrow> assert (n = 123);
     (r, s) \<leftarrow> pd_commission_rate N pool s;
     r \<leftarrow> r;
     _ \<leftarrow> assert (r = 1);
     (n, s) \<leftarrow> im_length N (pd_delegated_stakes max_stakes_per_pool pool) s;
     _ \<leftarrow> assert (n = 0);
     Some ((), s)
   }"

definition check_stakes :: "'s nas \<Rightarrow> borsh_lib \<Rightarrow> 's \<Rightarrow> (unit \<times> 's) option" where
  "check_stakes N B s = do {
     let stakes = pd_delegated_stakes max_stakes_per_pool (na_pools (b32_fill 1));
     (n, s) \<leftarrow> im_length N stakes s;
     _ \<leftarrow> assert (n = 0);
     (r, s) \<leftarrow> im_push N (stake_value_ops B) stakes (stake_value_new (Stake (b32_fill 2) 10)) s;
     _ \<leftarrow> unwrap r;
     (n, s) \<leftarrow> im_length N stakes s;
     _ \<leftarrow> assert (n = 1);
     let stakes = pd_delegated_stakes max_stakes_per_pool (na_pools (b32_fill 1));
     (n, s) \<leftarrow> im_length N stakes s;
     _ \<leftarrow> assert (n = 1);
     (stake, s) \<leftarrow> im_get_by N (stake_value_ops B) stakes (b32_bytes (b32_fill 2)) s;
     stake \<leftarrow> stake;
     _ \<leftarrow> assert (owner (inner_stake stake) = b32_fill 2);
     _ \<leftarrow> assert (stake_power (inner_stake stake) = 10);
     Some ((), s)
   }"

definition check_deposit :: "'s nas \<Rightarrow> 's \<Rightarrow> (unit \<times> 's) option" where
  "check_deposit N s = do {
     let deposit = na_deposits (b32_fill 1) (b32_fill 2);
     (n, s) \<leftarrow> dd_balance N deposit s;
     _ \<leftarrow> assert (n = None);
     (b, s) \<leftarrow> dd_auto_stake_rewards N deposit s;
     _ \<leftarrow> assert (b = None);
     (_, s) \<leftarrow> dd_set_balance N deposit 987 s;
     (_, s) \<leftarrow> dd_set_auto_stake_rewards N deposit True s;
     (n, s) \<leftarrow> dd_balance N deposit s;
     n \<leftarrow> n;
     _ \<leftarrow> assert (n = 987);
     (b, s) \<leftarrow> dd_auto_stake_rewards N deposit s;
     b \<leftarrow> b;
     _ \<leftarrow> assert b;
     Some ((), s)
   }"

definition test_network_account :: "'s nas \<Rightarrow> borsh_lib \<Rightarrow> 's \<Rightarrow> (unit \<times> 's) option" where
  "test_network_account N B s = do {
     (_, s) \<leftarrow> check_new_network N s;
     (_, s) \<leftarrow> check_pool_fields N s;
     (_, s) \<leftarrow> check_stakes N B s;
     check_deposit N s
   }"

text \<open>The pools of the second test.\<close>

definition pool_1 :: pool where
  "pool_1 = \<lparr>operator = b32_fill 1, commission_rate = 5, power = 600,
     operator_stake = Some (Stake (b32_fill 1) 600)\<rparr>"

definition pool_2 :: pool where
  "pool_2 = \<lparr>operator = b32_fill 5, commission_rate = 2, power = 60,
     operator_stake = Some (Stake (b32_fill 1) 60)\<rparr>"

definition check_validators :: "'s nas \<Rightarrow> borsh_lib \<Rightarrow> 's \<Rightarrow> (unit \<times> 's) option" where
  "check_validators N B s = do {
     let vp = na_vp max_validator_set_size;
     let pvp = na_pvp max_validator_set_size;
     (r, s) \<leftarrow> vp_push N B max_stakes_per_pool vp pool_1 [] s;
     _ \<leftarrow> unwrap r;
     (r, s) \<leftarrow> vp_push N B max_stakes_per_pool vp pool_2 [] s;
     _ \<leftarrow> unwrap r;
     (n, s) \<leftarrow> vp_length N vp s;
     _ \<leftarrow> assert (n = 2);
     (n, s) \<leftarrow> vp_length N pvp s;
     _ \<leftarrow> assert (n = 0);
     (r, s) \<leftarrow> vp_push N B max_stakes_per_pool pvp pool_1 [] s;
     _ \<leftarrow> unwrap r;
     (n, s) \<leftarrow> vp_length N vp s;
     _ \<leftarrow> assert (n = 2);
     (n, s) \<leftarrow> vp_length N pvp s;
     _ \<leftarrow> assert (n = 1);
     Some ((), s)
   }"

definition check_next_validators :: "'s nas \<Rightarrow> borsh_lib \<Rightarrow> 's \<Rightarrow> (unit \<times> 's) option" where
  "check_next_validators N B s = do {
     let nvp = na_nvp max_validator_set_size;
     (r, s) \<leftarrow> ih_insert N (pool_key_ops B) nvp (pool_key_new (operator pool_2) (power pool_2)) s;
     _ \<leftarrow> unwrap r;
     (r, s) \<leftarrow> ih_insert N (pool_key_ops B) nvp (pool_key_new (operator pool_1) (power pool_1)) s;
     _ \<leftarrow> unwrap r;
     (n, s) \<leftarrow> im_length N nvp s;
     _ \<leftarrow> assert (n = 2);
     (top, s) \<leftarrow> ih_extract N (pool_key_ops B) nvp s;
     top \<leftarrow> top;
     (n, s) \<leftarrow> im_length N nvp s;
     _ \<leftarrow> assert (n = 1);
     _ \<leftarrow> assert (operator_of top = operator pool_2);
     _ \<leftarrow> assert (power_of top = power pool_2);
     Some ((), s)
   }"

definition test_network_account_validator_set :: "'s nas \<Rightarrow> borsh_lib \<Rightarrow> 's \<Rightarrow> (unit \<times> 's) option" where
  "test_network_account_validator_set N B s = do {
     (_, s) \<leftarrow> check_validators N B s;
     check_next_validators N B s
   }"

section \<open>They pass\<close>

context pool_store
begin

lemma sim_check_account [sim_intros]:
  "sim rep (check_new_network N) (check_new_network kv_store)"
  "sim rep (check_pool_fields N) (check_pool_fields kv_store)"
  "sim rep (check_stakes N B) (check_stakes kv_store B)"
  "sim rep (check_deposit N) (check_deposit kv_store)"
  unfolding check_new_network_def check_pool_fields_def check_stakes_def check_deposit_def Let_def
  by (intro sim_intros)+

lemma sim_check_validators [sim_intros]:
  "sim rep (check_validators N B) (check_validators kv_store B)"
  "sim rep (check_next_validators N B) (check_next_validators kv_store B)"
  unfolding check_validators_def check_next_validators_def Let_def
  by (intro sim_intros)+

lemma sim_tests:
  "sim rep (test_network_account N B) (test_network_account kv_store B)"
  "sim rep (test_network_account_validator_set N B) (test_network_account_validator_set kv_store B)"
  unfolding test_network_account_def test_network_account_validator_set_def by (intro sim_intros)+

end

lemma check_new_network_kv:
  "check_new_network kv_store Map.empty = Some ((), [current_epoch_key \<mapsto> u64_to_le 1])"
  by (simp add: check_new_network_def na_current_epoch_def na_set_current_epoch_def vp_length_def im_length_def)

text \<open>The store after the fields of the pool are written, and after the stake is pushed.\<close>

abbreviation fields_store :: "bytes bytemap" where
  "fields_store \<equiv> [current_epoch_key \<mapsto> u64_to_le 1, pd_power_key (na_pools (b32_fill 1)) \<mapsto> u64_to_le 123,
     pd_commission_rate_key (na_pools (b32_fill 1)) \<mapsto> u8_to_le 1,
     pd_operator_key (na_pools (b32_fill 1)) \<mapsto> b32_bytes (b32_fill 1)]"

lemmas pool_keys_simps = pd_power_key_def pd_commission_rate_key_def pd_operator_key_def na_pools_def
  pd_delegated_stakes_def ih_new_def im_new_def im_keys_def key_len_def key_ki_def key_iv_def prefix_len_def
  network_account_data

lemma check_pool_fields_kv:
  "check_pool_fields kv_store [current_epoch_key \<mapsto> u64_to_le 1] = Some ((), fields_store)"
  by (simp add: check_pool_fields_def Let_def pd_power_def pd_set_power_def pd_commission_rate_def
    pd_set_commission_rate_def pd_operator_def pd_set_operator_def im_length_def pool_keys_simps del: b32_bytes_fill)

lemma no_stakes: "im_ok P (pd_delegated_stakes max_stakes_per_pool (na_pools (b32_fill 1))) [] fields_store"
  by (auto simp: im_ok_def im_rep_def pool_keys_simps prefix_key_index_def prefix_index_value_def
      max_stakes_per_pool_def)

lemma check_deposit_kv:
  assumes "s (dd_balance_key (na_deposits (b32_fill 1) (b32_fill 2))) = None"
    "s (dd_auto_stake_rewards_key (na_deposits (b32_fill 1) (b32_fill 2))) = None"
  shows "\<exists>s'. check_deposit kv_store s = Some ((), s')"
  using assms by (simp add: check_deposit_def Let_def dd_balance_def dd_set_balance_def dd_auto_stake_rewards_def
    dd_set_auto_stake_rewards_def dd_balance_key_def dd_auto_stake_rewards_key_def)

context borsh_codec
begin

lemma check_stakes_kv:
  "\<exists>s. check_stakes kv_store B fields_store = Some ((), s) \<and>
     same_but (domain (pd_delegated_stakes max_stakes_per_pool (na_pools (b32_fill 1)))) fields_store s"
proof -
  let ?m = "pd_delegated_stakes max_stakes_per_pool (na_pools (b32_fill 1))"
  let ?v = "StakeValue (Stake (b32_fill 2) 10)"
  have c: "0 < unat (capacity ?m)"
    by (simp add: pd_delegated_stakes_def ih_new_def im_new_def max_stakes_per_pool_def)
  obtain s where s: "im_push kv_store (stake_value_ops B) ?m ?v fields_store = Some (Inr (), s)"
    "im_ok (stake_value_ops B) ?m [?v] s" "same_but (domain ?m) fields_store s"
    using stake_value.kv_push [OF no_stakes, of ?v] c by auto
  have "im_length kv_store ?m fields_store = Some (0, fields_store)" "im_length kv_store ?m s = Some (1, s)"
    "im_get_by kv_store (stake_value_ops B) ?m (b32_bytes (b32_fill 2)) s = Some (Some ?v, s)"
    using kv_length [OF im_okD(1) [OF no_stakes]] kv_length [OF im_okD(1) [OF s(2)]]
      stake_value.kv_get_by [OF s(2), of "b32_bytes (b32_fill 2)"]
    by simp_all
  then show ?thesis
    using s(1,3) by (simp add: check_stakes_def Let_def stake_value_new_def del: b32_bytes_fill)
qed

lemma test_network_account_kv: "\<exists>s. test_network_account kv_store B Map.empty = Some ((), s)"
proof -
  obtain s where s: "check_stakes kv_store B fields_store = Some ((), s)"
    "same_but (domain (pd_delegated_stakes max_stakes_per_pool (na_pools (b32_fill 1)))) fields_store s"
    using check_stakes_kv by blast
  let ?d = "na_deposits (b32_fill 1) (b32_fill 2)"
  have "s (4 # y) = None" for y
  proof -
    have "4 # y \<notin> im_keys (domain (pd_delegated_stakes max_stakes_per_pool (na_pools (b32_fill 1))))"
      by (auto simp: pool_keys_simps)
    then have "s (4 # y) = fields_store (4 # y)" using s(2) unfolding same_but_def by blast
    then show ?thesis by (simp add: pool_keys_simps)
  qed
  then have "s (dd_balance_key ?d) = None" "s (dd_auto_stake_rewards_key ?d) = None"
    by (auto simp: dd_balance_key_def dd_auto_stake_rewards_key_def na_deposits_def deposits_prefix_def)
  then show ?thesis
    using check_deposit_kv s(1) by (auto simp: test_network_account_def check_new_network_kv check_pool_fields_kv)
qed

end

lemma kv_represents_lengths:
  assumes A: "represents (=) B n M A s"
  shows "vp_length kv_store (na_pvp n) s = Some (of_nat (length (n_pvp A)), s)"
    "vp_length kv_store (na_vp n) s = Some (of_nat (length (n_vp A)), s)"
    "im_length kv_store (na_nvp n) s = Some (of_nat (size (n_nvp A)), s)"
proof -
  have r: "region_ok B n M A s x" for x
    using A by (simp add: represents_def network_ok_def)
  show "vp_length kv_store (na_pvp n) s = Some (of_nat (length (n_pvp A)), s)"
    "vp_length kv_store (na_vp n) s = Some (of_nat (length (n_vp A)), s)"
    using r [of PrevValidators] r [of Validators] kv_live_length [OF vp_okD(1)]
    by (auto simp: vp_length_def)
  obtain xs where xs: "ih_ok (pool_key_ops B) id (na_nvp n) xs s" "mset xs = n_nvp A"
    using r [of NextValidators] by auto
  have "length xs = size (n_nvp A)" using xs(2) by (metis size_mset)
  then show "im_length kv_store (na_nvp n) s = Some (of_nat (size (n_nvp A)), s)"
    using kv_length [OF ih_okD(2) [OF xs(1)]] by simp
qed

lemma pools_differ [simp]:
  "operator pool_1 \<noteq> operator pool_2" "operator pool_2 \<noteq> operator pool_1" "power pool_1 = 600" "power pool_2 = 60"
  by (simp_all add: pool_1_def pool_2_def)

lemma set_size [simp]: "unat max_validator_set_size = 64"
  by (simp add: max_validator_set_size_def)

lemma check_validators_kv:
  assumes "borsh_codec B"
  shows "\<exists>s. check_validators kv_store B Map.empty = Some ((), s) \<and>
     represents (=) B max_validator_set_size max_stakes_per_pool
       (empty_network\<lparr>n_vp := [(pool_1, []), (pool_2, [])], n_pvp := [(pool_1, [])]\<rparr>) s"
proof -
  let ?n = max_validator_set_size and ?M = max_stakes_per_pool
  let ?rep = "represents (=) B ?n ?M"
  have P: "pool_store kv_store (=) B" by (intro pool_store.intro kv.network_account_storage_axioms assms)
  obtain s1 where 1: "vp_push kv_store B ?M (na_vp ?n) pool_1 [] Map.empty = Some (Inr (), s1)"
    "?rep (empty_network\<lparr>n_vp := [(pool_1, [])]\<rparr>) s1"
    using validators_push(1) [OF P represents_empty, of "[]" pool_1 ?n ?M] by (auto simp: empty_network_def)
  obtain s2 where 2: "vp_push kv_store B ?M (na_vp ?n) pool_2 [] s1 = Some (Inr (), s2)"
    "?rep (empty_network\<lparr>n_vp := [(pool_1, []), (pool_2, [])]\<rparr>) s2"
    using validators_push(1) [OF P 1(2), of "[]" pool_2] by auto
  obtain s3 where 3: "vp_push kv_store B ?M (na_pvp ?n) pool_1 [] s2 = Some (Inr (), s3)"
    "?rep (empty_network\<lparr>n_vp := [(pool_1, []), (pool_2, [])], n_pvp := [(pool_1, [])]\<rparr>) s3"
    using validators_push(2) [OF P 2(2), of "[]" pool_1] by (auto simp: empty_network_def)
  show ?thesis
    using 1(1) 2(1) 3 kv_represents_lengths [OF 2(2)] kv_represents_lengths [OF 3(2)]
    by (auto simp: check_validators_def Let_def empty_network_def)
qed

lemma check_next_validators_kv:
  assumes "borsh_codec B" and A: "represents (=) B max_validator_set_size M A s" "n_nvp A = {#}"
  shows "\<exists>s'. check_next_validators kv_store B s = Some ((), s')"
proof -
  let ?n = max_validator_set_size and ?k = "\<lambda>p. PoolKey (operator p) (power p)"
  let ?rep = "represents (=) B ?n M"
  have P: "pool_store kv_store (=) B" by (intro pool_store.intro kv.network_account_storage_axioms assms(1))
  obtain s1 where 1: "ih_insert kv_store (pool_key_ops B) (na_nvp ?n) (?k pool_2) s = Some (Inr (), s1)"
    "?rep (A\<lparr>n_nvp := {#?k pool_2#}\<rparr>) s1"
    using pool_store.nvp_insert [OF P A(1), of "?k pool_2"] A(2) by auto
  obtain s2 where 2: "ih_insert kv_store (pool_key_ops B) (na_nvp ?n) (?k pool_1) s1 = Some (Inr (), s2)"
    "?rep (A\<lparr>n_nvp := {#?k pool_1, ?k pool_2#}\<rparr>) s2"
    using pool_store.nvp_insert [OF P 1(2), of "?k pool_1"] by auto
  have "?k pool_2 < ?k pool_1" by (simp add: less_pool_key_def)
  then obtain s3 where 3: "ih_extract kv_store (pool_key_ops B) (na_nvp ?n) s2 = Some (Some (?k pool_2), s3)"
    "?rep (A\<lparr>n_nvp := {#?k pool_1#}\<rparr>) s3"
    using pool_store.nvp_extract [OF P 2(2)] by auto
  show ?thesis
    using 1(1) 2(1) 3(1) kv_represents_lengths(3) [OF 2(2)] kv_represents_lengths(3) [OF 3(2)]
    by (simp add: check_next_validators_def Let_def pool_key_new_def)
qed

lemma test_validator_set_kv:
  "borsh_codec B \<Longrightarrow> \<exists>s. test_network_account_validator_set kv_store B Map.empty = Some ((), s)"
  using check_validators_kv check_next_validators_kv
  by (fastforce simp: test_network_account_validator_set_def empty_network_def)

lemma network_tests_pass_on_store:
  assumes P: "pool_store N rep B" and s: "rep s Map.empty"
  shows "\<exists>s'. test_network_account N B s = Some ((), s')"
    and "\<exists>s'. test_network_account_validator_set N B s = Some ((), s')"
  using simD [OF pool_store.sim_tests(1) [OF P] s] simD [OF pool_store.sim_tests(2) [OF P] s]
    borsh_codec.test_network_account_kv [OF pool_storeD(2) [OF P]] test_validator_set_kv [OF pool_storeD(2) [OF P]]
  by blast+

lemma network_tests_ok:
  assumes C: "trie_contract E M" and B: "borsh_codec B"
  shows "\<exists>w. test_network_account (storage_world_state E) B (ws_new E V d) = Some ((), w)"
    and "\<exists>w. test_network_account_validator_set (storage_world_state E) B (ws_new E V d) = Some ((), w)"
  using network_tests_pass_on_store [OF storage_world_state_pools [OF C B] new_world_rep [OF C]] by blast+

end
