(* ===== verification/World_Tests.thy ===== *)
theory World_Tests
  imports World_Run Network_Tests
begin

text \<open>
  The unit tests on the fields of an account in \<open>tests/tests.rs\<close>, in both versions.  They are
  programs on world states whose accounts have no storage: such a world state has one keyspace
  only, so that it survives closing and opening in version 1 too, where the keyspaces of several
  tries can meet.
\<close>

section \<open>Closing and opening again\<close>

definition accounts_only :: "'t trie_model \<Rightarrow> world_state \<Rightarrow> content \<Rightarrow> bool" where
  "accounts_only M w m \<longleftrightarrow>
     ws_rel M w m (\<lambda>_. Map.empty) \<and> storage_trie_map w = [] \<and>
     (\<forall>a. m (account_key (ws_version w) a StorageHash) = None)"

lemma accounts_only_new:
  "trie_contract E M \<Longrightarrow> accounts_only M (ws_new E V s) Map.empty"
  using ws_new_ok [of E M V s] by (simp add: accounts_only_def) (simp add: ws_new_def)

lemma accounts_only_set:
  assumes C: "trie_contract E M" and H: "accounts_only M w m"
    and f: "f \<noteq> StorageHash" and v: "v \<noteq> [] \<longrightarrow> field_ok f v"
  shows "\<exists>A. at_set E (accounts_trie w) (account_key (ws_version w) a f) v = (Inr (), A) \<and>
    accounts_only M (w\<lparr>accounts_trie := A\<rparr>) (put_content (account_key (ws_version w) a f) v m) \<and>
    ws_version (w\<lparr>accounts_trie := A\<rparr>) = ws_version w"
proof -
  have R: "ws_rel M w m (\<lambda>_. Map.empty)" and A0: "at_holds M (accounts_trie w) m"
    using H by (simp_all add: accounts_only_def ws_rel_def)
  obtain A where A: "at_set E (accounts_trie w) (account_key (ws_version w) a f) v = (Inr (), A)"
    "at_holds M A (put_content (account_key (ws_version w) a f) v m)"
    "same_frame (at_trie (accounts_trie w)) (at_trie A)"
    using at_set_ok [OF C A0 v, of a] by (auto simp: ws_version_def)
  have k: "put_content (account_key (ws_version w) a f) v m (account_key (ws_version w) b StorageHash) =
      m (account_key (ws_version w) b StorageHash)" for b
    using f by (simp add: put_content_def)
  have V: "ws_version (w\<lparr>accounts_trie := A\<rparr>) = ws_version w"
    using same_frame_version [OF A(3)] by (simp add: ws_version_def)
  have "accounts_only M (w\<lparr>accounts_trie := A\<rparr>) (put_content (account_key (ws_version w) a f) v m)"
    using ws_rel_accounts [OF R A(2,3) k] H k unfolding accounts_only_def V by simp
  then show ?thesis using A(1) V by blast
qed

lemma accounts_only_close:
  assumes C: "trie_contract E M" and H: "accounts_only M w m"
  shows "\<exists>ins del r w'. ws_close E w = (Inr (ins, del, r), w') \<and>
    accounts_only M (ws_open (ws_version w) (apply_changes (ins, del) (ws_db w)) r) m"
proof -
  have e: "storage_trie_map w = []" and R: "ws_rel M w m (\<lambda>_. Map.empty)"
    and h: "\<And>a. m (account_key (ws_version w) a StorageHash) = None"
    using H by (simp_all add: accounts_only_def)
  obtain ins del r w' m' where c: "ws_close E w = (Inr (ins, del, r), w')"
    "ws_rel M (ws_open (ws_version w) (apply_changes (ins, del) (ws_db w)) r) m' (\<lambda>_. Map.empty)"
    "\<And>b. m' (account_key (ws_version w) b StorageHash) = m (account_key (ws_version w) b StorageHash)"
    "\<And>b f. f \<noteq> StorageHash \<Longrightarrow> m' (account_key (ws_version w) b f) = m (account_key (ws_version w) b f)"
    using ws_close_ok [OF C R no_storages_separate [OF C R e h]] by (auto simp: e)
  have wf: "accounts_wf (ws_version w) m'" "accounts_wf (ws_version w) m"
    using ws_rel_wf [OF c(2)] ws_rel_wf [OF R] by simp_all
  have "m' = m"
  proof (rule accounts_wf_eqI [OF wf])
    show "m' (account_key (ws_version w) a f) = m (account_key (ws_version w) a f)" for a f
      by (cases "f = StorageHash") (simp_all add: c(3,4))
  qed
  then show ?thesis using c(1,2) h by (auto simp: accounts_only_def)
qed

section \<open>The unit tests on the fields of an account\<close>

text \<open>
  Each test runs the same steps in both versions: it checks a new world state, edits its
  accounts trie, closes it, applies the changes and checks the world state opened on them.
\<close>

definition update_field :: "'t trie_lib \<Rightarrow> version \<Rightarrow> (accounts_trie \<Rightarrow> unit option) \<Rightarrow>
    (accounts_trie \<Rightarrow> (mpt_error + unit) \<times> accounts_trie) \<Rightarrow> (accounts_trie \<Rightarrow> unit option) \<Rightarrow> unit option" where
  "update_field E V check_before edit check_after = do {
     let env_db = Map.empty;
     let genesis_ws = ws_new E V env_db;
     _ \<leftarrow> check_before (ws_account_trie genesis_ws);
     let (r, genesis_ws) = ws_account_trie_mut edit genesis_ws;
     _ \<leftarrow> unwrap r;
     let (r, genesis_ws) = ws_close E genesis_ws;
     ws_changes \<leftarrow> unwrap r;
     let env_db = apply_changes (fst ws_changes, fst (snd ws_changes)) env_db;
     let new_ws = ws_open V env_db (snd (snd ws_changes));
     check_after (ws_account_trie new_ws)
   }"

definition nonce_is :: "'t trie_lib \<Rightarrow> b32 \<Rightarrow> u64 \<Rightarrow> accounts_trie \<Rightarrow> unit option" where
  "nonce_is E address x T = do { r \<leftarrow> at_nonce E T address; n \<leftarrow> unwrap r; assert (n = x) }"

definition balance_is :: "'t trie_lib \<Rightarrow> b32 \<Rightarrow> u64 \<Rightarrow> accounts_trie \<Rightarrow> unit option" where
  "balance_is E address x T = do { r \<leftarrow> at_balance E T address; n \<leftarrow> unwrap r; assert (n = x) }"

definition cbi_version_is :: "'t trie_lib \<Rightarrow> b32 \<Rightarrow> u32 option \<Rightarrow> accounts_trie \<Rightarrow> unit option" where
  "cbi_version_is E address x T = do { r \<leftarrow> at_cbi_version E T address; n \<leftarrow> unwrap r; assert (n = x) }"

definition code_is :: "'t trie_lib \<Rightarrow> b32 \<Rightarrow> bytes option \<Rightarrow> accounts_trie \<Rightarrow> unit option" where
  "code_is E address x T = do { c \<leftarrow> unwrap (at_code E T address); assert (c = x) }"

definition contains_nonce :: "'t trie_lib \<Rightarrow> b32 \<Rightarrow> accounts_trie \<Rightarrow> unit option" where
  "contains_nonce E address T = do { b \<leftarrow> unwrap (at_contains E T Nonce address); assert b }"

definition update_nonce :: "'t trie_lib \<Rightarrow> b32 \<Rightarrow> unit option" where
  "update_nonce E address = do {
     _ \<leftarrow> update_field E V1 (nonce_is E address 0) (\<lambda>T. at_set_nonce E T address 1)
           (\<lambda>T. do { _ \<leftarrow> contains_nonce E address T; nonce_is E address 1 T });
     update_field E V2 (nonce_is E address 0) (\<lambda>T. at_set_nonce E T address 1)
           (\<lambda>T. do { _ \<leftarrow> contains_nonce E address T; nonce_is E address 1 T })
   }"

definition update_balance :: "'t trie_lib \<Rightarrow> b32 \<Rightarrow> unit option" where
  "update_balance E address = do {
     _ \<leftarrow> update_field E V1 (balance_is E address 0) (\<lambda>T. at_set_balance E T address 100000)
           (balance_is E address 100000);
     update_field E V2 (balance_is E address 0) (\<lambda>T. at_set_balance E T address 100000)
           (balance_is E address 100000)
   }"

definition hello_world :: bytes where
  "hello_world = [72, 101, 108, 108, 111, 32, 119, 111, 114, 108, 100]"

definition update_code :: "'t trie_lib \<Rightarrow> b32 \<Rightarrow> unit option" where
  "update_code E address = do {
     _ \<leftarrow> update_field E V1 (code_is E address None) (\<lambda>T. at_set_code E T address hello_world)
           (code_is E address (Some hello_world));
     update_field E V2 (code_is E address None) (\<lambda>T. at_set_code E T address hello_world)
           (code_is E address (Some hello_world))
   }"

definition update_cbi_version :: "'t trie_lib \<Rightarrow> b32 \<Rightarrow> unit option" where
  "update_cbi_version E address = do {
     _ \<leftarrow> update_field E V1 (cbi_version_is E address None) (\<lambda>T. at_set_cbi_version E T address 1)
           (cbi_version_is E address (Some 1));
     update_field E V2 (cbi_version_is E address None) (\<lambda>T. at_set_cbi_version E T address 1)
           (cbi_version_is E address (Some 1))
   }"

section \<open>They pass\<close>

lemma update_field_ok:
  assumes C: "trie_contract E M" and f: "f \<noteq> StorageHash" "v \<noteq> [] \<longrightarrow> field_ok f v"
    and edit: "\<And>T. edit T = at_set E T (account_key (at_version T) a f) v"
    and before: "\<And>T. at_holds M T Map.empty \<Longrightarrow> check_before T = Some ()"
    and after: "\<And>T. at_holds M T (put_content (account_key (at_version T) a f) v Map.empty) \<Longrightarrow>
      check_after T = Some ()"
  shows "update_field E V check_before edit check_after = Some ()"
proof -
  let ?w = "ws_new E V Map.empty"
  have n: "accounts_only M ?w Map.empty" "ws_version ?w = V"
    using accounts_only_new [OF C] ws_new_ok(2) [OF C] by auto
  obtain A where A: "at_set E (accounts_trie ?w) (account_key V a f) v = (Inr (), A)"
    "accounts_only M (?w\<lparr>accounts_trie := A\<rparr>) (put_content (account_key V a f) v Map.empty)"
    "ws_version (?w\<lparr>accounts_trie := A\<rparr>) = V"
    using accounts_only_set [OF C n(1) f, of a] n(2) by auto
  obtain ins del r w' where c: "ws_close E (?w\<lparr>accounts_trie := A\<rparr>) = (Inr (ins, del, r), w')"
    "accounts_only M (ws_open V (apply_changes (ins, del) Map.empty) r) (put_content (account_key V a f) v Map.empty)"
    using accounts_only_close [OF C A(2)] unfolding A(3) by (auto simp: ws_new_def)
  let ?w2 = "ws_open V (apply_changes (ins, del) Map.empty) r"
  have "at_version (accounts_trie ?w) = V" "at_version (accounts_trie ?w2) = V"
    using n(2) ws_open_version [of V] by (simp_all only: ws_version_def)
  moreover have "at_holds M (accounts_trie ?w) Map.empty"
    "at_holds M (accounts_trie ?w2) (put_content (account_key V a f) v Map.empty)"
    using n(1) c(2) by (simp_all add: accounts_only_def ws_rel_def)
  ultimately show ?thesis
    using A(1) c(1) before after
    by (simp add: update_field_def Let_def ws_account_trie_def ws_account_trie_mut_def edit del: ws_open_fields)
qed

lemma checks_pass:
  assumes C: "trie_contract E M" and H: "at_holds M T m"
  shows "nonce (account_at (at_version T) m a) = x \<Longrightarrow> nonce_is E a x T = Some ()"
    and "account.balance (account_at (at_version T) m a) = x \<Longrightarrow> balance_is E a x T = Some ()"
    and "cbi_version (account_at (at_version T) m a) = i \<Longrightarrow> cbi_version_is E a i T = Some ()"
    and "m (account_key (at_version T) a ContractCode) = c \<Longrightarrow> code_is E a c T = Some ()"
    and "m (account_key (at_version T) a Nonce) \<noteq> None \<Longrightarrow> contains_nonce E a T = Some ()"
  using at_getters_ok [OF C H, of a] at_contains_ok [OF C H, of Nonce a]
  by (simp_all add: nonce_is_def balance_is_def cbi_version_is_def code_is_def contains_nonce_def)

lemma hello_world_nonempty [simp]: "hello_world \<noteq> []"
  by (simp add: hello_world_def)

lemma account_tests_ok:
  assumes C: "trie_contract E M"
  shows "update_nonce E a = Some ()" "update_balance E a = Some ()" "update_code E a = Some ()"
    "update_cbi_version E a = Some ()"
proof -
  note checks = checks_pass [OF C]
  note at_set = at_set_nonce_def at_set_balance_def at_set_code_def at_set_cbi_version_def Let_def
  have ok: "field_ok Nonce (u64_to_le 1)" "field_ok Balance (u64_to_le 100000)"
    "field_ok ContractCode hello_world" "field_ok CbiVersion (u32_to_le 1)"
    by (simp_all add: field_ok_def)
  have "update_field E V (nonce_is E a 0) (\<lambda>T. at_set_nonce E T a 1)
      (\<lambda>T. do { _ \<leftarrow> contains_nonce E a T; nonce_is E a 1 T }) = Some ()" for V
    by (rule update_field_ok [OF C, of Nonce "u64_to_le 1" _ a])
      (use ok checks in \<open>simp_all add: at_set put_content_def account_at_upd account_default_def from_le_to_le\<close>)
  then show "update_nonce E a = Some ()" by (simp add: update_nonce_def)
  have "update_field E V (balance_is E a 0) (\<lambda>T. at_set_balance E T a 100000) (balance_is E a 100000) = Some ()" for V
    by (rule update_field_ok [OF C, of Balance "u64_to_le 100000" _ a])
      (use ok checks in \<open>simp_all add: at_set put_content_def account_at_upd account_default_def from_le_to_le\<close>)
  then show "update_balance E a = Some ()" by (simp add: update_balance_def)
  have "update_field E V (code_is E a None) (\<lambda>T. at_set_code E T a hello_world) (code_is E a (Some hello_world)) =
      Some ()" for V
    by (rule update_field_ok [OF C, of ContractCode hello_world _ a])
      (use ok checks in \<open>simp_all add: at_set put_content_def\<close>)
  then show "update_code E a = Some ()" by (simp add: update_code_def)
  have "update_field E V (cbi_version_is E a None) (\<lambda>T. at_set_cbi_version E T a 1) (cbi_version_is E a (Some 1)) =
      Some ()" for V
    by (rule update_field_ok [OF C, of CbiVersion "u32_to_le 1" _ a])
      (use ok checks in \<open>simp_all add: at_set put_content_def account_at_upd account_default_def from_le_to_le\<close>)
  then show "update_cbi_version E a = Some ()" by (simp add: update_cbi_version_def)
qed

section \<open>Properties\<close>

text \<open>
  C30: The unit tests on the nonce, the balance, the code and the CBI version of an account, each
  in both versions, and those on the network account pass for every address, every trie library
  under its contract and every codec that reads back what it wrote: no \<open>unwrap\<close> fails and
  every assertion holds.
\<close>

theorem world_tests_pass:
  assumes C: "trie_contract E M" and B: "borsh_codec B"
  shows "update_nonce E a = Some () \<and> update_balance E a = Some () \<and> update_code E a = Some () \<and>
    update_cbi_version E a = Some () \<and>
    (\<exists>w. test_network_account (storage_world_state E) B (ws_new E V2 Map.empty) = Some ((), w)) \<and>
    (\<exists>w. test_network_account_validator_set (storage_world_state E) B (ws_new E V1 Map.empty) = Some ((), w))"
  using account_tests_ok [OF C] network_tests_ok [OF C B] by simp

theorem world_tests_pass_witness:
  "update_nonce flat_lib (b32_fill 7) = Some () \<and> update_balance flat_lib (b32_fill 7) = Some () \<and>
   update_code flat_lib (b32_fill 7) = Some () \<and> update_cbi_version flat_lib (b32_fill 7) = Some () \<and>
   (\<exists>w. test_network_account (storage_world_state flat_lib) borsh_std (ws_new flat_lib V2 Map.empty) = Some ((), w)) \<and>
   (\<exists>w. test_network_account_validator_set (storage_world_state flat_lib) borsh_std (ws_new flat_lib V1 Map.empty) =
      Some ((), w))"
  by (rule world_tests_pass [OF flat_contract std.borsh_codec_axioms])

end
