(* ===== verification/Mpt_Tests.thy ===== *)
theory Mpt_Tests
  imports Accounts_Trie Test_Logic
begin

text \<open>
  The life of one trie: edits, \<open>close\<close>, the changes applied to the database, and \<open>open\<close> on
  it at the returned root, in both versions.  The unit tests of \<open>mpt.rs\<close> are programs of this
  kind; translated, they pass with every trie library that keeps the contract and for every
  address.
\<close>

section \<open>Closing, applying and opening again\<close>

definition apply_mpt_changes :: "mpt_changes \<Rightarrow> (bytes \<Rightarrow> bytes option) \<Rightarrow> bytes \<Rightarrow> bytes option" where
  "apply_mpt_changes c s = apply_changes (fst c, fst (snd c)) s"

text \<open>A trie of version \<open>V\<close> and prefix \<open>p\<close> over the database \<open>s\<close>, with content \<open>m\<close>.\<close>

definition trie_on :: "'t trie_model \<Rightarrow> version \<Rightarrow> bytes \<Rightarrow> (bytes \<Rightarrow> bytes option) \<Rightarrow> content \<Rightarrow> mpt \<Rightarrow> bool" where
  "trie_on M V p s m t \<longleftrightarrow>
     mpt_holds M t m \<and> kdb_version (db t) = V \<and> prefix (db t) = p \<and> storage (db t) = s \<and> kdb_inv (db t)"

lemma trie_onD:
  "trie_on M V p s m t \<Longrightarrow> mpt_holds M t m"
  by (simp add: trie_on_def)

lemma trie_on_frame:
  "trie_on M V p s m t \<Longrightarrow> touches M m m' t t' \<Longrightarrow> mpt_holds M t' m' \<Longrightarrow> trie_on M V p s m' t'"
  by (auto simp: trie_on_def same_frame_def dest: touches_frame)

lemma trie_on_new:
  "trie_contract E M \<Longrightarrow> trie_on M V p s Map.empty (mpt_new E (kdb_new V s p))"
  using mpt_new_ok [of E M "kdb_new V s p"] by (simp add: trie_on_def kdb_inv_def)

lemma trie_on_set:
  assumes "trie_contract E M" "trie_on M V p s m t"
  shows "\<exists>t'. mpt_set E t k v = (Inr (), t') \<and> trie_on M V p s (put_content k v m) t'"
  using mpt_set_ok [OF assms(1) trie_onD [OF assms(2)], of k v] trie_on_frame [OF assms(2)] by blast

lemma trie_on_remove:
  assumes "trie_contract E M" "trie_on M V p s m t"
  shows "\<exists>t'. mpt_remove E t k = (Inr (), t') \<and> trie_on M V p s (m(k := None)) t'"
  using mpt_remove_ok [OF assms(1) trie_onD [OF assms(2)], of k] trie_on_frame [OF assms(2)] by blast

text \<open>The changes as a whole: the new database is the old one outside the trie's keyspace.\<close>

lemma trie_on_reopen:
  assumes "trie_on M V p s m t"
  shows "trie_on M V p (apply_mpt_changes (fst (mpt_close t)) s) m
     (mpt_open (kdb_new V (apply_mpt_changes (fst (mpt_close t)) s) p) (snd (snd (fst (mpt_close t)))))"
proof -
  have "kdb_get (kdb_new V (apply_changes (inserts (db t), deletes (db t)) s) p) = kdb_get (db t)"
    using reopen_get [of "db t"] assms by (auto simp: trie_on_def)
  then show ?thesis
    using assms by (simp add: trie_on_def mpt_holds_def mpt_open_def mpt_close_ok apply_mpt_changes_def)
qed

section \<open>The unit tests\<close>

text \<open>
  The state of a test is its \<open>TestEnv\<close>: the database, empty at first, and the address.  An
  \<open>unwrap\<close> of an error and a failed assertion are \<open>None\<close>; what the tests print is left out.
\<close>

definition unwrap_set :: "('e + unit) \<times> mpt \<Rightarrow> mpt option" where
  "unwrap_set r = (case r of (Inl _, _) \<Rightarrow> None | (Inr _, t) \<Rightarrow> Some t)"

lemma unwrap_set_Inr [simp]: "unwrap_set (Inr u, t) = Some t"
  by (simp add: unwrap_set_def)

definition test_env :: "b32 \<Rightarrow> (bytes \<Rightarrow> bytes option) \<times> b32" where
  "test_env address = (Map.empty, address)"

lemma test_env_simps: "(case test_env address of (env_db, address) \<Rightarrow> f env_db address) = f Map.empty address"
  by (simp add: test_env_def)

definition apple_key :: bytes where "apple_key = [97, 112, 112, 108, 101]"
definition apple_value :: bytes where "apple_value = apple_key @ [95, 49, 50, 51, 52, 53]"
definition banana_key :: bytes where "banana_key = [98, 97, 110, 97, 110, 97]"
definition banana_value :: bytes where "banana_value = banana_key @ [95, 49, 50, 51, 52, 53]"

lemma fruit [simp]: "apple_value \<noteq> []" "banana_value \<noteq> []" "apple_key \<noteq> banana_key" "banana_key \<noteq> apple_key"
  by (simp_all add: apple_key_def apple_value_def banana_key_def banana_value_def)

definition simple_insert_v1 :: "'t trie_lib \<Rightarrow> b32 \<Rightarrow> (bytes \<Rightarrow> bytes option) option" where
  "simple_insert_v1 E address = do {
     let (env_db, address) = test_env address;
     let db = kdb_new V1 env_db (b32_bytes address);
     let mpt = mpt_new E db;
     mpt \<leftarrow> unwrap_set (mpt_set E mpt apple_key apple_value);
     mpt \<leftarrow> unwrap_set (mpt_set E mpt banana_key banana_value);
     let (changes, mpt) = mpt_close mpt;
     let env_db = apply_mpt_changes changes env_db;
     Some env_db
   }"

definition init_and_open :: "'t trie_lib \<Rightarrow> b32 \<Rightarrow> unit option" where
  "init_and_open E address = do {
     let (env_db, address) = test_env address;
     let db = kdb_new V1 env_db (b32_bytes address);
     let ret = mpt_new E db;
     let key = account_key V1 address Nonce;
     v \<leftarrow> unwrap (mpt_get E ret key);
     assert (v = None)
   }"

definition init_and_add_null_key :: "'t trie_lib \<Rightarrow> b32 \<Rightarrow> bytes option option" where
  "init_and_add_null_key E address = do {
     let (env_db, address) = test_env address;
     let db = kdb_new V1 env_db (b32_bytes address);
     let ret = mpt_new E db;
     let (mpt_change, ret) = mpt_close ret;
     let env_db = apply_mpt_changes mpt_change env_db;
     let db = kdb_new V1 env_db (b32_bytes address);
     let ret = mpt_open db (snd (snd mpt_change));
     ret \<leftarrow> unwrap_set (mpt_set E ret (b32_bytes (rh_hash E preimage_of_empty_trie_root_hash))
       (b32_bytes (rh_hash E empty_trie_dummy_root_node)));
     let (mpt_change, ret) = mpt_close ret;
     let env_db = apply_mpt_changes mpt_change env_db;
     let db = kdb_new V1 env_db (b32_bytes address);
     let ret = mpt_open db (snd (snd mpt_change));
     unwrap (mpt_get E ret (b32_bytes (rh_hash E preimage_of_empty_trie_root_hash)))
   }"

definition init_add_delete_and_open :: "'t trie_lib \<Rightarrow> b32 \<Rightarrow> unit option" where
  "init_add_delete_and_open E address = do {
     let (env_db, address) = test_env address;
     let db = kdb_new V2 env_db (b32_bytes address);
     let ret = mpt_new E db;
     let (changes, ret) = mpt_close ret;
     let env_db = apply_mpt_changes changes env_db;
     let db = kdb_new V2 env_db (b32_bytes address);
     let ret = mpt_open db (snd (snd changes));
     v \<leftarrow> unwrap (mpt_get E ret apple_key);
     _ \<leftarrow> assert (v = None);
     ret \<leftarrow> unwrap_set (mpt_set E ret apple_key apple_value);
     ret \<leftarrow> unwrap_set (mpt_set E ret banana_key banana_value);
     let (changes, ret) = mpt_close ret;
     let env_db = apply_mpt_changes changes env_db;
     let db = kdb_new V2 env_db (b32_bytes address);
     let ret = mpt_open db (snd (snd changes));
     b \<leftarrow> unwrap (mpt_contains E ret apple_key);
     _ \<leftarrow> assert b;
     b \<leftarrow> unwrap (mpt_contains E ret banana_key);
     _ \<leftarrow> assert b;
     v \<leftarrow> unwrap (mpt_get E ret apple_key);
     v \<leftarrow> v;
     _ \<leftarrow> assert (v = apple_value);
     ret \<leftarrow> unwrap_set (mpt_remove E ret apple_key);
     ret \<leftarrow> unwrap_set (mpt_remove E ret banana_key);
     let (changes, ret) = mpt_close ret;
     let env_db = apply_mpt_changes changes env_db;
     let db = kdb_new V2 env_db (b32_bytes address);
     let ret = mpt_open db (snd (snd changes));
     v \<leftarrow> unwrap (mpt_get E ret banana_key);
     assert (v = None)
   }"

definition delete_root :: "'t trie_lib \<Rightarrow> b32 \<Rightarrow> (bytes \<Rightarrow> bytes option) option" where
  "delete_root E address = do {
     let (env_db, address) = test_env address;
     let db = kdb_new V1 env_db (b32_bytes address);
     let ret = mpt_new E db;
     ret \<leftarrow> unwrap_set (mpt_set E ret apple_key apple_value);
     ret \<leftarrow> unwrap_set (mpt_set E ret banana_key banana_value);
     let (ws_changes, ret) = mpt_close ret;
     let env_db = apply_mpt_changes ws_changes env_db;
     let db = kdb_new V1 env_db (b32_bytes address);
     let ret = mpt_open db (snd (snd ws_changes));
     ret \<leftarrow> unwrap_set (mpt_remove E ret apple_key);
     ret \<leftarrow> unwrap_set (mpt_remove E ret banana_key);
     let (ws_changes, ret) = mpt_close ret;
     let env_db = apply_mpt_changes ws_changes env_db;
     let db = kdb_new V1 env_db (b32_bytes address);
     let ret = mpt_open db (snd (snd ws_changes));
     mpt_v2 \<leftarrow> unwrap (mpt_deinit_and_upgrade E ret);
     let (ws_changes, mpt_v2) = mpt_close mpt_v2;
     let env_db = apply_mpt_changes ws_changes env_db;
     Some env_db
   }"

section \<open>They pass\<close>

lemma returns_lookup:
  "put_content k v m x = Some w \<Longrightarrow> returns (f w) P \<Longrightarrow> returns (put_content k v m x \<bind> f) P"
  by simp

lemma returns_close:
  assumes "trie_on M V p s m t"
    and "\<And>c t'. trie_on M V p (apply_mpt_changes c s) m
        (mpt_open (kdb_new V (apply_mpt_changes c s) p) (snd (snd c))) \<Longrightarrow> returns (f c t') P"
  shows "returns (case mpt_close t of (c, t') \<Rightarrow> f c t') P"
  using assms(2) [OF trie_on_reopen [OF assms(1)]] by (simp add: mpt_close_ok)

text \<open>One rule for each operation: the first premise is the contract, the second the state.\<close>

lemma returns_set:
  assumes "trie_contract E M" "trie_on M V p s m t"
    and "\<And>t'. trie_on M V p s (put_content k v m) t' \<Longrightarrow> returns (f t') P"
  shows "returns (unwrap_set (mpt_set E t k v) \<bind> f) P"
  using trie_on_set [OF assms(1,2), of k v] assms(3) by auto

lemma returns_remove:
  assumes "trie_contract E M" "trie_on M V p s m t"
    and "\<And>t'. trie_on M V p s (m(k := None)) t' \<Longrightarrow> returns (f t') P"
  shows "returns (unwrap_set (mpt_remove E t k) \<bind> f) P"
  using trie_on_remove [OF assms(1,2), of k] assms(3) by auto

lemma returns_get:
  "trie_contract E M \<Longrightarrow> trie_on M V p s m t \<Longrightarrow> P (m k) \<Longrightarrow> returns (unwrap (mpt_get E t k)) P"
  by (simp add: returns_def mpt_get_ok [OF _ trie_onD])

lemma returns_get_then:
  "trie_contract E M \<Longrightarrow> trie_on M V p s m t \<Longrightarrow> returns (f (m k)) P \<Longrightarrow>
     returns (unwrap (mpt_get E t k) \<bind> f) P"
  by (simp add: mpt_get_ok [OF _ trie_onD])

lemma returns_contains_then:
  "trie_contract E M \<Longrightarrow> trie_on M V p s m t \<Longrightarrow> returns (f (m k \<noteq> None)) P \<Longrightarrow>
     returns (unwrap (mpt_contains E t k) \<bind> f) P"
  by (simp add: mpt_contains_ok [OF _ trie_onD])

lemma returns_upgrade:
  assumes "trie_contract E M" "trie_on M V p s m t" "m = Map.empty"
    and "\<And>t'. trie_on M V2 p s Map.empty t' \<Longrightarrow> returns (f t') P"
  shows "returns (unwrap (mpt_deinit_and_upgrade E t) \<bind> f) P"
proof -
  have "root_hash t = null_root E"
    using trie_root_null_iff [OF assms(1) trie_onD [OF assms(2), unfolded mpt_holds_def]] assms(3) by simp
  from mpt_deinit_and_upgrade_ok [OF assms(1) this] obtain t' where
    "mpt_deinit_and_upgrade E t = Inr t'" "trie_on M V2 p s Map.empty t'"
    using assms(2) by (auto simp: trie_on_def)
  then show ?thesis using assms(4) by simp
qed

lemmas steps = returns_assert returns_assert_then returns_set returns_remove returns_get returns_get_then
  returns_contains_then returns_upgrade returns_close returns_lookup returns_done

section \<open>Properties\<close>

text \<open>
  C24: A trie survives \<open>close\<close> and \<open>open\<close> in both versions: after any edits, the changes that
  \<open>close\<close> hands out, applied to the database, make a trie opened there at the returned root
  answer every key as the closed one did.
\<close>

theorem mpt_persists:
  assumes C: "trie_contract E M" and t: "trie_on M V p s m t"
  shows "\<exists>t1 t2 c t3. mpt_set E t k v = (Inr (), t1) \<and> mpt_remove E t1 k' = (Inr (), t2) \<and>
    mpt_close t2 = (c, t3) \<and>
    trie_on M V p (apply_mpt_changes c s) ((put_content k v m)(k' := None))
      (mpt_open (kdb_new V (apply_mpt_changes c s) p) (snd (snd c))) \<and>
    mpt_get E (mpt_open (kdb_new V (apply_mpt_changes c s) p) (snd (snd c))) x =
      Inr (if x = k' then None else if x = k then if v = [] then None else Some v else m x)"
proof -
  obtain t1 where t1: "mpt_set E t k v = (Inr (), t1)" "trie_on M V p s (put_content k v m) t1"
    using trie_on_set [OF C t] by blast
  obtain t2 where t2: "mpt_remove E t1 k' = (Inr (), t2)"
    "trie_on M V p s ((put_content k v m)(k' := None)) t2"
    using trie_on_remove [OF C t1(2)] by blast
  note o = trie_on_reopen [OF t2(2)]
  show ?thesis
    using t1(1) t2(1) o mpt_get_ok [OF C trie_onD [OF o], of x]
    by (auto simp: mpt_close_ok put_content_def)
qed

theorem mpt_persists_witness:
  "\<exists>t1 t2 c t3. mpt_set flat_lib (mpt_new flat_lib (kdb_new V1 Map.empty [7])) [1] [2] = (Inr (), t1) \<and>
     mpt_remove flat_lib t1 [3] = (Inr (), t2) \<and> mpt_close t2 = (c, t3) \<and>
     mpt_get flat_lib (mpt_open (kdb_new V1 (apply_mpt_changes c Map.empty) [7]) (snd (snd c))) [1] = Inr (Some [2])"
  using mpt_persists [OF flat_contract trie_on_new [OF flat_contract], of V1 Map.empty "[7]" "[1]" "[2]" "[3]" "[1]"]
  by auto

text \<open>
  C25: The unit tests of the trie pass for every trie library that keeps the contract and every
  address: no \<open>unwrap\<close> fails, every assertion holds, the database left by
  \<open>simple_insert_v1\<close> holds both fruits, and the one left by \<open>delete_root\<close> an empty version 2 trie.
\<close>

theorem mpt_tests_pass:
  assumes C: "trie_contract E M"
  shows "init_and_open E a = Some () \<and> init_add_delete_and_open E a = Some () \<and>
    init_and_add_null_key E a = Some (Some (b32_bytes (rh_hash E empty_trie_dummy_root_node))) \<and>
    (\<exists>s r. simple_insert_v1 E a = Some s \<and>
       mpt_holds M (mpt_open (kdb_new V1 s (b32_bytes a)) r)
         [apple_key \<mapsto> apple_value, banana_key \<mapsto> banana_value]) \<and>
    (\<exists>s r. delete_root E a = Some s \<and> mpt_holds M (mpt_open (kdb_new V2 s (b32_bytes a)) r) Map.empty)"
proof (intro conjI)
  have "returns (init_and_open E a) (\<lambda>_. True)"
    unfolding init_and_open_def Let_def test_env_simps
    by (assumption | rule C trie_on_new steps TrueI | simp)+
  then show "init_and_open E a = Some ()" by (auto simp: returns_def)
  have "returns (init_add_delete_and_open E a) (\<lambda>_. True)"
    unfolding init_add_delete_and_open_def Let_def test_env_simps
    by (assumption | rule C trie_on_new steps TrueI | simp add: put_content_def)+
  then show "init_add_delete_and_open E a = Some ()" by (auto simp: returns_def)
  have "returns (init_and_add_null_key E a)
      (\<lambda>v. v = Some (b32_bytes (rh_hash E empty_trie_dummy_root_node)))"
    unfolding init_and_add_null_key_def Let_def test_env_simps
    by (assumption | rule C trie_on_new steps | simp add: put_content_def)+
  then show "init_and_add_null_key E a = Some (Some (b32_bytes (rh_hash E empty_trie_dummy_root_node)))"
    by (auto simp: returns_def)
  have "returns (simple_insert_v1 E a) (\<lambda>s. \<exists>r. trie_on M V1 (b32_bytes a) s
      (put_content banana_key banana_value (put_content apple_key apple_value Map.empty))
      (mpt_open (kdb_new V1 s (b32_bytes a)) r))"
    unfolding simple_insert_v1_def Let_def test_env_simps by (assumption | rule C trie_on_new steps exI)+
  then show "\<exists>s r. simple_insert_v1 E a = Some s \<and> mpt_holds M (mpt_open (kdb_new V1 s (b32_bytes a)) r)
      [apple_key \<mapsto> apple_value, banana_key \<mapsto> banana_value]"
    by (auto simp: returns_def put_content_def dest: trie_onD)
  have "returns (delete_root E a) (\<lambda>s. \<exists>r. trie_on M V2 (b32_bytes a) s Map.empty
      (mpt_open (kdb_new V2 s (b32_bytes a)) r))"
    unfolding delete_root_def Let_def test_env_simps
    by (assumption | rule C trie_on_new steps exI | simp add: put_content_def)+
  then show "\<exists>s r. delete_root E a = Some s \<and> mpt_holds M (mpt_open (kdb_new V2 s (b32_bytes a)) r) Map.empty"
    by (auto simp: returns_def dest: trie_onD)
qed

theorem mpt_tests_pass_witness: "init_add_delete_and_open flat_lib (b32_fill 5) = Some ()"
  using mpt_tests_pass [OF flat_contract, of "b32_fill 5"] by blast

end
