(* ===== verification/Benchmark.thy ===== *)
theory Benchmark
  imports World_Life World_V1 Mpt_Tests
begin

text \<open>
  The workloads and the benchmarks of \<open>benches/benchmark.rs\<close>: writing and iterating tries, and
  writing a storage of a world state, over RocksDB databases in a temporary directory.  RocksDB, the
  directory, the hash of the data preparation and the parsing of the statistics are the fields of a
  record of parameters; the locale \<open>bench_contract\<close> states what the workloads rely on.  The random
  samples and names are arguments, and so is how often the driver runs a routine.  The measured
  times and the printed means of the statistics are left out.
\<close>

section \<open>The code outside the repository\<close>

text \<open>
  \<open>'f\<close> is the state outside of the program, its files and open databases; \<open>'d\<close> an open database, \<open>'p\<close> a
  temporary directory, \<open>'e\<close> an error, \<open>'n\<close> a parsed number.  A \<open>WriteBatch\<close> is the list of the calls that
  filled it.  \<open>key_order\<close> is the order in which a \<open>HashMap\<close> or \<open>HashSet\<close> with these keys is visited.
\<close>

record ('f, 'd, 'p, 'e, 'n) bench_lib =
  rk_open_default :: "string \<Rightarrow> 'f \<Rightarrow> ('e + 'd) \<times> 'f"
  rk_get :: "'d \<Rightarrow> 'f \<Rightarrow> bytes \<Rightarrow> 'e + bytes option"
  rk_write :: "'d \<Rightarrow> store_write list \<Rightarrow> 'f \<Rightarrow> ('e + unit) \<times> 'f"
  rk_property_value :: "'d \<Rightarrow> 'f \<Rightarrow> string \<Rightarrow> 'e + string option"
  rk_drop :: "'d \<Rightarrow> 'f \<Rightarrow> 'f"
  estimate_num_keys :: string
  estimate_live_data_size :: string
  parse_f64 :: "string \<Rightarrow> 'e + 'n"
  temp_dir_new :: "'f \<Rightarrow> ('e + 'p) \<times> 'f"
  temp_dir_child :: "'p \<Rightarrow> string \<Rightarrow> string"
  temp_dir_cleanup :: "'p \<Rightarrow> 'f \<Rightarrow> ('e + unit) \<times> 'f"
  fs_remove_dir_all :: "string \<Rightarrow> 'f \<Rightarrow> ('e + unit) \<times> 'f"
  keccak_hash :: "bytes \<Rightarrow> b32"
  key_order :: "bytes set \<Rightarrow> bytes list"

text \<open>An \<open>unwrap\<close> or \<open>expect\<close> of a call that changes the outer state.\<close>

definition unwrap_io :: "('e + 'a) \<times> 'f \<Rightarrow> ('a \<times> 'f) option" where
  "unwrap_io r = (case r of (Inl _, _) \<Rightarrow> None | (Inr a, f) \<Rightarrow> Some (a, f))"

section \<open>The database\<close>

definition test_db_get :: "('f, 'd, 'p, 'e, 'n) bench_lib \<Rightarrow> 'd \<Rightarrow> 'f \<Rightarrow> bytes \<Rightarrow> bytes option" where
  "test_db_get L test_db f key =
     (case rk_get L test_db f key of
        Inr value \<Rightarrow> value
      | Inl _ \<Rightarrow> None)"

definition open_db :: "('f, 'd, 'p, 'e, 'n) bench_lib \<Rightarrow> string \<Rightarrow> 'f \<Rightarrow> ('d \<times> 'f) option" where
  "open_db L path f = unwrap_io (rk_open_default L path f)"

text \<open>\<open>write_batch\<close> takes the database by value, which drops it at the end.\<close>

definition write_batch :: "('f, 'd, 'p, 'e, 'n) bench_lib \<Rightarrow> 'd \<Rightarrow> bytes bytemap \<Rightarrow> bytes set \<Rightarrow> 'f \<Rightarrow> 'f option" where
  "write_batch L test_db ins del f = do {
     let batch = map (\<lambda>key. Put key (the (ins key))) (key_order L (dom ins));
     let batch = batch @ map Del (key_order L del);
     (_, f) \<leftarrow> unwrap_io (rk_write L test_db batch f);
     Some (rk_drop L test_db f)
   }"

section \<open>The directory\<close>

definition generate_temp_dir :: "('f, 'd, 'p, 'e, 'n) bench_lib \<Rightarrow> 'f \<Rightarrow> ('p \<times> 'f) option" where
  "generate_temp_dir L f = unwrap_io (temp_dir_new L f)"

definition generate_random_path ::
    "('f, 'd, 'p, 'e, 'n) bench_lib \<Rightarrow> 'p \<Rightarrow> string \<Rightarrow> string list \<Rightarrow> string \<times> string list" where
  "generate_random_path L db_dir rand_path_str db_paths =
     (let rand_path = temp_dir_child L db_dir (''./.'' @ rand_path_str)
      in (rand_path, db_paths @ [rand_path]))"

fun remove_dirs :: "('f, 'd, 'p, 'e, 'n) bench_lib \<Rightarrow> string list \<Rightarrow> 'f \<Rightarrow> 'f option" where
  "remove_dirs L [] f = Some f"
| "remove_dirs L (path # db_paths) f = do {
     (_, f) \<leftarrow> unwrap_io (fs_remove_dir_all L path f);
     remove_dirs L db_paths f
   }"

definition remove_all_db :: "('f, 'd, 'p, 'e, 'n) bench_lib \<Rightarrow> string list \<Rightarrow> 'p \<Rightarrow> 'f \<Rightarrow> 'f option" where
  "remove_all_db L db_paths db_dir f = do {
     f \<leftarrow> remove_dirs L db_paths f;
     (_, f) \<leftarrow> unwrap_io (temp_dir_cleanup L db_dir f);
     Some f
   }"

text \<open>The statistics of each database, up to the numbers of which the means are printed.\<close>

fun measure_db_stats :: "('f, 'd, 'p, 'e, 'n) bench_lib \<Rightarrow> string list \<Rightarrow> 'f \<Rightarrow> (('n \<times> 'n) list \<times> 'f) option" where
  "measure_db_stats L [] f = Some ([], f)"
| "measure_db_stats L (path # db_paths) f = do {
     (test_db, f) \<leftarrow> open_db L path f;
     num_of_key \<leftarrow> unwrap (rk_property_value L test_db f (estimate_num_keys L));
     num_of_key \<leftarrow> num_of_key;
     data_size \<leftarrow> unwrap (rk_property_value L test_db f (estimate_live_data_size L));
     data_size \<leftarrow> data_size;
     num_of_key \<leftarrow> unwrap (parse_f64 L num_of_key);
     data_size \<leftarrow> unwrap (parse_f64 L data_size);
     (stats, f) \<leftarrow> measure_db_stats L db_paths (rk_drop L test_db f);
     Some ((num_of_key, data_size) # stats, f)
   }"

section \<open>The data\<close>

text \<open>\<open>generate_random_value_pair\<close> from its samples: keys and values of one length each, 1 to 63.\<close>

type_synonym dataset = "(bytes \<times> bytes) list"

definition generate_random_value_pair :: "(bytes \<times> bytes) list \<Rightarrow> dataset" where
  "generate_random_value_pair samples = fold (\<lambda>(key, value) dataset. hm_insert key value dataset) samples []"

definition samples_ok :: "(bytes \<times> bytes) list \<Rightarrow> bool" where
  "samples_ok samples \<longleftrightarrow>
     list_all (\<lambda>(key, value). 1 \<le> length key \<and> length key < 64 \<and> length value = length key) samples"

definition limit_key_length_by_keccak_hasher ::
    "(bytes \<Rightarrow> b32) \<Rightarrow> (nat \<Rightarrow> nat list) \<Rightarrow> dataset \<Rightarrow> dataset" where
  "limit_key_length_by_keccak_hasher hash ord dataset =
     fold (\<lambda>(key, value) modified_dataset.
       if length key > 32 then hm_insert (b32_bytes (hash key)) value modified_dataset
       else hm_insert key value modified_dataset) (visit ord dataset) []"

section \<open>The workloads\<close>

text \<open>
  A helper that writes pushes a new path, opens the database there, writes the changes, and returns
  the new root.  While the trie lives nothing writes to the database, so that the trie reads it as
  it was when it was opened.  The version 1 and version 2 forms differ in the type parameter.
\<close>

definition mpt_insert :: "('f, 'd, 'p, 'e, 'n) bench_lib \<Rightarrow> 't trie_lib \<Rightarrow> version \<Rightarrow> b32 \<Rightarrow> dataset \<Rightarrow>
    'p \<Rightarrow> string \<Rightarrow> string list \<times> 'f \<Rightarrow> (b32 \<times> string list \<times> 'f) option" where
  "mpt_insert L E V address dataset db_dir rand env = do {
     let (db_paths, f) = env;
     let (path, db_paths) = generate_random_path L db_dir rand db_paths;
     (test_db, f) \<leftarrow> open_db L path f;
     let key_instrumented_db = kdb_unsafe_new V (test_db_get L test_db f) (b32_bytes address);
     let mpt = mpt_unsafe_new E key_instrumented_db;
     mpt \<leftarrow> unwrap_set (mpt_batch_set E mpt dataset);
     let (mpt_changes, mpt) = mpt_close mpt;
     f \<leftarrow> write_batch L test_db (fst mpt_changes) (fst (snd mpt_changes)) f;
     Some (snd (snd mpt_changes), db_paths, f)
   }"

definition mpt_v1_insert :: "('f, 'd, 'p, 'e, 'n) bench_lib \<Rightarrow> 't trie_lib \<Rightarrow> b32 \<Rightarrow> dataset \<Rightarrow>
    'p \<Rightarrow> string \<Rightarrow> string list \<times> 'f \<Rightarrow> (b32 \<times> string list \<times> 'f) option" where
  "mpt_v1_insert L E = mpt_insert L E V1"

definition mpt_v2_insert :: "('f, 'd, 'p, 'e, 'n) bench_lib \<Rightarrow> 't trie_lib \<Rightarrow> b32 \<Rightarrow> dataset \<Rightarrow>
    'p \<Rightarrow> string \<Rightarrow> string list \<times> 'f \<Rightarrow> (b32 \<times> string list \<times> 'f) option" where
  "mpt_v2_insert L E = mpt_insert L E V2"

text \<open>The trie that is iterated: the one at the root in the first database.\<close>

definition mpt_iter_open :: "('f, 'd, 'p, 'e, 'n) bench_lib \<Rightarrow> version \<Rightarrow> b32 \<Rightarrow> b32 \<Rightarrow> string list \<Rightarrow> 'f \<Rightarrow>
    (mpt \<times> 'd \<times> 'f) option" where
  "mpt_iter_open L V address root db_paths f = do {
     db_path \<leftarrow> (case db_paths of [] \<Rightarrow> None | p # _ \<Rightarrow> Some p);
     (test_db, f) \<leftarrow> open_db L db_path f;
     let key_instrumented_db = kdb_unsafe_new V (test_db_get L test_db f) (b32_bytes address);
     Some (mpt_open key_instrumented_db root, test_db, f)
   }"

text \<open>
  The callback appends the value to its own copy of the key and keeps nothing; the result of the
  iteration is discarded.
\<close>

definition mpt_iter :: "('f, 'd, 'p, 'e, 'n) bench_lib \<Rightarrow> 't trie_lib \<Rightarrow> version \<Rightarrow> b32 \<Rightarrow> b32 \<Rightarrow>
    string list \<Rightarrow> 'f \<Rightarrow> 'f option" where
  "mpt_iter L E V address root db_paths f = do {
     (mpt, test_db, f) \<leftarrow> mpt_iter_open L V address root db_paths f;
     let _ = mpt_iterate_all E mpt id (\<lambda>key value _. let key = key @ value in Inr ()) ();
     Some (rk_drop L test_db f)
   }"

definition mpt_v1_iter :: "('f, 'd, 'p, 'e, 'n) bench_lib \<Rightarrow> 't trie_lib \<Rightarrow> b32 \<Rightarrow> b32 \<Rightarrow>
    string list \<Rightarrow> 'f \<Rightarrow> 'f option" where
  "mpt_v1_iter L E = mpt_iter L E V1"

definition mpt_v2_iter :: "('f, 'd, 'p, 'e, 'n) bench_lib \<Rightarrow> 't trie_lib \<Rightarrow> b32 \<Rightarrow> b32 \<Rightarrow>
    string list \<Rightarrow> 'f \<Rightarrow> 'f option" where
  "mpt_v2_iter L E = mpt_iter L E V2"

definition storage_trie_insert :: "('f, 'd, 'p, 'e, 'n) bench_lib \<Rightarrow> 't trie_lib \<Rightarrow> version \<Rightarrow> b32 \<Rightarrow>
    dataset \<Rightarrow> 'p \<Rightarrow> string \<Rightarrow> string list \<times> 'f \<Rightarrow> (b32 \<times> string list \<times> 'f) option" where
  "storage_trie_insert L E V address dataset db_dir rand env = do {
     let (db_paths, f) = env;
     let (path, db_paths) = generate_random_path L db_dir rand db_paths;
     (test_db, f) \<leftarrow> open_db L path f;
     let ws = ws_new E V (test_db_get L test_db f);
     (_, ws) \<leftarrow> edit_storage E address (\<lambda>T. st_batch_set E T dataset) ws;
     (ins, del, new_root_hash) \<leftarrow> unwrap (fst (ws_close E ws));
     f \<leftarrow> write_batch L test_db ins del f;
     Some (new_root_hash, db_paths, f)
   }"

definition storage_trie_v1_insert :: "('f, 'd, 'p, 'e, 'n) bench_lib \<Rightarrow> 't trie_lib \<Rightarrow> b32 \<Rightarrow>
    dataset \<Rightarrow> 'p \<Rightarrow> string \<Rightarrow> string list \<times> 'f \<Rightarrow> (b32 \<times> string list \<times> 'f) option" where
  "storage_trie_v1_insert L E = storage_trie_insert L E V1"

definition storage_trie_v2_insert :: "('f, 'd, 'p, 'e, 'n) bench_lib \<Rightarrow> 't trie_lib \<Rightarrow> b32 \<Rightarrow>
    dataset \<Rightarrow> 'p \<Rightarrow> string \<Rightarrow> string list \<times> 'f \<Rightarrow> (b32 \<times> string list \<times> 'f) option" where
  "storage_trie_v2_insert L E = storage_trie_insert L E V2"

section \<open>The benchmarks\<close>

text \<open>
  The driver runs its routine as often as it likes: for the routines that write, once for each of the
  random names, for those that iterate, a number of times.
\<close>

fun each_path :: "(string \<Rightarrow> string list \<times> 'f \<Rightarrow> (b32 \<times> string list \<times> 'f) option) \<Rightarrow>
    string list \<Rightarrow> string list \<times> 'f \<Rightarrow> (string list \<times> 'f) option" where
  "each_path routine [] env = Some env"
| "each_path routine (rand # rands) env = do {
     (_, env) \<leftarrow> routine rand env;
     each_path routine rands env
   }"

fun repeated :: "nat \<Rightarrow> ('f \<Rightarrow> 'f option) \<Rightarrow> 'f \<Rightarrow> 'f option" where
  "repeated 0 routine f = Some f"
| "repeated (Suc n) routine f = Option.bind (routine f) (repeated n routine)"

definition mpt_write_benchmark :: "('f, 'd, 'p, 'e, 'n) bench_lib \<Rightarrow> 't trie_lib \<Rightarrow> b32 \<Rightarrow>
    (bytes \<times> bytes) list \<Rightarrow> string list \<Rightarrow> string list \<Rightarrow> 'f \<Rightarrow> 'f option" where
  "mpt_write_benchmark L E address samples rands_v1 rands_v2 f = do {
     let dataset = generate_random_value_pair samples;
     (db_dir_v1, f) \<leftarrow> generate_temp_dir L f;
     (db_paths_v1, f) \<leftarrow> each_path (mpt_v1_insert L E address dataset db_dir_v1) rands_v1 ([], f);
     (_, f) \<leftarrow> measure_db_stats L db_paths_v1 f;
     f \<leftarrow> remove_all_db L db_paths_v1 db_dir_v1 f;
     let modified_dataset = limit_key_length_by_keccak_hasher (keccak_hash L) (hash_order E) dataset;
     (db_dir_v2, f) \<leftarrow> generate_temp_dir L f;
     (db_paths_v2, f) \<leftarrow> each_path (mpt_v2_insert L E address modified_dataset db_dir_v2) rands_v2 ([], f);
     (_, f) \<leftarrow> measure_db_stats L db_paths_v2 f;
     remove_all_db L db_paths_v2 db_dir_v2 f
   }"

definition mpt_read_benchmark :: "('f, 'd, 'p, 'e, 'n) bench_lib \<Rightarrow> 't trie_lib \<Rightarrow> b32 \<Rightarrow>
    (bytes \<times> bytes) list \<Rightarrow> string \<Rightarrow> string \<Rightarrow> nat \<Rightarrow> nat \<Rightarrow> 'f \<Rightarrow> 'f option" where
  "mpt_read_benchmark L E address samples rand_v1 rand_v2 n_v1 n_v2 f = do {
     let dataset = generate_random_value_pair samples;
     (db_dir_v1, f) \<leftarrow> generate_temp_dir L f;
     (root_hash_v1, db_paths_v1, f) \<leftarrow> mpt_v1_insert L E address dataset db_dir_v1 rand_v1 ([], f);
     f \<leftarrow> repeated n_v1 (mpt_v1_iter L E address root_hash_v1 db_paths_v1) f;
     f \<leftarrow> remove_all_db L db_paths_v1 db_dir_v1 f;
     let modified_dataset = limit_key_length_by_keccak_hasher (keccak_hash L) (hash_order E) dataset;
     (db_dir_v2, f) \<leftarrow> generate_temp_dir L f;
     (root_hash_v2, db_paths_v2, f) \<leftarrow> mpt_v2_insert L E address modified_dataset db_dir_v2 rand_v2 ([], f);
     f \<leftarrow> repeated n_v2 (mpt_v2_iter L E address root_hash_v2 db_paths_v2) f;
     remove_all_db L db_paths_v2 db_dir_v2 f
   }"

definition storage_trie_write_benchmark :: "('f, 'd, 'p, 'e, 'n) bench_lib \<Rightarrow> 't trie_lib \<Rightarrow> b32 \<Rightarrow>
    (bytes \<times> bytes) list \<Rightarrow> string list \<Rightarrow> string list \<Rightarrow> 'f \<Rightarrow> 'f option" where
  "storage_trie_write_benchmark L E address samples rands_v1 rands_v2 f = do {
     let dataset = generate_random_value_pair samples;
     (db_dir_v1, f) \<leftarrow> generate_temp_dir L f;
     (db_paths_v1, f) \<leftarrow> each_path (storage_trie_v1_insert L E address dataset db_dir_v1) rands_v1 ([], f);
     (_, f) \<leftarrow> measure_db_stats L db_paths_v1 f;
     f \<leftarrow> remove_all_db L db_paths_v1 db_dir_v1 f;
     (db_dir_v2, f) \<leftarrow> generate_temp_dir L f;
     (db_paths_v2, f) \<leftarrow> each_path (storage_trie_v2_insert L E address dataset db_dir_v2) rands_v2 ([], f);
     (_, f) \<leftarrow> measure_db_stats L db_paths_v2 f;
     remove_all_db L db_paths_v2 db_dir_v2 f
   }"

section \<open>The data as a map\<close>

definition proper :: "dataset \<Rightarrow> bool" where
  "proper dataset \<longleftrightarrow> distinct (map fst dataset) \<and> [] \<notin> snd ` set dataset"

lemma properI:
  "distinct (map fst dataset) \<Longrightarrow> (\<And>k. map_of dataset k \<noteq> Some []) \<Longrightarrow> proper dataset"
  by (fastforce simp: proper_def dest: map_of_is_SomeI)

lemma proper_content:
  assumes "proper dataset"
  shows "put_all dataset Map.empty = map_of dataset"
  using assms
  by (fastforce simp: proper_def put_all_def fun_eq_iff image_iff split: option.split dest: map_of_SomeD)

lemma proper_lookup: "proper dataset \<Longrightarrow> map_of dataset k \<noteq> Some []"
  by (force simp: proper_def dest: map_of_SomeD)

lemma proper_hm_insert: "proper dataset \<Longrightarrow> value \<noteq> [] \<Longrightarrow> proper (hm_insert key value dataset)"
  by (rule properI) (simp add: proper_def, simp only: map_of_hm_insert fun_upd_apply proper_lookup split: if_split, simp)

lemma proper_nil: "proper []"
  by (simp add: proper_def)

lemma generated_proper:
  assumes "samples_ok samples"
  shows "proper (generate_random_value_pair samples)"
proof -
  have "proper (fold (\<lambda>(key, value) dataset. hm_insert key value dataset) samples dataset)"
    if "proper dataset" for dataset
    using assms that
  proof (induction samples arbitrary: dataset)
    case (Cons sample samples)
    then have "proper (hm_insert (fst sample) (snd sample) dataset)"
      by (intro proper_hm_insert) (auto simp: samples_ok_def)
    from Cons.IH [OF _ this] Cons.prems(1) show ?case by (simp add: samples_ok_def split_beta)
  qed simp
  from this [OF proper_nil] show ?thesis by (simp add: generate_random_value_pair_def)
qed

text \<open>No key of the limited data has more than 32 bytes, and its values are values of the data.\<close>

lemma limited_data:
  fixes hash :: "bytes \<Rightarrow> b32" and dataset :: dataset
  assumes "visit_order ord" "proper dataset"
  defines "limited \<equiv> limit_key_length_by_keccak_hasher hash ord dataset"
  shows "proper limited" "\<And>key. key \<in> fst ` set limited \<Longrightarrow> length key \<le> 32"
proof -
  let ?ins = "\<lambda>(key, value) d. if length key > 32 then hm_insert (b32_bytes (hash key)) value d
    else hm_insert key value d"
  have "proper (fold ?ins kvs d) \<and> (\<forall>key \<in> fst ` set (fold ?ins kvs d). length key \<le> 32)"
    if "proper d" "\<forall>key \<in> fst ` set d. length key \<le> 32" "[] \<notin> snd ` set kvs" for kvs d
    using that
  proof (induction kvs arbitrary: d)
    case (Cons kv kvs)
    obtain key "value" where kv: "kv = (key, value)" by (cases kv)
    have v: "value \<noteq> []" using Cons.prems(3) by (auto simp: kv)
    show ?case
    proof (cases "length key > 32")
      case True
      have "proper (hm_insert (b32_bytes (hash key)) value d)"
        by (rule proper_hm_insert [OF Cons.prems(1) v])
      from Cons.IH [OF this] show ?thesis using Cons.prems True by (simp add: kv)
    next
      case False
      from Cons.IH [OF proper_hm_insert [OF Cons.prems(1) v, of key]] show ?thesis
        using Cons.prems False by (simp add: kv)
    qed
  qed simp
  from this [OF proper_nil, of "visit ord dataset"]
  have "proper limited \<and> (\<forall>key \<in> fst ` set limited. length key \<le> 32)"
    using assms by (simp add: limited_def limit_key_length_by_keccak_hasher_def proper_def visit_props)
  then show "proper limited" "\<And>key. key \<in> fst ` set limited \<Longrightarrow> length key \<le> 32" by auto
qed

section \<open>What the workloads rely on\<close>

type_synonym store = "bytes \<Rightarrow> bytes option"

fun write_applied :: "store_write \<Rightarrow> store \<Rightarrow> store" where
  "write_applied (Put key value) s = s(key \<mapsto> value)"
| "write_applied (Del key) s = s(key := None)"

definition stored :: "store option \<Rightarrow> store" where
  "stored s = (case s of None \<Rightarrow> Map.empty | Some s \<Rightarrow> s)"

text \<open>
  \<open>files f\<close> are the databases by path, \<open>opened d p f\<close> says that \<open>d\<close> is the only open database, at
  \<open>p\<close>, and \<open>idle f\<close> that none is open.  Opening creates a database that does not exist; a batch is
  applied in the order of its operations; removing the directory of a database removes it; cleaning
  up a temporary directory changes nothing but removes what is in it.
\<close>

locale bench_contract =
  fixes L :: "('f, 'd, 'p, 'e, 'n) bench_lib" and files :: "'f \<Rightarrow> string \<Rightarrow> store option"
    and opened :: "'d \<Rightarrow> string \<Rightarrow> 'f \<Rightarrow> bool" and idle :: "'f \<Rightarrow> bool"
  assumes open_default: "idle f \<Longrightarrow>
      \<exists>d f'. rk_open_default L p f = (Inr d, f') \<and> opened d p f' \<and> files f' = (files f)(p \<mapsto> stored (files f p))"
    and get: "opened d p f \<Longrightarrow> files f p = Some s \<Longrightarrow> rk_get L d f k = Inr (s k)"
    and write_ok: "opened d p f \<Longrightarrow> files f p = Some s \<Longrightarrow>
      \<exists>f'. rk_write L d ws f = (Inr (), f') \<and> opened d p f' \<and> files f' = (files f)(p \<mapsto> fold write_applied ws s)"
    and drop_db: "opened d p f \<Longrightarrow> idle (rk_drop L d f) \<and> files (rk_drop L d f) = files f"
    and property_value: "opened d p f \<Longrightarrow> name \<in> {estimate_num_keys L, estimate_live_data_size L} \<Longrightarrow>
      \<exists>v n. rk_property_value L d f name = Inr (Some v) \<and> parse_f64 L v = Inr n"
    and temp_dir: "idle f \<Longrightarrow> \<exists>dir f'. temp_dir_new L f = (Inr dir, f') \<and> idle f' \<and> files f' = files f"
    and child: "temp_dir_child L dir (''./.'' @ x) = temp_dir_child L dir (''./.'' @ y) \<Longrightarrow> x = y"
    and remove_dir: "idle f \<Longrightarrow> files f p \<noteq> None \<Longrightarrow>
      \<exists>f'. fs_remove_dir_all L p f = (Inr (), f') \<and> idle f' \<and> files f' = (files f)(p := None)"
    and cleanup: "idle f \<Longrightarrow>
      \<exists>f'. temp_dir_cleanup L dir f = (Inr (), f') \<and> idle f' \<and> (\<forall>p. files f' p = None \<or> files f' p = files f p)"
    and key_order: "finite K \<Longrightarrow> distinct (key_order L K) \<and> set (key_order L K) = K"

lemma puts_applied: "fold write_applied (map (\<lambda>key. Put key (the (i key))) ks) s =
  (\<lambda>k. if k \<in> set ks then Some (the (i k)) else s k)"
  by (induction ks arbitrary: s) (auto simp: fun_eq_iff)

lemma dels_applied: "fold write_applied (map Del ks) s = (\<lambda>k. if k \<in> set ks then None else s k)"
  by (induction ks arbitrary: s) (auto simp: fun_eq_iff)

definition bench_path :: "('f, 'd, 'p, 'e, 'n) bench_lib \<Rightarrow> 'p \<Rightarrow> string \<Rightarrow> string" where
  "bench_path L dir rand = temp_dir_child L dir (''./.'' @ rand)"

lemma generate_random_path_eq [simp]:
  "generate_random_path L dir rand db_paths = (bench_path L dir rand, db_paths @ [bench_path L dir rand])"
  by (simp add: generate_random_path_def bench_path_def Let_def)

lemma unwrap_io_Inr [simp]: "unwrap_io (Inr a, f) = Some (a, f)"
  by (simp add: unwrap_io_def)

context bench_contract
begin

text \<open>The batch has the effect of the changes, in whatever order they are visited.\<close>

lemma write_batch_ok:
  assumes o: "opened d p f" "files f p = Some s" and fin: "finite (dom ins)" "finite del"
  shows "\<exists>f'. write_batch L d ins del f = Some f' \<and> idle f' \<and>
    files f' = (files f)(p \<mapsto> apply_changes (ins, del) s)"
proof -
  let ?batch = "map (\<lambda>key. Put key (the (ins key))) (key_order L (dom ins)) @ map Del (key_order L del)"
  obtain f' where f': "rk_write L d ?batch f = (Inr (), f')" "opened d p f'"
    "files f' = (files f)(p \<mapsto> fold write_applied ?batch s)"
    using write_ok [OF o] by blast
  have "fold write_applied ?batch s = apply_changes (ins, del) s"
    using key_order [OF fin(1)] key_order [OF fin(2)]
    by (auto simp: fun_eq_iff puts_applied dels_applied apply_changes_def domIff split: option.split)
  then show ?thesis
    using f' drop_db [OF f'(2)] by (simp add: write_batch_def)
qed

lemma open_db_ok:
  assumes "idle f"
  shows "\<exists>d f'. open_db L p f = Some (d, f') \<and> opened d p f' \<and> files f' = (files f)(p \<mapsto> stored (files f p)) \<and>
    test_db_get L d f' = stored (files f p)"
proof -
  obtain d f' where f': "rk_open_default L p f = (Inr d, f')" "opened d p f'"
    "files f' = (files f)(p \<mapsto> stored (files f p))"
    using open_default [OF assms] by blast
  then have "files f' p = Some (stored (files f p))" by simp
  from get [OF f'(2) this] have "test_db_get L d f' = stored (files f p)"
    by (simp add: fun_eq_iff test_db_get_def)
  then show ?thesis using f' by (simp add: open_db_def)
qed

lemma mpt_insert_ok:
  assumes C: "trie_contract E M" and d: "proper dataset" and f: "idle f"
  shows "\<exists>root s f'. mpt_insert L E V address dataset dir rand (db_paths, f) =
      Some (root, db_paths @ [bench_path L dir rand], f') \<and> idle f' \<and>
    files f' = (files f)(bench_path L dir rand \<mapsto> s) \<and>
    mpt_holds M (mpt_open (kdb_new V s (b32_bytes address)) root) (map_of dataset)"
proof -
  let ?p = "bench_path L dir rand"
  let ?s = "stored (files f ?p)"
  obtain test_db f1 where o: "open_db L ?p f = Some (test_db, f1)" "opened test_db ?p f1"
    "files f1 = (files f)(?p \<mapsto> ?s)" "test_db_get L test_db f1 = ?s"
    using open_db_ok [OF f] by blast
  have new: "trie_on M V (b32_bytes address) ?s Map.empty (mpt_new E (kdb_new V ?s (b32_bytes address)))"
    by (rule trie_on_new [OF C])
  obtain t where t: "mpt_batch_set E (mpt_new E (kdb_new V ?s (b32_bytes address))) dataset = (Inr (), t)"
    "trie_on M V (b32_bytes address) ?s (map_of dataset) t"
    using mpt_batch_set_ok [OF C trie_onD [OF new], of dataset] trie_on_frame [OF new] d
    by (auto simp: proper_content proper_def)
  let ?c = "fst (mpt_close t)"
  have fin: "finite (dom (fst ?c))" "finite (fst (snd ?c))"
    using t(2) by (simp_all add: trie_on_def kdb_inv_def mpt_close_ok)
  have "files f1 ?p = Some ?s" using o(3) by simp
  from write_batch_ok [OF o(2) this fin] obtain f2 where
    w: "write_batch L test_db (fst ?c) (fst (snd ?c)) f1 = Some f2" "idle f2"
      "files f2 = (files f)(?p \<mapsto> apply_mpt_changes ?c ?s)"
    using o(3) by (auto simp: apply_mpt_changes_def)
  obtain changes t' where c: "mpt_close t = (changes, t')" by (cases "mpt_close t")
  have "mpt_insert L E V address dataset dir rand (db_paths, f) = Some (snd (snd ?c), db_paths @ [?p], f2)"
    using o(1,4) t(1) w(1) by (simp add: mpt_insert_def mpt_unsafe_new_def kdb_unsafe_new_def c)
  then show ?thesis using w(2,3) trie_onD [OF trie_on_reopen [OF t(2)]] by blast
qed

lemma mpt_iter_ok:
  assumes f: "idle f" "files f path = Some s"
  shows "\<exists>test_db f1 f2. mpt_iter_open L V address root (path # db_paths) f =
      Some (mpt_open (kdb_new V s (b32_bytes address)) root, test_db, f1) \<and>
    mpt_iter L E V address root (path # db_paths) f = Some f2 \<and> idle f2 \<and> files f2 = files f"
proof -
  obtain test_db f1 where o: "open_db L path f = Some (test_db, f1)" "opened test_db path f1"
    "files f1 = (files f)(path \<mapsto> s)" "test_db_get L test_db f1 = s"
    using open_db_ok [OF f(1), of path] f(2) by (auto simp: stored_def)
  have "files f1 = files f" using o(3) f(2) by (simp add: fun_upd_idem)
  then show ?thesis
    using o(1,4) drop_db [OF o(2)]
    by (simp add: mpt_iter_def mpt_iter_open_def kdb_unsafe_new_def)
qed

lemma storage_trie_insert_ok:
  assumes C: "merkle_trie E M" and d: "proper dataset" and f: "idle f"
  shows "\<exists>root s f' m. storage_trie_insert L E V address dataset dir rand (db_paths, f) =
      Some (root, db_paths @ [bench_path L dir rand], f') \<and> idle f' \<and>
    files f' = (files f)(bench_path L dir rand \<mapsto> s) \<and>
    ws_rel M (ws_open V s root) m ((\<lambda>_. Map.empty)(address := map_of dataset))"
proof -
  note C' = merkle_contract [OF C]
  let ?p = "bench_path L dir rand"
  let ?s = "stored (files f ?p)"
  let ?w = "ws_new E V ?s"
  obtain test_db f1 where o1: "open_db L ?p f = Some (test_db, f1)" "opened test_db ?p f1"
    "files f1 = (files f)(?p \<mapsto> ?s)" "test_db_get L test_db f1 = ?s"
    using open_db_ok [OF f] by blast
  note w = ws_new_ok [OF C', of V ?s]
  have db: "ws_db ?w = ?s" by (simp add: ws_new_def)
  obtain T w1 m1 where o: "ws_storage_trie_mut E ?w address = Some (Inr T, w1)" "st_holds M T Map.empty"
    "map_of (storage_trie_map w1) address = Some T" "ws_rel M w1 m1 (\<lambda>_. Map.empty)" "ws_version w1 = V"
    "ws_db w1 = ?s" "V = V2 \<longrightarrow> ws_apart w1"
    using ws_storage_trie_mut_ok [OF C' w(1), of address, unfolded w(2) db] w(3) by blast
  obtain T' where T': "st_batch_set E T dataset = (Inr (), T')" "st_holds M T' (map_of dataset)"
    "same_frame (st_trie T) (st_trie T')"
    using st_batch_set_ok [OF C' o(2), of dataset] d by (auto simp: proper_content proper_def)
  let ?w2 = "ws_put_storage address T' w1"
  note rel = ws_put_storage_ok [OF o(4,3) T'(2,3)]
  have v: "ws_version ?w2 = V" "ws_db ?w2 = ?s" using o(5,6) by simp_all
  have edit: "edit_storage E address (\<lambda>T. st_batch_set E T dataset) ?w = Some (Unit, ?w2)"
    by (simp add: edit_storage_def o(1) T'(1))
  have "separate E M ?w2"
  proof (cases V)
    case V1
    then show ?thesis using v1_tries_separate [OF C rel] v(1) by simp
  next
    case V2
    then have "ws_apart ?w2" using ws_apart_put_storage [OF o(4) _ _ o(3) T'(3)] o(5,7) by simp
    then show ?thesis using v2_separate [OF C' rel] v(1) V2 by simp
  qed
  from ws_close_ok [OF C' rel this] obtain ins del root w3 m3 where
    c: "ws_close E ?w2 = (Inr (ins, del, root), w3)"
      "ws_rel M (ws_open V (apply_changes (ins, del) ?s) root) m3 ((\<lambda>_. Map.empty)(address := map_of dataset))"
    unfolding v by blast
  have "files f1 ?p = Some ?s" using o1(3) by simp
  from write_batch_ok [OF o1(2) this ws_close_finite [OF C' rel c(1)]] obtain f2 where
    "write_batch L test_db ins del f1 = Some f2" "idle f2" "files f2 = (files f)(?p \<mapsto> apply_changes (ins, del) ?s)"
    using o1(3) by auto
  then show ?thesis
    using c o1(1,4) edit by (simp add: storage_trie_insert_def unwrap_def) blast
qed

text \<open>Databases may be removed, but no other changes.\<close>

definition removed :: "'f \<Rightarrow> 'f \<Rightarrow> bool" where
  "removed f f' \<longleftrightarrow> idle f' \<and> (\<forall>p. files f' p = None \<or> files f' p = files f p)"

lemma removed_trans: "removed f g \<Longrightarrow> removed g h \<Longrightarrow> removed f h"
  unfolding removed_def by metis

lemma each_path_ok:
  assumes "\<And>rand db_paths f. idle f \<Longrightarrow> \<exists>root s f'. routine rand (db_paths, f) =
      Some (root, db_paths @ [bench_path L dir rand], f') \<and> idle f' \<and> files f' = (files f)(bench_path L dir rand \<mapsto> s)"
  shows "idle f \<Longrightarrow> \<exists>f'. each_path routine rands (db_paths, f) = Some (db_paths @ map (bench_path L dir) rands, f') \<and>
    idle f' \<and> (\<forall>p. if p \<in> set (map (bench_path L dir) rands) then files f' p \<noteq> None else files f' p = files f p)"
proof (induction rands arbitrary: db_paths f)
  case (Cons rand rands)
  let ?p = "bench_path L dir rand"
  obtain root s f1 where r: "routine rand (db_paths, f) = Some (root, db_paths @ [?p], f1)" "idle f1"
    "files f1 = (files f)(?p \<mapsto> s)"
    using assms [OF Cons.prems] by blast
  obtain f' where f': "each_path routine rands (db_paths @ [?p], f1) =
      Some ((db_paths @ [?p]) @ map (bench_path L dir) rands, f')" "idle f'"
    "\<forall>p. if p \<in> set (map (bench_path L dir) rands) then files f' p \<noteq> None else files f' p = files f1 p"
    using Cons.IH [OF r(2), of "db_paths @ [?p]"] by blast
  then show ?case
    using r by (intro exI [of _ f']) (auto split: if_splits)
qed simp

lemma measure_db_stats_ok:
  "idle f \<Longrightarrow> \<forall>p \<in> set ps. files f p \<noteq> None \<Longrightarrow>
     \<exists>stats f'. measure_db_stats L ps f = Some (stats, f') \<and> idle f' \<and> files f' = files f"
proof (induction ps arbitrary: f)
  case (Cons p ps)
  obtain s where s: "files f p = Some s" using Cons.prems(2) by auto
  obtain test_db f1 where o: "open_db L p f = Some (test_db, f1)" "opened test_db p f1"
    "files f1 = (files f)(p \<mapsto> stored (files f p))"
    using open_db_ok [OF Cons.prems(1)] by blast
  have same: "files f1 = files f" using o(3) s by (simp add: stored_def fun_upd_idem)
  obtain k n where k: "rk_property_value L test_db f1 (estimate_num_keys L) = Inr (Some k)" "parse_f64 L k = Inr n"
    using property_value [OF o(2), of "estimate_num_keys L"] by auto
  obtain z x where z: "rk_property_value L test_db f1 (estimate_live_data_size L) = Inr (Some z)" "parse_f64 L z = Inr x"
    using property_value [OF o(2), of "estimate_live_data_size L"] by auto
  obtain stats f' where "measure_db_stats L ps (rk_drop L test_db f1) = Some (stats, f')" "idle f'" "files f' = files f"
    using Cons.IH [of "rk_drop L test_db f1"] Cons.prems(2) drop_db [OF o(2)] same by auto
  then show ?case using o(1) k z by (simp add: unwrap_def)
qed simp

lemma remove_dirs_ok:
  "idle f \<Longrightarrow> distinct ps \<Longrightarrow> \<forall>p \<in> set ps. files f p \<noteq> None \<Longrightarrow>
     \<exists>f'. remove_dirs L ps f = Some f' \<and> idle f' \<and> files f' = (\<lambda>p. if p \<in> set ps then None else files f p)"
proof (induction ps arbitrary: f)
  case (Cons p ps)
  obtain f1 where f1: "fs_remove_dir_all L p f = (Inr (), f1)" "idle f1" "files f1 = (files f)(p := None)"
    using remove_dir [OF Cons.prems(1), of p] Cons.prems(3) by auto
  have "\<forall>q \<in> set ps. files f1 q \<noteq> None"
    unfolding f1(3) using Cons.prems(2,3) by auto
  then obtain f' where "remove_dirs L ps f1 = Some f'" "idle f'"
    "files f' = (\<lambda>q. if q \<in> set ps then None else files f1 q)"
    using Cons.IH [OF f1(2)] Cons.prems(2) by auto
  then show ?case using f1 by (auto simp: fun_eq_iff)
qed simp

lemma remove_all_db_ok:
  assumes "idle g" "distinct ps"
    and "\<forall>p. if p \<in> set ps then files g p \<noteq> None else files g p = files f p"
  shows "\<exists>f'. remove_all_db L ps dir g = Some f' \<and> removed f f'"
proof -
  have "\<forall>p \<in> set ps. files g p \<noteq> None" using assms(3) by simp
  then obtain g1 where g1: "remove_dirs L ps g = Some g1" "idle g1"
    "files g1 = (\<lambda>p. if p \<in> set ps then None else files g p)"
    using remove_dirs_ok [OF assms(1,2)] by blast
  obtain g2 where g2: "temp_dir_cleanup L dir g1 = (Inr (), g2)" "idle g2"
    "\<forall>p. files g2 p = None \<or> files g2 p = files g1 p"
    using cleanup [OF g1(2)] by blast
  have "files g1 p = None \<or> files g1 p = files f p" for p
    using assms(3) by (auto simp: g1(3) split: if_splits)
  then have "removed f g2" unfolding removed_def using g2(2,3) by fastforce
  then show ?thesis using g1(1) g2(1) by (simp add: remove_all_db_def)
qed

lemma distinct_paths: "distinct rands \<Longrightarrow> distinct (map (bench_path L dir) rands)"
  using child by (fastforce simp: distinct_map inj_on_def bench_path_def)

text \<open>One half of a benchmark: a directory, the routine, the statistics and the removal.\<close>

lemma write_half:
  assumes "\<And>dir rand db_paths f. idle f \<Longrightarrow> \<exists>root s f'. routine dir rand (db_paths, f) =
      Some (root, db_paths @ [bench_path L dir rand], f') \<and> idle f' \<and> files f' = (files f)(bench_path L dir rand \<mapsto> s)"
    and "distinct rands" "idle f"
  shows "\<exists>dir f1 ps f2 stats f3 f'. generate_temp_dir L f = Some (dir, f1) \<and>
    each_path (routine dir) rands ([], f1) = Some (ps, f2) \<and> measure_db_stats L ps f2 = Some (stats, f3) \<and>
    remove_all_db L ps dir f3 = Some f' \<and> removed f f'"
proof -
  obtain dir f1 where t: "generate_temp_dir L f = Some (dir, f1)" "idle f1" "files f1 = files f"
    using temp_dir [OF assms(3)] by (auto simp: generate_temp_dir_def)
  let ?ps = "map (bench_path L dir) rands"
  obtain f2 where f2: "each_path (routine dir) rands ([], f1) = Some (?ps, f2)" "idle f2"
    "\<forall>p. if p \<in> set ?ps then files f2 p \<noteq> None else files f2 p = files f p"
    using each_path_ok [OF assms(1) t(2), of dir rands "[]"] t(3) by auto
  have "\<forall>p \<in> set ?ps. files f2 p \<noteq> None" using f2(3) by metis
  then obtain stats f3 where f3: "measure_db_stats L ?ps f2 = Some (stats, f3)" "idle f3" "files f3 = files f2"
    using measure_db_stats_ok [OF f2(2)] by blast
  have "\<forall>p. if p \<in> set ?ps then files f3 p \<noteq> None else files f3 p = files f p" using f2(3) f3(3) by simp
  then obtain f' where "remove_all_db L ?ps dir f3 = Some f'" "removed f f'"
    using remove_all_db_ok [OF f3(2) distinct_paths [OF assms(2)]] by blast
  then show ?thesis using t(1) f2(1) f3(1) by blast
qed

lemma write_benchmark_ok:
  assumes "\<And>dir rand db_paths f. idle f \<Longrightarrow> \<exists>root s f'. routine_v1 dir rand (db_paths, f) =
      Some (root, db_paths @ [bench_path L dir rand], f') \<and> idle f' \<and> files f' = (files f)(bench_path L dir rand \<mapsto> s)"
    and "\<And>dir rand db_paths f. idle f \<Longrightarrow> \<exists>root s f'. routine_v2 dir rand (db_paths, f) =
      Some (root, db_paths @ [bench_path L dir rand], f') \<and> idle f' \<and> files f' = (files f)(bench_path L dir rand \<mapsto> s)"
    and "distinct rands_v1" "distinct rands_v2" "idle f"
  shows "\<exists>f'. do {
     (db_dir_v1, f) \<leftarrow> generate_temp_dir L f;
     (db_paths_v1, f) \<leftarrow> each_path (routine_v1 db_dir_v1) rands_v1 ([], f);
     (_, f) \<leftarrow> measure_db_stats L db_paths_v1 f;
     f \<leftarrow> remove_all_db L db_paths_v1 db_dir_v1 f;
     (db_dir_v2, f) \<leftarrow> generate_temp_dir L f;
     (db_paths_v2, f) \<leftarrow> each_path (routine_v2 db_dir_v2) rands_v2 ([], f);
     (_, f) \<leftarrow> measure_db_stats L db_paths_v2 f;
     remove_all_db L db_paths_v2 db_dir_v2 f
   } = Some f' \<and> removed f f'"
proof -
  obtain dir1 f1 ps1 g1 st1 h1 f2 where 1: "generate_temp_dir L f = Some (dir1, f1)"
    "each_path (routine_v1 dir1) rands_v1 ([], f1) = Some (ps1, g1)" "measure_db_stats L ps1 g1 = Some (st1, h1)"
    "remove_all_db L ps1 dir1 h1 = Some f2" "removed f f2"
    using write_half [where routine = routine_v1, OF assms(1,3,5)] by blast
  have "idle f2" using 1(5) by (simp add: removed_def)
  then obtain dir2 f3 ps2 g2 st2 h2 f' where 2: "generate_temp_dir L f2 = Some (dir2, f3)"
    "each_path (routine_v2 dir2) rands_v2 ([], f3) = Some (ps2, g2)" "measure_db_stats L ps2 g2 = Some (st2, h2)"
    "remove_all_db L ps2 dir2 h2 = Some f'" "removed f2 f'"
    using write_half [where routine = routine_v2, OF assms(2,4)] by blast
  then show ?thesis using 1 removed_trans [OF 1(5) 2(5)] by simp
qed

lemma repeated_ok:
  assumes "\<And>f. idle f \<Longrightarrow> files f p = Some s \<Longrightarrow> \<exists>f'. routine f = Some f' \<and> idle f' \<and> files f' = files f"
  shows "idle f \<Longrightarrow> files f p = Some s \<Longrightarrow> \<exists>f'. repeated n routine f = Some f' \<and> idle f' \<and> files f' = files f"
proof (induction n arbitrary: f)
  case (Suc n)
  obtain f1 where f1: "routine f = Some f1" "idle f1" "files f1 = files f" using assms Suc.prems by blast
  then show ?case using Suc.IH [of f1] Suc.prems(2) by auto
qed simp

lemma read_half:
  assumes C: "trie_contract E M" and d: "proper dataset" and f: "idle f"
  shows "\<exists>dir f1 root ps f2 f3 f'. generate_temp_dir L f = Some (dir, f1) \<and>
    mpt_insert L E V address dataset dir rand ([], f1) = Some (root, ps, f2) \<and>
    repeated n (mpt_iter L E V address root ps) f2 = Some f3 \<and>
    remove_all_db L ps dir f3 = Some f' \<and> removed f f'"
proof -
  obtain dir f1 where t: "generate_temp_dir L f = Some (dir, f1)" "idle f1" "files f1 = files f"
    using temp_dir [OF f] by (auto simp: generate_temp_dir_def)
  let ?p = "bench_path L dir rand"
  obtain root s f2 where w: "mpt_insert L E V address dataset dir rand ([], f1) = Some (root, [?p], f2)"
    "idle f2" "files f2 = (files f)(?p \<mapsto> s)"
    using mpt_insert_ok [OF C d t(2), of V address dir rand "[]"] t(3) by auto
  have "\<exists>g'. mpt_iter L E V address root [?p] g = Some g' \<and> idle g' \<and> files g' = files g"
    if "idle g" "files g ?p = Some s" for g
    using mpt_iter_ok [OF that, of V address root "[]" E] by blast
  moreover have "files f2 ?p = Some s" using w(3) by simp
  ultimately obtain f3 where
    r: "repeated n (mpt_iter L E V address root [?p]) f2 = Some f3" "idle f3" "files f3 = files f2"
    using repeated_ok [where p = ?p and s = s] w(2) by blast
  have all: "\<forall>p. if p \<in> set [?p] then files f3 p \<noteq> None else files f3 p = files f p" using r(3) w(3) by simp
  have "distinct [?p]" by simp
  from remove_all_db_ok [OF r(2) this all] obtain f' where
    "remove_all_db L [?p] dir f3 = Some f'" "removed f f'" by blast
  then show ?thesis using t(1) w(1) r(1) by blast
qed

lemma read_benchmark_ok:
  assumes C: "trie_contract E M" and d: "proper dataset_v1" "proper dataset_v2" and f: "idle f"
  shows "\<exists>f'. do {
     (db_dir_v1, f) \<leftarrow> generate_temp_dir L f;
     (root_hash_v1, db_paths_v1, f) \<leftarrow> mpt_insert L E V1 address dataset_v1 db_dir_v1 rand_v1 ([], f);
     f \<leftarrow> repeated n_v1 (mpt_iter L E V1 address root_hash_v1 db_paths_v1) f;
     f \<leftarrow> remove_all_db L db_paths_v1 db_dir_v1 f;
     (db_dir_v2, f) \<leftarrow> generate_temp_dir L f;
     (root_hash_v2, db_paths_v2, f) \<leftarrow> mpt_insert L E V2 address dataset_v2 db_dir_v2 rand_v2 ([], f);
     f \<leftarrow> repeated n_v2 (mpt_iter L E V2 address root_hash_v2 db_paths_v2) f;
     remove_all_db L db_paths_v2 db_dir_v2 f
   } = Some f' \<and> removed f f'"
proof -
  obtain dir1 f1 r1 ps1 g1 h1 f2 where 1: "generate_temp_dir L f = Some (dir1, f1)"
    "mpt_insert L E V1 address dataset_v1 dir1 rand_v1 ([], f1) = Some (r1, ps1, g1)"
    "repeated n_v1 (mpt_iter L E V1 address r1 ps1) g1 = Some h1"
    "remove_all_db L ps1 dir1 h1 = Some f2" "removed f f2"
    using read_half [OF C d(1) f] by blast
  have "idle f2" using 1(5) by (simp add: removed_def)
  then obtain dir2 f3 r2 ps2 g2 h2 f' where 2: "generate_temp_dir L f2 = Some (dir2, f3)"
    "mpt_insert L E V2 address dataset_v2 dir2 rand_v2 ([], f3) = Some (r2, ps2, g2)"
    "repeated n_v2 (mpt_iter L E V2 address r2 ps2) g2 = Some h2"
    "remove_all_db L ps2 dir2 h2 = Some f'" "removed f2 f'"
    using read_half [OF C d(2)] by blast
  then show ?thesis using 1 removed_trans [OF 1(5) 2(5)] by simp
qed

end

section \<open>Databases in memory\<close>

text \<open>An instance of the contract: a map from paths to databases, and the path of the open one.\<close>

type_synonym flat_files = "(string \<Rightarrow> store option) \<times> string option"

definition flat_bench :: "(flat_files, string, unit, unit, unit) bench_lib" where
  "flat_bench = \<lparr>
     rk_open_default = (\<lambda>p f. (Inr p, ((fst f)(p \<mapsto> stored (fst f p)), Some p))),
     rk_get = (\<lambda>d f k. Inr (stored (fst f d) k)),
     rk_write = (\<lambda>d ws f. (Inr (), ((fst f)(d \<mapsto> fold write_applied ws (stored (fst f d))), snd f))),
     rk_property_value = (\<lambda>d f name. Inr (Some ''0'')),
     rk_drop = (\<lambda>d f. (fst f, None)),
     estimate_num_keys = ''rocksdb.estimate-num-keys'',
     estimate_live_data_size = ''rocksdb.estimate-live-data-size'',
     parse_f64 = (\<lambda>_. Inr ()),
     temp_dir_new = (\<lambda>f. (Inr (), f)),
     temp_dir_child = (\<lambda>_ name. name),
     temp_dir_cleanup = (\<lambda>_ f. (Inr (), f)),
     fs_remove_dir_all = (\<lambda>p f. if fst f p = None then (Inl (), f) else (Inr (), ((fst f)(p := None), snd f))),
     keccak_hash = (\<lambda>_. b32_fill 0),
     key_order = sorted_list_of_set\<rparr>"

definition flat_opened :: "string \<Rightarrow> string \<Rightarrow> flat_files \<Rightarrow> bool" where
  "flat_opened d p f \<longleftrightarrow> d = p \<and> snd f = Some p"

definition flat_idle :: "flat_files \<Rightarrow> bool" where
  "flat_idle f \<longleftrightarrow> snd f = None"

interpretation flat_bench: bench_contract flat_bench fst flat_opened flat_idle
  by unfold_locales (auto simp: flat_bench_def flat_opened_def flat_idle_def stored_def)

section \<open>Properties\<close>

text \<open>
  C34: What the benchmarks write is what they read.  On every database library and temporary
  directory under the contract, and in either version, the trie workload returns without a panic
  with the path of a new database, in which the iteration workload, opening it at the returned root,
  iterates a trie whose entries are those of the data, each once, for every callback; the iteration
  workload itself returns and leaves the databases as they were.  The storage workload returns a root
  at which a world state on the written database has the data in the storage of the address and no
  other storage.  The data prepared for version 2 has keys of at most 32 bytes.
\<close>

theorem benchmark_workloads:
  assumes C: "merkle_trie E M" and B: "bench_contract L files opened idle" and f: "idle f"
    and s: "samples_ok samples"
    and d: "dataset = generate_random_value_pair samples \<or>
      dataset = limit_key_length_by_keccak_hasher (keccak_hash L) (hash_order E) (generate_random_value_pair samples)"
  shows "(\<exists>root path f1 mpt test_db f2 f3.
      mpt_insert L E V address dataset dir rand ([], f) = Some (root, [path], f1) \<and>
      mpt_iter_open L V address root [path] f1 = Some (mpt, test_db, f2) \<and>
      (\<exists>xs. mset xs = mset dataset \<and>
         mpt_iterate_all E mpt from g st = try_fold (\<lambda>(key, value). g key value) xs st) \<and>
      mpt_iter L E V address root [path] f1 = Some f3 \<and> files f3 = files f1) \<and>
    (\<exists>root path f1 s m. storage_trie_insert L E V address dataset dir rand ([], f) = Some (root, [path], f1) \<and>
      files f1 path = Some s \<and>
      ws_rel M (ws_open V s root) m ((\<lambda>_. Map.empty)(address := map_of dataset))) \<and>
    (\<forall>key \<in> fst ` set (limit_key_length_by_keccak_hasher (keccak_hash L) (hash_order E) dataset). length key \<le> 32)"
proof (intro conjI)
  note C' = merkle_contract [OF C]
  have p: "proper dataset"
    using d generated_proper [OF s] limited_data(1) [OF trie_visit [OF C']] by blast
  let ?p = "bench_path L dir rand"
  obtain root s f1 where w: "mpt_insert L E V address dataset dir rand ([], f) = Some (root, [?p], f1)"
    "idle f1" "files f1 = (files f)(?p \<mapsto> s)"
    "mpt_holds M (mpt_open (kdb_new V s (b32_bytes address)) root) (map_of dataset)"
    using bench_contract.mpt_insert_ok [OF B C' p f, of V address dir rand "[]"] by auto
  have s: "files f1 ?p = Some s" using w(3) by simp
  obtain xs where xs: "distinct (map fst xs)" "map_of xs = map_of dataset"
    "mpt_iterate_all E (mpt_open (kdb_new V s (b32_bytes address)) root) from g st =
       try_fold (\<lambda>(key, value). g key value) xs st"
    by (rule mpt_iterate_all_ok [OF C' w(4)])
  have "distinct (map fst dataset)" using p by (simp add: proper_def)
  then have "mset xs = mset dataset"
    using map_of_inject_set [OF xs(1), of dataset] xs(1,2) by (simp add: set_eq_iff_mset_eq_distinct distinct_map)
  then show "\<exists>root path f1 mpt test_db f2 f3.
      mpt_insert L E V address dataset dir rand ([], f) = Some (root, [path], f1) \<and>
      mpt_iter_open L V address root [path] f1 = Some (mpt, test_db, f2) \<and>
      (\<exists>xs. mset xs = mset dataset \<and>
         mpt_iterate_all E mpt from g st = try_fold (\<lambda>(key, value). g key value) xs st) \<and>
      mpt_iter L E V address root [path] f1 = Some f3 \<and> files f3 = files f1"
    using w(1) xs(3) bench_contract.mpt_iter_ok [OF B w(2) s, of V address root "[]" E] by blast
  show "\<exists>root path f1 s m. storage_trie_insert L E V address dataset dir rand ([], f) = Some (root, [path], f1) \<and>
      files f1 path = Some s \<and>
      ws_rel M (ws_open V s root) m ((\<lambda>_. Map.empty)(address := map_of dataset))"
    using bench_contract.storage_trie_insert_ok [OF B C p f, of V address dir rand "[]"] by fastforce
  show "\<forall>key \<in> fst ` set (limit_key_length_by_keccak_hasher (keccak_hash L) (hash_order E) dataset). length key \<le> 32"
    using limited_data(2) [OF trie_visit [OF C'] p] by blast
qed

theorem benchmark_workloads_witness:
  "\<exists>root path f1 mpt test_db f2 f3.
     mpt_insert flat_bench flat_lib V1 (b32_fill 7) [([1], [2])] () ''a'' ([], (Map.empty, None)) =
       Some (root, [path], f1) \<and>
     mpt_iter_open flat_bench V1 (b32_fill 7) root [path] f1 = Some (mpt, test_db, f2) \<and>
     mpt_iterate_all flat_lib mpt id (\<lambda>key value out. Inr (out @ [(key, value)])) [] = Inr [([1], [2])] \<and>
     mpt_iter flat_bench flat_lib V1 (b32_fill 7) root [path] f1 = Some f3"
proof -
  let ?f = "(Map.empty, None) :: flat_files"
  have f: "flat_idle ?f" by (simp add: flat_idle_def)
  have s: "samples_ok [([1], [2])]" by (simp add: samples_ok_def)
  have d: "[([1], [2])] = generate_random_value_pair [([1], [2])]" by (simp add: generate_random_value_pair_def)
  from benchmark_workloads [OF flat_merkle flat_bench.bench_contract_axioms f s disjI1 [OF d],
      of V1 "b32_fill 7" "()" "''a''" id "\<lambda>key value out. Inr (out @ [(key, value)])" "[]"]
  show ?thesis by fastforce
qed

text \<open>
  C40: The benchmarks run to their end without a panic on every database library and temporary
  directory under the contract, for all samples of the generated lengths (1 to 63 bytes, keys and values
  alike), however often the driver runs the routines, starting with no database open, as long
  as the random names of one directory differ.  No database is open at the end, and none is left that
  was not there before; the databases that are left are unchanged.
\<close>

theorem benchmarks_run:
  assumes C: "merkle_trie E M" and B: "bench_contract L files opened idle" and f: "idle f"
    and s: "samples_ok samples" and r: "distinct rands_v1" "distinct rands_v2"
  shows "(\<exists>f'. mpt_write_benchmark L E address samples rands_v1 rands_v2 f = Some f' \<and> idle f' \<and>
      (\<forall>p. files f' p = None \<or> files f' p = files f p)) \<and>
    (\<exists>f'. mpt_read_benchmark L E address samples rand_v1 rand_v2 n_v1 n_v2 f = Some f' \<and> idle f' \<and>
      (\<forall>p. files f' p = None \<or> files f' p = files f p)) \<and>
    (\<exists>f'. storage_trie_write_benchmark L E address samples rands_v1 rands_v2 f = Some f' \<and> idle f' \<and>
      (\<forall>p. files f' p = None \<or> files f' p = files f p))"
proof -
  note C' = merkle_contract [OF C]
  note insert = bench_contract.mpt_insert_ok [OF B C'] bench_contract.storage_trie_insert_ok [OF B C]
    and removed = bench_contract.removed_def [OF B]
    and run = bench_contract.write_benchmark_ok [OF B, unfolded removed]
  have d: "proper (generate_random_value_pair samples)"
    "proper (limit_key_length_by_keccak_hasher (keccak_hash L) (hash_order E) (generate_random_value_pair samples))"
    using generated_proper [OF s] limited_data(1) [OF trie_visit [OF C']] by blast+
  show ?thesis
  proof (intro conjI)
    show "\<exists>f'. mpt_write_benchmark L E address samples rands_v1 rands_v2 f = Some f' \<and> idle f' \<and>
        (\<forall>p. files f' p = None \<or> files f' p = files f p)"
      unfolding mpt_write_benchmark_def mpt_v1_insert_def mpt_v2_insert_def Let_def
      by (rule run [OF _ _ r f]) (use insert(1) [OF d(1)] insert(1) [OF d(2)] in blast)+
    show "\<exists>f'. storage_trie_write_benchmark L E address samples rands_v1 rands_v2 f = Some f' \<and> idle f' \<and>
        (\<forall>p. files f' p = None \<or> files f' p = files f p)"
      unfolding storage_trie_write_benchmark_def storage_trie_v1_insert_def storage_trie_v2_insert_def Let_def
      by (rule run [OF _ _ r f]) (use insert(2) [OF d(1)] in blast)+
    show "\<exists>f'. mpt_read_benchmark L E address samples rand_v1 rand_v2 n_v1 n_v2 f = Some f' \<and> idle f' \<and>
        (\<forall>p. files f' p = None \<or> files f' p = files f p)"
      unfolding mpt_read_benchmark_def mpt_v1_insert_def mpt_v2_insert_def mpt_v1_iter_def mpt_v2_iter_def Let_def
      by (rule bench_contract.read_benchmark_ok [OF B C' d f, unfolded removed])
  qed
qed

theorem benchmarks_run_witness:
  "\<exists>f'. mpt_read_benchmark flat_bench flat_lib (b32_fill 7) [([1], [2])] ''a'' ''b'' 2 3 (Map.empty, None) = Some f' \<and>
     flat_idle f' \<and> (\<forall>p. fst f' p = None)"
proof -
  let ?f = "(Map.empty, None) :: flat_files"
  have f: "flat_idle ?f" by (simp add: flat_idle_def)
  have s: "samples_ok [([1], [2])]" by (simp add: samples_ok_def)
  from benchmarks_run [OF flat_merkle flat_bench.bench_contract_axioms f s, of "[''a'']" "[''b'']"]
  show ?thesis by simp
qed

end
