(* ===== verification/Heap_Runs.thy ===== *)
theory Heap_Runs
  imports Index_Heap
begin

text \<open>
  Runs of the heap operations: how many rounds the two heapify loops make on any store at
  all, and what extracting until the heap is empty gives.  \<open>check_order\<close> is the check of the
  unit tests of \<open>index_heap.rs\<close>, which the tests run on random heaps and the theorem settles
  for every heap.
\<close>

section \<open>The rounds of the heapify loops\<close>

text \<open>\<open>k\<close> rounds of a loop from one index and store to another.\<close>

inductive down_rounds :: "'s nas \<Rightarrow> 'v vops \<Rightarrow> index_map \<Rightarrow> u32 \<Rightarrow> nat \<Rightarrow> u32 \<Rightarrow> 's \<Rightarrow> u32 \<Rightarrow> 's \<Rightarrow> bool"
  for N P m len where
  down_0: "down_rounds N P m len 0 i s i s"
| down_Suc: "ih_down_step N P m i len s = Some (Some j, t) \<Longrightarrow> down_rounds N P m len k j t i' s' \<Longrightarrow>
    down_rounds N P m len (Suc k) i s i' s'"

inductive up_rounds :: "'s nas \<Rightarrow> 'v vops \<Rightarrow> index_map \<Rightarrow> nat \<Rightarrow> u32 \<Rightarrow> 's \<Rightarrow> u32 \<Rightarrow> 's \<Rightarrow> bool"
  for N P m where
  up_0: "up_rounds N P m 0 i s i s"
| up_Suc: "ih_up_step N P m i s = Some (Some j, t) \<Longrightarrow> up_rounds N P m k j t i' s' \<Longrightarrow>
    up_rounds N P m (Suc k) i s i' s'"

lemma ih_down_step_doubles:
  assumes "ih_down_step N P m index len s = Some (Some i, s')"
  shows "2 * (unat index + 1) \<le> unat i + 1 \<and> unat i < unat len"
proof -
  obtain twice left right where a: "u32_mul 2 index = Some twice" "u32_add twice 1 = Some left"
    "u32_add twice 2 = Some right"
    using assms by (auto simp: ih_down_step_def bind_eq_Some_conv)
  have b: "unat left = 2 * unat index + 1" "unat right = 2 * unat index + 2"
    using u32_mul_SomeD [OF a(1)] u32_add_SomeD [OF a(2)] u32_add_SomeD [OF a(3)] by simp_all
  have "i = left \<and> left < len \<or> i = right \<and> right < len"
    using assms by (auto simp: ih_down_step_def a bind_eq_Some_conv split: if_splits)
  then show ?thesis using b by (auto simp: word_less_nat_alt)
qed

lemma ih_up_step_halves:
  assumes "ih_up_step N P m index s = Some (Some i, s')"
  shows "2 * (unat i + 1) \<le> unat index + 1"
proof -
  obtain pred where a: "u32_sub index 1 = Some pred" "i = pred div 2" "index \<noteq> 0"
    using assms by (auto simp: ih_up_step_def Let_def bind_eq_Some_conv split: if_splits)
  then have "unat i = (unat index - 1) div 2" "unat index \<noteq> 0"
    using u32_sub_SomeD [OF a(1)] by (simp_all add: unat_div unat_eq_zero)
  then show ?thesis by simp
qed

lemma down_rounds_bound:
  "down_rounds N P m len k i s j t \<Longrightarrow>
     2 ^ k * (unat i + 1) \<le> unat j + 1 \<and> (0 < k \<longrightarrow> unat j < unat len)"
proof (induction rule: down_rounds.induct)
  case (down_Suc i s j t k i' s')
  note step = ih_down_step_doubles [OF down_Suc.hyps(1)]
  have "2 ^ Suc k * (unat i + 1) \<le> 2 ^ k * (unat j + 1)"
    using mult_le_mono2 [OF conjunct1 [OF step], of "2 ^ k"] by (simp add: algebra_simps)
  moreover have "unat i' < unat len" if "k = 0"
    using down_Suc.hyps(2) step that by (cases rule: down_rounds.cases) auto
  ultimately show ?case using down_Suc.IH by fastforce
qed simp

lemma up_rounds_bound: "up_rounds N P m k i s j t \<Longrightarrow> 2 ^ k * (unat j + 1) \<le> unat i + 1"
proof (induction rule: up_rounds.induct)
  case (up_Suc i s j t k i' s')
  have "2 ^ Suc k * (unat i' + 1) \<le> 2 * (unat j + 1)"
    using mult_le_mono2 [OF up_Suc.IH, of 2] by (simp add: algebra_simps)
  also have "\<dots> \<le> unat i + 1" by (rule ih_up_step_halves [OF up_Suc.hyps(1)])
  finally show ?case .
qed simp

text \<open>
  A run of a loop is a number of rounds and the one that breaks off or panics.
\<close>

lemma down_heapify_rounds:
  "\<exists>k j t. down_rounds N P m len k i s j t \<and>
     (case ih_down_heapify N P m i len s of
        Some (_, u) \<Rightarrow> ih_down_step N P m j len t = Some (None, u)
      | None \<Rightarrow> ih_down_step N P m j len t = None)"
proof (induction N P m i len s rule: ih_down_heapify.induct)
  case (1 N P m i len s)
  show ?case
  proof (cases "ih_down_step N P m i len s")
    case None
    then show ?thesis
      using down_0 [of N P m len i s] by (fastforce simp: ih_down_heapify.simps [of N P m i])
  next
    case (Some r)
    then obtain next_i t where r: "ih_down_step N P m i len s = Some (next_i, t)" by (cases r) auto
    show ?thesis
    proof (cases next_i)
      case None
      then show ?thesis
        using r down_0 [of N P m len i s] by (fastforce simp: ih_down_heapify.simps [of N P m i])
    next
      case (Some j)
      have step: "ih_down_step N P m i len s = Some (Some j, t)" using r Some by simp
      from 1 [OF step refl refl] show ?thesis
        using step down_Suc [OF step]
        by (fastforce simp: ih_down_heapify.simps [of N P m i])
    qed
  qed
qed

lemma up_heapify_rounds:
  "\<exists>k j t. up_rounds N P m k i s j t \<and>
     (case ih_up_heapify N P m i s of
        Some (_, u) \<Rightarrow> ih_up_step N P m j t = Some (None, u)
      | None \<Rightarrow> ih_up_step N P m j t = None)"
proof (induction N P m i s rule: ih_up_heapify.induct)
  case (1 N P m i s)
  show ?case
  proof (cases "ih_up_step N P m i s")
    case None
    then show ?thesis
      using up_0 [of N P m i s] by (fastforce simp: ih_up_heapify.simps [of N P m i])
  next
    case (Some r)
    then obtain next_i t where r: "ih_up_step N P m i s = Some (next_i, t)" by (cases r) auto
    show ?thesis
    proof (cases next_i)
      case None
      then show ?thesis
        using r up_0 [of N P m i s] by (fastforce simp: ih_up_heapify.simps [of N P m i])
    next
      case (Some j)
      have step: "ih_up_step N P m i s = Some (Some j, t)" using r Some by simp
      from 1 [OF step refl refl] show ?thesis
        using step up_Suc [OF step]
        by (fastforce simp: ih_up_heapify.simps [of N P m i])
    qed
  qed
qed

section \<open>Extracting until the heap is empty\<close>

fun ih_extracts :: "'s nas \<Rightarrow> 'v vops \<Rightarrow> index_map \<Rightarrow> nat \<Rightarrow> 's \<Rightarrow> ('v option list \<times> 's) option" where
  "ih_extracts N P m 0 s = Some ([], s)"
| "ih_extracts N P m (Suc n) s = do {
     (v, s) \<leftarrow> ih_extract N P m s;
     (vs, s) \<leftarrow> ih_extracts N P m n s;
     Some (v # vs, s)
   }"

text \<open>
  The helper of the unit tests: \<open>first_v\<close> and \<open>last_v\<close> of the heap, where a failed
  assertion (a repeated key, a value not greater than the one before) is a panic.  Its loop
  may run for ever on a store that is not lawful.
\<close>

partial_function (option) check_order_loop ::
    "'s nas \<Rightarrow> 'v vops \<Rightarrow> index_map \<Rightarrow> bytes set \<Rightarrow> 'v \<Rightarrow> 's \<Rightarrow> ('v \<times> 's) option" where
  "check_order_loop N P m check_key last_v s =
     (case ih_extract N P m s of
        None \<Rightarrow> None
      | Some (None, s) \<Rightarrow> Some (last_v, s)
      | Some (Some v, s) \<Rightarrow>
          if vkey P v \<in> check_key then None
          else if v_lt P last_v v then check_order_loop N P m (insert (vkey P v) check_key) v s
          else None)"

definition check_order :: "'s nas \<Rightarrow> 'v vops \<Rightarrow> index_map \<Rightarrow> 's \<Rightarrow> (('v \<times> 'v) \<times> 's) option" where
  "check_order N P m s = do {
     (last_v, s) \<leftarrow> ih_extract N P m s;
     first_v \<leftarrow> last_v;
     (last_v, s) \<leftarrow> check_order_loop N P m {vkey P first_v} first_v s;
     Some ((first_v, last_v), s)
   }"

lemma distinct_map_add_mset:
  "mset xs = add_mset w (mset zs) \<Longrightarrow> distinct (map f xs) \<longleftrightarrow> distinct (map f (w # zs))"
  by (rule mset_eq_imp_distinct_iff) simp

context stored_values
begin

text \<open>One extraction from a heap that is not empty, and from an empty one.\<close>

lemma extract_step:
  assumes "rep s \<sigma>" "ih_ok P prio m xs \<sigma>" "xs \<noteq> []"
  obtains v s' \<sigma>' zs where "ih_extract N P m s = Some (Some v, s')" "rep s' \<sigma>'" "ih_ok P prio m zs \<sigma>'"
    "mset xs = add_mset v (mset zs)" "\<forall>x \<in> set zs. prio v \<le> prio x" "same_but (domain m) \<sigma> \<sigma>'"
proof -
  obtain \<sigma>' zs where z: "ih_extract kv_store P m \<sigma> = Some (Some (xs ! 0), \<sigma>')" "ih_ok P prio m zs \<sigma>'"
    "mset zs = mset xs - {#xs ! 0#}" "same_but (domain m) \<sigma> \<sigma>'"
    using kv_extract [OF assms(2,3)] by blast
  obtain s' where s': "ih_extract N P m s = Some (Some (xs ! 0), s')" "rep s' \<sigma>'"
    using simD [OF sim_ih_extract assms(1) z(1)] by blast
  have m: "mset xs = add_mset (xs ! 0) (mset zs)" using z(3) assms(3) by simp
  then have "set zs \<subseteq> set xs" by (metis set_mset_mset set_mset_add_mset_insert subset_insertI)
  then have "\<forall>x \<in> set zs. prio (xs ! 0) \<le> prio x" using heap_min_set [OF ih_okD(3) [OF assms(2)]] by blast
  from that [OF s' z(2) m this z(4)] show ?thesis .
qed

lemma extract_empty:
  assumes "rep s \<sigma>" "ih_ok P prio m [] \<sigma>"
  obtains s' where "ih_extract N P m s = Some (None, s')" "rep s' \<sigma>"
  using simD [OF sim_ih_extract assms(1) kv_extract_empty [OF ih_okD(1) [OF assms(2)]]] by blast

lemma extracts_sort:
  "rep s \<sigma> \<Longrightarrow> ih_ok P prio m xs \<sigma> \<Longrightarrow>
     \<exists>ys s'. ih_extracts N P m (Suc (length xs)) s = Some (map Some ys @ [None], s') \<and>
       sorted (map prio ys) \<and> mset ys = mset xs \<and> heap_after rep P prio m \<sigma> {#} s'"
proof (induction "length xs" arbitrary: xs s \<sigma>)
  case 0
  then have xs: "xs = []" by simp
  obtain s' where "ih_extract N P m s = Some (None, s')" "rep s' \<sigma>"
    using extract_empty 0 xs by blast
  then show ?case
    using heap_after_same [of rep s' \<sigma> P prio m "[]"] 0 xs by (intro exI [of _ "[]"]) simp
next
  case (Suc n)
  then have "xs \<noteq> []" by auto
  obtain v s1 \<sigma>1 zs where v: "ih_extract N P m s = Some (Some v, s1)" "rep s1 \<sigma>1" "ih_ok P prio m zs \<sigma>1"
    "mset xs = add_mset v (mset zs)" "\<forall>x \<in> set zs. prio v \<le> prio x" "same_but (domain m) \<sigma> \<sigma>1"
    using extract_step [OF Suc.prems \<open>xs \<noteq> []\<close>] .
  have n: "n = length zs" using Suc.hyps(2) v(4) by (metis mset_eq_length mset.simps(2) length_Cons nat.inject)
  obtain ys s' where ys: "ih_extracts N P m (Suc (length zs)) s1 = Some (map Some ys @ [None], s')"
    "sorted (map prio ys)" "mset ys = mset zs" "heap_after rep P prio m \<sigma>1 {#} s'"
    using Suc.hyps(1) [OF n v(2,3)] by blast
  have "set ys = set zs" using ys(3) by (metis set_mset_mset)
  then have "sorted (map prio (v # ys))" using ys(2) v(5) by simp
  moreover have "heap_after rep P prio m \<sigma> {#} s'"
    using ys(4) v(6) same_but_trans unfolding heap_after_def by blast
  moreover have "ih_extracts N P m (Suc (length xs)) s = Some (map Some (v # ys) @ [None], s')"
    unfolding Suc.hyps(2) [symmetric] n
    by (subst ih_extracts.simps(2)) (simp add: v(1) ys(1) del: ih_extracts.simps)
  ultimately show ?case using v(4) ys(3) by (intro exI [of _ "v # ys"] exI [of _ s']) simp
qed

lemma check_order_loop_ok:
  "rep s \<sigma> \<Longrightarrow> ih_ok P prio m xs \<sigma> \<Longrightarrow> distinct (map prio xs) \<Longrightarrow>
   \<forall>x \<in> set xs. prio v < prio x \<and> vkey P x \<notin> ks \<Longrightarrow>
     \<exists>l s'. check_order_loop N P m ks v s = Some (l, s') \<and> l \<in> insert v (set xs) \<and>
       (\<forall>x \<in> set xs. prio x \<le> prio l) \<and> heap_after rep P prio m \<sigma> {#} s'"
proof (induction "length xs" arbitrary: xs s \<sigma> v ks)
  case 0
  then have xs: "xs = []" by simp
  obtain s' where "ih_extract N P m s = Some (None, s')" "rep s' \<sigma>"
    using extract_empty 0(2,3) xs by blast
  then show ?case
    using heap_after_same [of rep s' \<sigma> P prio m "[]"] 0 xs by (simp add: check_order_loop.simps [of N P m ks])
next
  case (Suc n)
  then have "xs \<noteq> []" by auto
  obtain w s1 \<sigma>1 zs where w: "ih_extract N P m s = Some (Some w, s1)" "rep s1 \<sigma>1" "ih_ok P prio m zs \<sigma>1"
    "mset xs = add_mset w (mset zs)" "\<forall>x \<in> set zs. prio w \<le> prio x" "same_but (domain m) \<sigma> \<sigma>1"
    using extract_step [OF Suc.prems(1,2) \<open>xs \<noteq> []\<close>] .
  have n: "n = length zs" using Suc.hyps(2) w(4) by (metis mset_eq_length mset.simps(2) length_Cons nat.inject)
  have xs: "set xs = insert w (set zs)" using w(4) by (metis set_mset_mset set_mset_add_mset_insert)
  have d: "distinct (map prio (w # zs))" "distinct (map (vkey P) (w # zs))"
    using Suc.prems(3) im_rep_distinct [OF ih_okD(2) [OF Suc.prems(2)]] distinct_map_add_mset [OF w(4)] by blast+
  have "\<forall>x \<in> set zs. prio w < prio x \<and> vkey P x \<notin> insert (vkey P w) ks"
    using d w(5) Suc.prems(4) xs by (auto simp: order_le_less image_iff)
  from Suc.hyps(1) [OF n w(2,3) _ this] d(1) obtain l s' where
    l: "check_order_loop N P m (insert (vkey P w) ks) w s1 = Some (l, s')" "l \<in> insert w (set zs)"
    "\<forall>x \<in> set zs. prio x \<le> prio l" "heap_after rep P prio m \<sigma>1 {#} s'"
    by auto
  have "prio w \<le> prio l" using l(2) w(5) by auto
  moreover have "heap_after rep P prio m \<sigma> {#} s'"
    using l(4) w(6) same_but_trans unfolding heap_after_def by blast
  ultimately show ?case
    using w(1) l Suc.prems(4) xs by (simp add: check_order_loop.simps [of N P m ks] v_lt_prio)
qed

lemma check_order_ok:
  assumes s: "rep s \<sigma>" and xs: "ih_ok P prio m xs \<sigma>" "xs \<noteq> []" and d: "distinct (map prio xs)"
  shows "\<exists>f l s'. check_order N P m s = Some ((f, l), s') \<and> f \<in> set xs \<and> l \<in> set xs \<and>
     (\<forall>x \<in> set xs. prio f \<le> prio x \<and> prio x \<le> prio l) \<and> heap_after rep P prio m \<sigma> {#} s'"
proof -
  obtain w s1 \<sigma>1 zs where w: "ih_extract N P m s = Some (Some w, s1)" "rep s1 \<sigma>1" "ih_ok P prio m zs \<sigma>1"
    "mset xs = add_mset w (mset zs)" "\<forall>x \<in> set zs. prio w \<le> prio x" "same_but (domain m) \<sigma> \<sigma>1"
    using extract_step [OF s xs] .
  have eq: "set xs = insert w (set zs)" using w(4) by (metis set_mset_mset set_mset_add_mset_insert)
  have d: "distinct (map prio (w # zs))" "distinct (map (vkey P) (w # zs))"
    using d im_rep_distinct [OF ih_okD(2) [OF xs(1)]] distinct_map_add_mset [OF w(4)] by blast+
  have "\<forall>x \<in> set zs. prio w < prio x \<and> vkey P x \<notin> {vkey P w}"
    using d w(5) by (auto simp: order_le_less image_iff)
  from check_order_loop_ok [OF w(2,3) _ this] d(1) obtain l s' where
    l: "check_order_loop N P m {vkey P w} w s1 = Some (l, s')" "l \<in> insert w (set zs)"
    "\<forall>x \<in> set zs. prio x \<le> prio l" "heap_after rep P prio m \<sigma>1 {#} s'"
    by auto
  have "prio w \<le> prio l" using l(2) w(5) by auto
  moreover have "heap_after rep P prio m \<sigma> {#} s'"
    using l(4) w(6) same_but_trans unfolding heap_after_def by blast
  ultimately show ?thesis
    using w(1,5) l eq by (intro exI [of _ w] exI [of _ l] exI [of _ s']) (simp add: check_order_def)
qed

end

section \<open>Properties\<close>

text \<open>
  C14: On every store, lawful or not, the loops of \<open>down_heapify\<close> and \<open>up_heapify\<close> end.  Each
  makes some number \<open>k\<close> of full rounds and then one in which it breaks off, which gives its
  result, or in which it panics, as it then does.  Every full round of \<open>down_heapify\<close> at least
  doubles the index below the length, every one of \<open>up_heapify\<close> halves it, so that \<open>k\<close> is at most
  the binary logarithm of the length or of the start index plus one; this bounds also every
  initial part of a run.
\<close>

theorem heapify_rounds:
  "(\<exists>k j t. down_rounds N P m len k i s j t \<and>
      (case ih_down_heapify N P m i len s of
         Some (_, u) \<Rightarrow> ih_down_step N P m j len t = Some (None, u)
       | None \<Rightarrow> ih_down_step N P m j len t = None)) \<and>
   (\<forall>k j t. down_rounds N P m len k i s j t \<longrightarrow> 2 ^ k * (unat i + 1) \<le> max (unat i + 1) (unat len)) \<and>
   (\<exists>k j t. up_rounds N P m k i s j t \<and>
      (case ih_up_heapify N P m i s of
         Some (_, u) \<Rightarrow> ih_up_step N P m j t = Some (None, u)
       | None \<Rightarrow> ih_up_step N P m j t = None)) \<and>
   (\<forall>k j t. up_rounds N P m k i s j t \<longrightarrow> 2 ^ k * (unat j + 1) \<le> unat i + 1)"
proof -
  have "2 ^ k * (unat i + 1) \<le> max (unat i + 1) (unat len)" if "down_rounds N P m len k i s j t" for k j t
    using down_rounds_bound [OF that] by (cases "k = 0") auto
  then show ?thesis
    by (intro conjI allI impI down_heapify_rounds up_heapify_rounds) (blast dest: up_rounds_bound)+
qed

theorem heapify_rounds_witness:
  "\<exists>s t u. down_rounds kv_store (pool_key_ops borsh_std) (ih_new [2] 3) 2 1 0 s 1 t \<and>
     ih_down_heapify kv_store (pool_key_ops borsh_std) (ih_new [2] 3) 0 2 s = Some ((), u) \<and>
     2 ^ 1 * (unat (0 :: u32) + 1) \<le> max (unat (0 :: u32) + 1) (unat (2 :: u32))"
proof -
  let ?P = "pool_key_ops borsh_std" and ?m = "ih_new [2] 3"
  let ?xs = "[PoolKey (b32_fill 4) 20, PoolKey (b32_fill 5) 10]"
  obtain s where s: "im_ok ?P ?m ?xs s"
    using im_ok_exists [OF std.pool_key_values, of ?xs ?m]
    by (auto simp: ih_new_def im_new_def simp del: b32_bytes_fill)
  have h: "head_of id 0 ?xs = 1" by (simp add: head_of_def less_pool_key_def)
  have c: "unat (capacity ?m) < 2 ^ 31" by (simp add: ih_new_def im_new_def)
  obtain t where "ih_down_step kv_store ?P ?m 0 2 s = Some (Some 1, t)"
    using std.pool_key.kv_down_step [OF s _ c, of 0] h by auto
  then have d: "down_rounds kv_store ?P ?m 2 1 0 s 1 t"
    using down_Suc [OF _ down_0] by fastforce
  obtain u where "ih_down_heapify kv_store ?P ?m 0 2 s = Some ((), u)"
    using std.pool_key.kv_down_heapify [OF s _ c, of 0] by auto
  then show ?thesis
    using heapify_rounds [of kv_store ?P ?m 2 0 s, THEN conjunct2, THEN conjunct1] d by blast
qed

text \<open>
  C15: Extracting from a heap one more time than it has values returns all of them in order of
  priority, each once, and then nothing; the heap is empty afterwards and nothing else in the
  store has changed.
\<close>

theorem heap_sorts:
  assumes "stored_values N rep P prio" "rep s \<sigma>" "ih_ok P prio m xs \<sigma>"
  shows "\<exists>ys s'. ih_extracts N P m (Suc (length xs)) s = Some (map Some ys @ [None], s') \<and>
    sorted (map prio ys) \<and> mset ys = mset xs \<and> heap_after rep P prio m \<sigma> {#} s'"
  by (rule stored_values.extracts_sort [OF assms])

theorem heap_sorts_witness:
  "\<exists>\<sigma> ys s'. ih_extracts kv_store (pool_key_ops borsh_std) (ih_new [2] 3) 3 \<sigma> =
     Some (map Some ys @ [None], s') \<and> mset ys = mset two_keys"
proof -
  obtain \<sigma> where "ih_ok (pool_key_ops borsh_std) id (ih_new [2] 3) two_keys \<sigma>"
    using two_keys_stored [of 3] by auto
  from heap_sorts [OF kv_pool_key.stored_values_axioms refl this] show ?thesis
    unfolding eval_nat_numeral two_keys_def by auto
qed

text \<open>
  The check of the unit tests succeeds on every heap whose priorities differ: no key comes
  twice, every value is greater than the one before, and the check returns the least and the
  greatest value and leaves the heap empty.
\<close>

theorem check_order_passes:
  assumes "stored_values N rep P prio" "rep s \<sigma>" "ih_ok P prio m xs \<sigma>" "xs \<noteq> []" "distinct (map prio xs)"
  shows "\<exists>f l s'. check_order N P m s = Some ((f, l), s') \<and> f \<in> set xs \<and> l \<in> set xs \<and>
    (\<forall>x \<in> set xs. prio f \<le> prio x \<and> prio x \<le> prio l) \<and> heap_after rep P prio m \<sigma> {#} s'"
  by (rule stored_values.check_order_ok [OF assms])

theorem check_order_passes_witness:
  "\<exists>\<sigma> f l s'. check_order kv_store (pool_key_ops borsh_std) (ih_new [2] 3) \<sigma> = Some ((f, l), s') \<and>
     f \<in> set two_keys \<and> l \<in> set two_keys"
proof -
  obtain \<sigma> where "ih_ok (pool_key_ops borsh_std) id (ih_new [2] 3) two_keys \<sigma>"
    using two_keys_stored [of 3] by auto
  from check_order_passes [OF kv_pool_key.stored_values_axioms refl this] show ?thesis
    by (fastforce simp: two_keys_def)
qed

end
