(* ===== verification/Index_Map_Test.thy ===== *)
theory Index_Map_Test
  imports Index_Map Test_Logic
begin

text \<open>
  The unit test of the index map (\<open>test_index_map\<close> of \<open>index_map.rs\<close>), translated and shown to
  pass with every codec that reads back what it wrote, and how many entries of the store an
  index map takes, which the tests count.
\<close>

section \<open>The entries of an index map\<close>

text \<open>
  An index map of \<open>n\<close> values takes exactly \<open>1 + 2 * n\<close> entries: its length and two for each
  value.  Nothing of a removed value is left.
\<close>

definition only_map :: "'v vops \<Rightarrow> index_map \<Rightarrow> 'v list \<Rightarrow> bytes bytemap \<Rightarrow> bool" where
  "only_map P m xs s \<longleftrightarrow>
     im_ok P m xs s \<and> same_but (domain m) Map.empty s \<and> s (key_len (domain m)) \<noteq> None"

lemma im_rep_dom:
  assumes R: "im_rep P d xs s" and s: "same_but d Map.empty s" "s (key_len d) \<noteq> None"
  shows "dom s = {key_len d} \<union> key_ki d ` vkey P ` set xs \<union> (\<lambda>n. key_iv d (of_nat n)) ` {..<length xs}"
proof (intro equalityI subsetI)
  fix x assume x: "x \<in> dom s"
  then have "x \<in> im_keys d" using s(1) by (auto simp: same_but_def)
  then consider "x = key_len d" | k where "x = key_ki d k" | i where "x = key_iv d i"
    unfolding im_keys_def by blast
  then show "x \<in> {key_len d} \<union> key_ki d ` vkey P ` set xs \<union> (\<lambda>n. key_iv d (of_nat n)) ` {..<length xs}"
  proof cases
    case (2 k)
    then have "k \<in> vkey P ` set xs" using im_rep_no_ki [OF R, of k] x by (cases "k \<in> vkey P ` set xs") auto
    then show ?thesis using 2 by blast
  next
    case (3 i)
    have "unat i < 2 ^ 32" using unat_u32_less [of i] by simp
    then have "unat i < length xs"
      using im_rep_iv [OF R, of "unat i"] x 3 by (auto split: if_splits)
    moreover have "x = key_iv d (of_nat (unat i))" using 3 by simp
    ultimately show ?thesis by blast
  qed simp
next
  fix x assume "x \<in> {key_len d} \<union> key_ki d ` vkey P ` set xs \<union> (\<lambda>n. key_iv d (of_nat n)) ` {..<length xs}"
  then consider "x = key_len d" | n where "n < length xs" "x = key_ki d (vkey P (xs ! n))"
    | n where "n < length xs" "x = key_iv d (of_nat n)"
    by (auto simp: in_set_conv_nth)
  then show "x \<in> dom s"
  proof cases
    case (3 n)
    then show ?thesis using im_rep_iv [OF R, of n] im_rep_size [OF R] by auto
  qed (use s(2) im_rep_ki [OF R] in auto)
qed

lemma only_map_card:
  assumes "only_map P m xs s"
  shows "card (dom s) = 1 + 2 * length xs"
proof -
  let ?d = "domain m"
  have R: "im_rep P ?d xs s" using assms by (auto simp: only_map_def im_ok_def)
  let ?K = "key_ki ?d ` vkey P ` set xs" and ?I = "(\<lambda>n. key_iv ?d (of_nat n)) ` {..<length xs}"
  have "card ?K = card (vkey P ` set xs)" by (rule card_image) (simp add: inj_on_def)
  also have "\<dots> = length xs"
    using distinct_card [OF im_rep_distinct [OF R]] by simp
  finally have K: "card ?K = length xs" .
  have "inj_on (\<lambda>n. key_iv ?d (of_nat n)) {..<length xs}"
    using im_rep_size [OF R] by (auto simp: inj_on_def of_nat_u32_inj)
  then have I: "card ?I = length xs" by (simp add: card_image)
  have "card (?K \<union> ?I) = length xs + length xs"
    using K I by (subst card_Un_disjoint) auto
  moreover have "key_len ?d \<notin> ?K \<union> ?I" by auto
  ultimately show ?thesis
    using im_rep_dom [OF R] assms by (simp add: only_map_def Un_assoc)
qed

lemma only_map_grow:
  "im_ok P m xs s \<Longrightarrow> same_but (domain m) Map.empty s \<Longrightarrow> xs \<noteq> [] \<Longrightarrow> only_map P m xs s"
  using im_rep_len [OF im_okD(1)] by (fastforce simp: only_map_def)

section \<open>Strings\<close>

text \<open>
  A \<open>String\<close> is its bytes, which are UTF-8: a byte below 128, or a leading byte with its
  continuation bytes, without overlong forms, surrogates or code points above 10FFFF.  Its
  length is one that borsh can write.
\<close>

definition cont :: "u8 \<Rightarrow> bool" where
  "cont b \<longleftrightarrow> 128 \<le> b \<and> b \<le> 191"

fun utf8 :: "bytes \<Rightarrow> bool" where
  "utf8 [] = True"
| "utf8 (a # bs) =
     (if a \<le> 127 then utf8 bs
      else case bs of
        [] \<Rightarrow> False
      | b # bs \<Rightarrow>
          (if 194 \<le> a \<and> a \<le> 223 then cont b \<and> utf8 bs
           else case bs of
             [] \<Rightarrow> False
           | c # bs \<Rightarrow>
               (if 224 \<le> a \<and> a \<le> 239 then
                  cont b \<and> (a = 224 \<longrightarrow> 160 \<le> b) \<and> (a = 237 \<longrightarrow> b \<le> 159) \<and> cont c \<and> utf8 bs
                else case bs of
                  [] \<Rightarrow> False
                | d # bs \<Rightarrow>
                    240 \<le> a \<and> a \<le> 244 \<and> cont b \<and> (a = 240 \<longrightarrow> 144 \<le> b) \<and> (a = 244 \<longrightarrow> b \<le> 143) \<and>
                    cont c \<and> cont d \<and> utf8 bs)))"

lemma utf8_ascii: "list_all (\<lambda>b. b \<le> 127) bs \<Longrightarrow> utf8 bs"
  by (induction bs) auto

typedef rust_string = "{bs :: bytes. utf8 bs \<and> length bs < 2 ^ 32}"
  morphisms as_bytes string_of
  by (rule exI [of _ "[]"]) simp

lemma as_bytes_string_of: "utf8 bs \<Longrightarrow> length bs < 4294967296 \<Longrightarrow> as_bytes (string_of bs) = bs"
  using string_of_inverse [of bs] by simp

lemma as_bytes_ascii [simp]:
  "list_all (\<lambda>b. b \<le> 127) bs \<Longrightarrow> length bs < 4294967296 \<Longrightarrow> as_bytes (string_of bs) = bs"
  by (simp add: as_bytes_string_of utf8_ascii)

lemma as_bytes_length [simp]: "length (as_bytes s) < 4294967296"
  using as_bytes [of s] by simp

lemma as_bytes_utf8 [simp]: "utf8 (as_bytes s)"
  using as_bytes [of s] by simp

definition try_string :: "bytes \<Rightarrow> rust_string option" where
  "try_string bs = (if utf8 bs \<and> length bs < 2 ^ 32 then Some (string_of bs) else None)"

lemma try_string_as_bytes [simp]: "try_string (as_bytes s) = Some s"
  by (simp add: try_string_def as_bytes_inverse)

text \<open>\<open>to_string\<close> of an integer: its decimal digits.\<close>

fun decimal :: "nat \<Rightarrow> bytes" where
  "decimal n = (if n < 10 then [of_nat (48 + n)] else decimal (n div 10) @ [of_nat (48 + n mod 10)])"

declare decimal.simps [simp del]

definition undecimal :: "bytes \<Rightarrow> nat" where
  "undecimal bs = foldl (\<lambda>a b. 10 * a + (unat b - 48)) 0 bs"

lemma undecimal_decimal [simp]: "undecimal (decimal n) = n"
proof (induction n rule: decimal.induct)
  case (1 n)
  have d: "unat (of_nat (48 + k) :: u8) - 48 = k" if "k < 10" for k
  proof -
    have "unat (of_nat (48 + k) :: u8) = 48 + k" using that by (subst unat_of_nat) simp
    then show ?thesis by simp
  qed
  show ?case
  proof (cases "n < 10")
    case True
    then show ?thesis using d [of n] by (simp add: decimal.simps [of n] undecimal_def)
  next
    case False
    then have "undecimal (decimal n) = 10 * (n div 10) + n mod 10"
      using 1 d [of "n mod 10"] by (simp add: decimal.simps [of n] undecimal_def)
    then show ?thesis by simp
  qed
qed

lemma decimal_inj [simp]: "decimal m = decimal n \<longleftrightarrow> m = n"
  by (metis undecimal_decimal)

lemma length_decimal: "length (decimal n) \<le> n + 1"
proof (induction n rule: decimal.induct)
  case (1 n)
  then show ?case by (cases "n < 10") (simp_all add: decimal.simps [of n])
qed

lemma decimal_ascii [simp]: "list_all (\<lambda>b. b \<le> 127) (decimal n)"
proof (induction n rule: decimal.induct)
  case (1 n)
  have "of_nat (48 + k) \<le> (127 :: u8)" if "k < 10" for k
  proof -
    have "unat (of_nat (48 + k) :: u8) = 48 + k" using that by (subst unat_of_nat) simp
    then show ?thesis using that by (simp add: word_le_nat_alt)
  qed
  from this [of n] this [of "n mod 10"] show ?case
    using 1 by (cases "n < 10") (simp_all add: decimal.simps [of n] del: of_nat_add)
qed

definition to_string :: "nat \<Rightarrow> rust_string" where
  "to_string n = string_of (decimal n)"

lemma as_bytes_to_string [simp]: "n < 4294967295 \<Longrightarrow> as_bytes (to_string n) = decimal n"
  using length_decimal [of n] by (simp add: to_string_def)

section \<open>The values of the test\<close>

text \<open>
  \<open>ser\<close> and \<open>de\<close> are borsh on \<open>Vec<u8>\<close>.  A \<open>TestString\<close> has no order, and the index map does
  not compare its values.
\<close>

datatype test_string = TestString (ts_name: rust_string)

definition test_string_into :: "(bytes \<Rightarrow> bytes) \<Rightarrow> test_string \<Rightarrow> bytes" where
  "test_string_into ser v = ser (as_bytes (ts_name v))"

definition test_string_from :: "(bytes \<Rightarrow> bytes option) \<Rightarrow> bytes \<Rightarrow> test_string option" where
  "test_string_from de bs = do { r \<leftarrow> de bs; name \<leftarrow> try_string r; Some (TestString name) }"

definition test_string_ops :: "(bytes \<Rightarrow> bytes) \<Rightarrow> (bytes \<Rightarrow> bytes option) \<Rightarrow> test_string vops" where
  "test_string_ops ser de =
     \<lparr>vkey = \<lambda>v. as_bytes (ts_name v), vinto = test_string_into ser, vfrom = test_string_from de,
      vpartial_cmp = \<lambda>_ _. Some Equal, vcmp = \<lambda>_ _. Equal\<rparr>"

locale bytes_codec =
  fixes ser :: "bytes \<Rightarrow> bytes" and de :: "bytes \<Rightarrow> bytes option"
  assumes bytes_roundtrip: "length bs < 2 ^ 32 \<Longrightarrow> de (ser bs) = Some bs"
    and bytes_nonempty: "ser bs \<noteq> []"

sublocale bytes_codec \<subseteq> test_string: keyed_value "test_string_ops ser de" "\<lambda>_. 0 :: nat"
  by unfold_locales
     (simp_all add: test_string_ops_def test_string_into_def test_string_from_def bytes_roundtrip
        bytes_nonempty cmp_of_def)

lemma test_string_key [simp]: "vkey (test_string_ops ser de) v = as_bytes (ts_name v)"
  by (simp add: test_string_ops_def)

text \<open>borsh writes the length as a \<open>u32\<close> and the bytes.\<close>

definition std_ser_bytes :: "bytes \<Rightarrow> bytes" where
  "std_ser_bytes bs = u32_to_le (of_nat (length bs)) @ bs"

definition std_de_bytes :: "bytes \<Rightarrow> bytes option" where
  "std_de_bytes bs = do {
     len \<leftarrow> u32_from_le (take 4 bs);
     if unat len = length (drop 4 bs) then Some (drop 4 bs) else None
   }"

interpretation std_bytes: bytes_codec std_ser_bytes std_de_bytes
  by unfold_locales (simp_all add: std_ser_bytes_def std_de_bytes_def unat_of_nat)

section \<open>The test\<close>

definition apple :: rust_string where "apple = string_of [97, 112, 112, 108, 101]"
definition not_exist :: rust_string where
  "not_exist = string_of [110, 111, 116, 32, 101, 120, 105, 115, 116]"
definition max_name :: rust_string where "max_name = string_of [77, 65, 88]"

text \<open>A loop that pushes the values of a list, unwrapping each result.\<close>

fun push_all :: "'s nas \<Rightarrow> 'v vops \<Rightarrow> index_map \<Rightarrow> 'v list \<Rightarrow> 's \<Rightarrow> 's option" where
  "push_all N P m [] s = Some s"
| "push_all N P m (v # vs) s = do {
     (r, s) \<leftarrow> im_push N P m v s;
     _ \<leftarrow> unwrap r;
     push_all N P m vs s
   }"

text \<open>The values of the loop over \<open>0..n\<close>.\<close>

definition numbered :: "nat \<Rightarrow> test_string list" where
  "numbered n = map (\<lambda>i. TestString (to_string i)) [0..<n]"

definition test_index_map :: "(bytes \<Rightarrow> bytes) \<Rightarrow> (bytes \<Rightarrow> bytes option) \<Rightarrow> unit option" where
  "test_index_map ser de = do {
     let P = test_string_ops ser de;
     let kv = Map.empty;
     let m = im_new [] 32;
     (n, kv) \<leftarrow> im_length kv_store m kv;
     _ \<leftarrow> assert (n = 0);
     (v, kv) \<leftarrow> im_get kv_store P m 0 kv;
     _ \<leftarrow> assert (v = None);
     (r, kv) \<leftarrow> im_push kv_store P m (TestString apple) kv;
     _ \<leftarrow> unwrap r;
     (n, kv) \<leftarrow> im_length kv_store m kv;
     _ \<leftarrow> assert (n = 1);
     (v, kv) \<leftarrow> im_get kv_store P m 0 kv;
     v \<leftarrow> v;
     _ \<leftarrow> assert (ts_name v = apple);
     (v, kv) \<leftarrow> im_get_by kv_store P m (as_bytes apple) kv;
     _ \<leftarrow> assert (v \<noteq> None);
     (v, kv) \<leftarrow> im_get_by kv_store P m (as_bytes not_exist) kv;
     _ \<leftarrow> assert (v = None);
     _ \<leftarrow> assert (card (dom kv) = 1 + 1 * 2);
     let m = im_new [] 32;
     (_, kv) \<leftarrow> im_delete kv_store m 0 (as_bytes apple) kv;
     (v, kv) \<leftarrow> im_get_by kv_store P m (as_bytes apple) kv;
     _ \<leftarrow> assert (v = None);
     (_, kv) \<leftarrow> im_set_length kv_store m 0 kv;
     (n, kv) \<leftarrow> im_length kv_store m kv;
     _ \<leftarrow> assert (n = 0);
     _ \<leftarrow> assert (card (dom kv) = 1 + 0 * 2);
     let m = im_new [] 65535;
     kv \<leftarrow> push_all kv_store P m (numbered 65535) kv;
     (n, kv) \<leftarrow> im_length kv_store m kv;
     _ \<leftarrow> assert (n = 65535);
     _ \<leftarrow> assert (card (dom kv) = 1 + 65535 * 2);
     let m = im_new [] 65535;
     (r, kv) \<leftarrow> im_push kv_store P m (TestString max_name) kv;
     _ \<leftarrow> assert (isl r);
     (n, kv) \<leftarrow> im_length kv_store m kv;
     _ \<leftarrow> assert (n = 65535);
     assert (card (dom kv) = 1 + 65535 * 2)
   }"

section \<open>It passes\<close>

lemma apple_bytes [simp]: "as_bytes apple = [97, 112, 112, 108, 101]"
  "as_bytes not_exist = [110, 111, 116, 32, 101, 120, 105, 115, 116]" "as_bytes max_name = [77, 65, 88]"
  by (simp_all add: apple_def not_exist_def max_name_def)

lemma numbered_keys:
  "n \<le> 65535 \<Longrightarrow> distinct (map (vkey (test_string_ops ser de)) (numbered n))" "length (numbered n) = n"
  by (auto simp: numbered_def distinct_map inj_on_def)

context keyed_value
begin

lemma push_all_ok:
  "im_ok P m ys s \<Longrightarrow> distinct (map (vkey P) (ys @ vs)) \<Longrightarrow> length ys + length vs \<le> unat (capacity m) \<Longrightarrow>
     \<exists>s'. push_all kv_store P m vs s = Some s' \<and> im_ok P m (ys @ vs) s' \<and> same_but (domain m) s s'"
proof (induction vs arbitrary: ys s)
  case (Cons v vs)
  have "vkey P v \<notin> vkey P ` set ys" using Cons.prems(2) by auto
  then obtain s1 where 1: "im_push kv_store P m v s = Some (Inr (), s1)" "im_ok P m (ys @ [v]) s1"
    "same_but (domain m) s s1"
    using kv_push [OF Cons.prems(1)] Cons.prems(3) by force
  obtain s2 where "push_all kv_store P m vs s1 = Some s2" "im_ok P m (ys @ v # vs) s2" "same_but (domain m) s1 s2"
    using Cons.IH [OF 1(2)] Cons.prems(2,3) by auto
  then show ?case using 1 same_but_trans [OF 1(3)] by auto
qed auto

end

lemma im_new_simps [simp]: "domain (im_new d c) = d" "capacity (im_new d c) = c"
  by (simp_all add: im_new_def)

text \<open>The store after \<open>delete\<close> of the only value and \<open>set_length\<close>.\<close>

lemma delete_only_value:
  assumes "only_map P m [v] s"
  shows "only_map P m [] (s(key_ki (domain m) (vkey P v) := None, key_iv (domain m) 0 := None,
     key_len (domain m) \<mapsto> u32_to_le 0))"
proof -
  have R: "im_rep P (domain m) [v] s" and s: "same_but (domain m) Map.empty s"
    using assms by (simp_all add: only_map_def im_ok_def)
  have "s (key_iv (domain m) i) = None" if "i \<noteq> 0" for i
    using im_rep_iv [OF R, of "unat i"] unat_u32_less [of i] that by (auto simp: unat_eq_zero split: if_splits)
  then show ?thesis
    using s im_rep_no_ki [OF R] by (auto simp: only_map_def im_ok_def im_rep_def of_nat_u32_inj)
qed

lemma clear_sets_length: "im_clear kv_store P m s = Some (u, s') \<Longrightarrow> s' (key_len (domain m)) \<noteq> None"
  by (auto simp: im_clear_def bind_eq_Some_conv)

lemma reset_sets_length: "im_reset kv_store P m vs s = Some (Inr u, s') \<Longrightarrow> s' (key_len (domain m)) \<noteq> None"
  by (auto simp: im_reset_def Let_def bind_eq_Some_conv split: if_splits)

context bytes_codec
begin

lemma test_index_map_passes: "test_index_map ser de = Some ()"
proof -
  let ?P = "test_string_ops ser de" and ?m = "im_new [] 32" and ?M = "im_new [] 65535"
  let ?v = "TestString apple"
  have 0: "im_ok ?P ?m [] Map.empty" by (simp add: im_ok_def im_rep_empty)
  obtain s1 where push: "im_push kv_store ?P ?m ?v Map.empty = Some (Inr (), s1)" and 1: "im_ok ?P ?m [?v] s1"
    and b: "same_but [] Map.empty s1"
    using test_string.kv_push [OF 0, of ?v] by auto
  have o1: "only_map ?P ?m [?v] s1" by (rule only_map_grow) (use 1 b in simp_all)
  let ?s2 = "s1(key_ki [] (as_bytes apple) := None, key_iv [] 0 := None)"
  let ?s3 = "?s2(key_len [] \<mapsto> u32_to_le 0)"
  have o3: "only_map ?P ?m [] ?s3" using delete_only_value [OF o1] by simp
  have 3: "im_ok ?P ?M [] ?s3" using o3 by (simp add: only_map_def im_ok_def)
  obtain s4 where all: "push_all kv_store ?P ?M (numbered 65535) ?s3 = Some s4"
    and 4: "im_ok ?P ?M (numbered 65535) s4" and b4: "same_but [] ?s3 s4"
    using test_string.push_all_ok [OF 3, of "numbered 65535"] numbered_keys(1) [of 65535 ser de] numbered_keys(2) [of 65535] by auto
  have n: "numbered 65535 \<noteq> []" using numbered_keys(2) [of 65535] by fastforce
  have o4: "only_map ?P ?M (numbered 65535) s4"
    by (rule only_map_grow [OF 4 _ n]) (use same_but_trans [OF _ b4] o3 in \<open>simp add: only_map_def\<close>)
  have full: "im_push kv_store ?P ?M (TestString max_name) s4 = Some (Inl IndexMapOperationError, s4)"
    using test_string.kv_push_full [OF 4] numbered_keys(2) [of 65535] by simp
  have reads: "im_length kv_store ?m Map.empty = Some (0, Map.empty)"
    "im_get kv_store ?P ?m 0 Map.empty = Some (None, Map.empty)"
    "im_length kv_store ?m s1 = Some (1, s1)" "im_get kv_store ?P ?m 0 s1 = Some (Some ?v, s1)"
    "im_get_by kv_store ?P ?m (as_bytes apple) s1 = Some (Some ?v, s1)"
    "im_get_by kv_store ?P ?m (as_bytes not_exist) s1 = Some (None, s1)"
    "im_length kv_store ?m ?s3 = Some (0, ?s3)" "im_length kv_store ?M s4 = Some (65535, s4)"
    using kv_length [OF im_okD(1) [OF 0]] kv_get_none [OF 0, of 0] kv_length [OF im_okD(1) [OF 1]]
      test_string.kv_get [OF 1, of 0] test_string.kv_get_by [OF 1] kv_length [OF im_okD(1) [OF 4]]
      numbered_keys(2) [of 65535]
    by simp_all (simp add: im_length_def)
  have gone: "im_get_by kv_store ?P ?m (as_bytes apple) ?s2 = Some (None, ?s2)"
    by (simp add: im_get_by_def im_index_of_key_def)
  have cards: "card (dom s1) = 3" "card (dom ?s3) = 1" "card (dom s4) = 131071"
    using only_map_card [OF o1] only_map_card [OF o3] only_map_card [OF o4] numbered_keys(2) [of 65535] by simp_all
  show ?thesis
    unfolding test_index_map_def Let_def
    using push reads gone cards all full by (simp add: isl_def del: apple_bytes)
qed

end

section \<open>The space an index map takes\<close>

text \<open>
  An index map takes one entry of its store for its length and two for each value, before
  and after every operation: \<open>push\<close> adds two entries, \<open>clear\<close> leaves the length only, and
  \<open>reset\<close> the entries of the new values only.
\<close>

theorem index_map_space:
  assumes V: "keyed_value P prio" and m: "only_map P m xs s"
    and v: "vkey P v \<notin> vkey P ` set xs" "length xs < unat (capacity m)"
    and vs: "distinct (map (vkey P) vs)" "length vs \<le> unat (capacity m)"
  shows "card (dom s) = 1 + 2 * length xs \<and>
    (\<exists>s'. im_push kv_store P m v s = Some (Inr (), s') \<and> card (dom s') = 3 + 2 * length xs) \<and>
    (\<exists>s'. im_clear kv_store P m s = Some ((), s') \<and> card (dom s') = 1) \<and>
    (\<exists>s'. im_reset kv_store P m vs s = Some (Inr (), s') \<and> card (dom s') = 1 + 2 * length vs)"
proof (intro conjI)
  have ok: "im_ok P m xs s" and b: "same_but (domain m) Map.empty s"
    using m by (simp_all add: only_map_def)
  show "card (dom s) = 1 + 2 * length xs" by (rule only_map_card [OF m])
  obtain s1 where 1: "im_push kv_store P m v s = Some (Inr (), s1)" "im_ok P m (xs @ [v]) s1"
    "same_but (domain m) s s1"
    using keyed_value.kv_push [OF V ok v] by blast
  have "only_map P m (xs @ [v]) s1"
    by (rule only_map_grow [OF 1(2) same_but_trans [OF b 1(3)]]) simp
  then show "\<exists>s'. im_push kv_store P m v s = Some (Inr (), s') \<and> card (dom s') = 3 + 2 * length xs"
    using 1(1) only_map_card by fastforce
  obtain s2 where 2: "im_clear kv_store P m s = Some ((), s2)" "im_ok P m [] s2" "same_but (domain m) s s2"
    using keyed_value.kv_clear [OF V ok] by blast
  have "only_map P m [] s2"
    using 2 same_but_trans [OF b 2(3)] clear_sets_length [OF 2(1)] by (simp add: only_map_def)
  then show "\<exists>s'. im_clear kv_store P m s = Some ((), s') \<and> card (dom s') = 1"
    using 2(1) only_map_card by fastforce
  obtain s3 where 3: "im_reset kv_store P m vs s = Some (Inr (), s3)" "im_ok P m vs s3"
    "same_but (domain m) s s3"
    using keyed_value.kv_reset [OF V ok vs] by blast
  have "only_map P m vs s3"
    using 3 same_but_trans [OF b 3(3)] reset_sets_length [OF 3(1)] by (simp add: only_map_def)
  then show "\<exists>s'. im_reset kv_store P m vs s = Some (Inr (), s') \<and> card (dom s') = 1 + 2 * length vs"
    using 3(1) only_map_card by blast
qed

theorem index_map_space_witness:
  "\<exists>s s'. im_push kv_store (test_string_ops std_ser_bytes std_de_bytes) (im_new [] 32) (TestString apple) s =
     Some (Inr (), s') \<and> card (dom s) = 1 \<and> card (dom s') = 3"
proof -
  have "only_map (test_string_ops std_ser_bytes std_de_bytes) (im_new [] 32) [] [key_len [] \<mapsto> u32_to_le 0]"
    by (auto simp: only_map_def im_ok_def im_rep_def same_but_def im_keys_def)
  from index_map_space [OF std_bytes.test_string.keyed_value_axioms this, of "TestString apple" "[]"]
  have "\<exists>s'. im_push kv_store (test_string_ops std_ser_bytes std_de_bytes) (im_new [] 32) (TestString apple)
      [key_len [] \<mapsto> u32_to_le 0] = Some (Inr (), s') \<and> card (dom s') = 3"
    by auto
  moreover have "card (dom [key_len [] \<mapsto> u32_to_le 0]) = 1" by simp
  ultimately show ?thesis by blast
qed

end
