(* ===== verification/Index_Heap_Test.thy ===== *)
theory Index_Heap_Test
  imports Heap_Runs Index_Map_Test "HOL-Library.List_Lexorder"
begin

text \<open>
  The unit test of the index heap (\<open>test_binary_heap\<close> of \<open>index_heap.rs\<close>), translated and shown
  to pass: its concrete operations on a small and on a full heap, and its iterations on heaps
  that were filled in a random order, for every sequence of random numbers.
\<close>

section \<open>A heap alone in its store\<close>

definition only_heap :: "'v vops \<Rightarrow> ('v \<Rightarrow> 'p::linorder) \<Rightarrow> index_map \<Rightarrow> 'v multiset \<Rightarrow> bytes bytemap \<Rightarrow> bool" where
  "only_heap P prio m K s \<longleftrightarrow> (\<exists>xs. ih_ok P prio m xs s \<and> only_map P m xs s \<and> mset xs = K)"

lemma only_heapE:
  assumes "only_heap P prio m K s"
  obtains xs where "ih_ok P prio m xs s" "only_map P m xs s" "mset xs = K" "same_but (domain m) Map.empty s"
  using assms by (auto simp: only_heap_def only_map_def)

lemma only_heapI:
  assumes "ih_ok P prio m xs s" "same_but (domain m) Map.empty s0" "same_but (domain m) s0 s" "mset xs = K"
    and "K = {#} \<Longrightarrow> s (key_len (domain m)) \<noteq> None"
  shows "only_heap P prio m K s"
proof -
  have b: "same_but (domain m) Map.empty s" by (rule same_but_trans [OF assms(2,3)])
  have "only_map P m xs s"
    using ih_okD(1) [OF assms(1)] b assms(4,5) only_map_grow [OF _ b]
    by (cases "xs = []") (auto simp: only_map_def)
  then show ?thesis using assms(1,4) unfolding only_heap_def by blast
qed

lemma only_heap_card: "only_heap P prio m K s \<Longrightarrow> card (dom s) = 1 + 2 * size K"
  using only_map_card by (fastforce elim: only_heapE)

lemma only_heap_length:
  "only_heap P prio m K s \<Longrightarrow> im_length kv_store m s = Some (of_nat (size K), s)"
  using kv_length [OF ih_okD(2)] by (fastforce elim: only_heapE)

context keyed_value
begin

lemma only_heap_insert:
  assumes H: "only_heap P prio m K s" and v: "vkey P v \<notin> vkey P ` set_mset K" and n: "size K < unat (capacity m)"
  shows "\<exists>s'. ih_insert kv_store P m v s = Some (Inr (), s') \<and> only_heap P prio m (add_mset v K) s'"
proof -
  obtain xs where xs: "ih_ok P prio m xs s" "only_map P m xs s" "mset xs = K" "same_but (domain m) Map.empty s"
    using H by (rule only_heapE)
  have "vkey P v \<notin> vkey P ` set xs" "length xs < unat (capacity m)" using v n xs(3) by auto
  then obtain s' zs where z: "ih_insert kv_store P m v s = Some (Inr (), s')" "ih_ok P prio m zs s'"
    "mset zs = add_mset v K" "same_but (domain m) s s'"
    using kv_insert [OF xs(1)] xs(3) by blast
  show ?thesis using only_heapI [OF z(2) xs(4) z(4,3)] z(1) by simp
qed

lemma only_heap_insert_full:
  assumes "only_heap P prio m K s" "size K = unat (capacity m)"
  shows "ih_insert kv_store P m v s = Some (Inl IndexHeapOperationError, s)"
  using kv_insert_full [OF ih_okD(1)] assms by (fastforce elim: only_heapE)

text \<open>The first value is the least one, when there is only one such.\<close>

lemma least_first:
  assumes "ih_ok P prio m xs s" "mset xs = add_mset v K" "\<forall>w \<in># K. prio v < prio w"
  shows "xs \<noteq> []" "xs ! 0 = v"
proof -
  show "xs \<noteq> []" using assms(2) by auto
  then have "xs ! 0 \<in># add_mset v K" by (simp flip: assms(2))
  moreover have "prio (xs ! 0) \<le> prio v"
    using heap_min_set [OF ih_okD(3) [OF assms(1)]] assms(2)
    by (metis set_mset_mset union_single_eq_member)
  ultimately show "xs ! 0 = v" using assms(3) by (auto simp: not_le)
qed

lemma only_heap_get_first:
  assumes "only_heap P prio m (add_mset v K) s" "\<forall>w \<in># K. prio v < prio w"
  shows "im_get kv_store P m 0 s = Some (Some v, s)"
proof -
  obtain xs where xs: "ih_ok P prio m xs s" "mset xs = add_mset v K"
    using assms(1) by (auto elim: only_heapE)
  show ?thesis
    using least_first [OF xs assms(2)] kv_get [OF ih_okD(1) [OF xs(1)], of 0] by simp
qed

lemma only_heap_extract:
  assumes H: "only_heap P prio m (add_mset v K) s" and v: "\<forall>w \<in># K. prio v < prio w" and K: "K \<noteq> {#}"
  shows "\<exists>s'. ih_extract kv_store P m s = Some (Some v, s') \<and> only_heap P prio m K s'"
proof -
  obtain xs where xs: "ih_ok P prio m xs s" "only_map P m xs s" "mset xs = add_mset v K"
    "same_but (domain m) Map.empty s"
    using H by (rule only_heapE)
  note f = least_first [OF xs(1,3) v]
  obtain s' zs where "ih_extract kv_store P m s = Some (Some v, s')" "ih_ok P prio m zs s'" "mset zs = K"
    "same_but (domain m) s s'"
    using kv_extract [OF xs(1) f(1)] f(2) xs(3) by auto
  then show ?thesis using only_heapI [OF _ xs(4)] K by blast
qed

lemma only_heap_get_by:
  assumes "only_heap P prio m K s"
  shows "v \<in># K \<Longrightarrow> im_get_by kv_store P m (vkey P v) s = Some (Some v, s)"
    and "k \<notin> vkey P ` set_mset K \<Longrightarrow> im_get_by kv_store P m k s = Some (None, s)"
proof -
  obtain xs where xs: "ih_ok P prio m xs s" "mset xs = K" using assms by (auto elim: only_heapE)
  note g = kv_get_by [OF ih_okD(1) [OF xs(1)]]
  show "im_get_by kv_store P m (vkey P v) s = Some (Some v, s)" if "v \<in># K"
  proof -
    have "v \<in> set xs" using that xs(2) by auto
    then obtain w where w: "List.find (\<lambda>x. vkey P x = vkey P v) xs = Some w"
      by (metis (mono_tags) find_None_iff option.exhaust)
    then have "w \<in> set xs" "vkey P w = vkey P v" by (auto simp: find_Some_iff)
    then have "w = v"
      using im_rep_distinct [OF ih_okD(2) [OF xs(1)]] \<open>v \<in> set xs\<close> by (auto simp: distinct_map inj_on_def)
    then show ?thesis using g w by simp
  qed
  show "im_get_by kv_store P m k s = Some (None, s)" if "k \<notin> vkey P ` set_mset K"
  proof -
    have "List.find (\<lambda>x. vkey P x = k) xs = None" using that xs(2) by (auto simp: find_None_iff)
    then show ?thesis using g by simp
  qed
qed

lemma only_heap_values:
  assumes "only_heap P prio m K s"
  shows "\<exists>vs. ih_unordered_values kv_store P m s = Some (vs, s) \<and> mset vs = K \<and> length vs = size K \<and>
     (\<forall>v K'. K = add_mset v K' \<longrightarrow> (\<forall>w \<in># K'. prio v < prio w) \<longrightarrow> vs ! 0 = v)"
proof -
  obtain xs where xs: "ih_ok P prio m xs s" "mset xs = K" using assms by (auto elim: only_heapE)
  moreover have "xs ! 0 = v" if "K = add_mset v K'" "\<forall>w \<in># K'. prio v < prio w" for v K'
    using least_first(2) [OF xs(1) xs(2) [unfolded that(1)] that(2)] .
  moreover have "length xs = size K" using xs(2) by (metis size_mset)
  ultimately show ?thesis using kv_unordered_values [OF ih_okD(1) [OF xs(1)]] by auto
qed

lemma only_heap_change_key:
  assumes H: "only_heap P prio m (add_mset w K) s" and v: "vkey P v = vkey P w" "prio v \<noteq> prio w"
  shows "\<exists>s'. ih_change_key kv_store P m v s = Some ((), s') \<and> only_heap P prio m (add_mset v K) s'"
proof -
  obtain xs where xs: "ih_ok P prio m xs s" "only_map P m xs s" "mset xs = add_mset w K"
    "same_but (domain m) Map.empty s"
    using H by (rule only_heapE)
  have "w \<in> set xs" using xs(3) by (metis set_mset_mset union_single_eq_member)
  then obtain j where j: "j < length xs" "xs ! j = w" by (auto simp: in_set_conv_nth)
  obtain s' zs where z: "ih_change_key kv_store P m v s = Some ((), s')" "ih_ok P prio m zs s'"
    "mset zs = add_mset v K" "same_but (domain m) s s'"
    using kv_change_key [OF xs(1) j(1), of v] v j(2) xs(3) by auto
  show ?thesis using only_heapI [OF z(2) xs(4) z(4,3)] z(1) by simp
qed

lemma only_heap_remove:
  assumes H: "only_heap P prio m (add_mset v K) s" and K: "K \<noteq> {#}"
  shows "\<exists>s'. ih_remove_item kv_store P m (vkey P v) s = Some ((), s') \<and> only_heap P prio m K s'"
proof -
  obtain xs where xs: "ih_ok P prio m xs s" "only_map P m xs s" "mset xs = add_mset v K"
    "same_but (domain m) Map.empty s"
    using H by (rule only_heapE)
  have "v \<in> set xs" using xs(3) by (metis set_mset_mset union_single_eq_member)
  then obtain j where j: "j < length xs" "xs ! j = v" by (auto simp: in_set_conv_nth)
  obtain s' zs where "ih_remove_item kv_store P m (vkey P v) s = Some ((), s')" "ih_ok P prio m zs s'"
    "mset zs = K" "same_but (domain m) s s'"
    using kv_remove_item [OF xs(1) j(1)] j(2) xs(3) by auto
  then show ?thesis using only_heapI [OF _ xs(4)] K by blast
qed

lemma only_heap_remove_none:
  "only_heap P prio m K s \<Longrightarrow> k \<notin> vkey P ` set_mset K \<Longrightarrow> ih_remove_item kv_store P m k s = Some ((), s)"
  using kv_remove_none [OF ih_okD(1)] by (fastforce elim: only_heapE)

lemma only_heap_clear:
  assumes H: "only_heap P prio m K s"
  shows "\<exists>s'. im_clear kv_store P m s = Some ((), s') \<and> only_heap P prio m {#} s'"
proof -
  obtain xs where xs: "ih_ok P prio m xs s" "same_but (domain m) Map.empty s"
    using H by (auto elim: only_heapE)
  obtain s' where s': "im_clear kv_store P m s = Some ((), s')" "im_ok P m [] s'" "same_but (domain m) s s'"
    using kv_clear [OF ih_okD(1) [OF xs(1)]] by blast
  have "ih_ok P prio m [] s'" using s'(2) ih_okD(4) [OF xs(1)] by (simp add: ih_ok_def heap_def)
  then show ?thesis using only_heapI [OF _ xs(2) s'(3), of P prio "[]"] clear_sets_length [OF s'(1)] s'(1) by auto
qed

end

section \<open>The values of the test\<close>

text \<open>
  \<open>ser\<close> and \<open>de\<close> are borsh on pairs of a vector and a \<open>u32\<close>.  \<open>PartialEq\<close> and \<open>PartialOrd\<close> compare the
  number only; \<open>Ord\<close> is derived and compares the name first.
\<close>

datatype test_u32 = TestU32 (tu_name: rust_string) (tu_data: u32)

definition test_u32_into :: "(bytes \<times> u32 \<Rightarrow> bytes) \<Rightarrow> test_u32 \<Rightarrow> bytes" where
  "test_u32_into ser v = ser (as_bytes (tu_name v), tu_data v)"

definition test_u32_from :: "(bytes \<Rightarrow> (bytes \<times> u32) option) \<Rightarrow> bytes \<Rightarrow> test_u32 option" where
  "test_u32_from de bs = do { r \<leftarrow> de bs; name \<leftarrow> try_string (fst r); Some (TestU32 name (snd r)) }"

definition test_u32_eq :: "test_u32 \<Rightarrow> test_u32 \<Rightarrow> bool" where
  "test_u32_eq v w \<longleftrightarrow> tu_data v = tu_data w"

definition test_u32_partial_cmp :: "test_u32 \<Rightarrow> test_u32 \<Rightarrow> ordering option" where
  "test_u32_partial_cmp v w = Some (cmp_of (tu_data v) (tu_data w))"

definition test_u32_cmp :: "test_u32 \<Rightarrow> test_u32 \<Rightarrow> ordering" where
  "test_u32_cmp v w =
     (case cmp_of (as_bytes (tu_name v)) (as_bytes (tu_name w)) of
        Equal \<Rightarrow> cmp_of (tu_data v) (tu_data w)
      | c \<Rightarrow> c)"

definition test_u32_ops ::
    "(bytes \<times> u32 \<Rightarrow> bytes) \<Rightarrow> (bytes \<Rightarrow> (bytes \<times> u32) option) \<Rightarrow> test_u32 vops" where
  "test_u32_ops ser de =
     \<lparr>vkey = \<lambda>v. as_bytes (tu_name v), vinto = test_u32_into ser, vfrom = test_u32_from de,
      vpartial_cmp = test_u32_partial_cmp, vcmp = test_u32_cmp\<rparr>"

lemma test_u32_key [simp]: "vkey (test_u32_ops ser de) = (\<lambda>v. as_bytes (tu_name v))"
  by (simp add: test_u32_ops_def)

locale named_codec =
  fixes ser :: "bytes \<times> u32 \<Rightarrow> bytes" and de :: "bytes \<Rightarrow> (bytes \<times> u32) option"
  assumes named_roundtrip: "length bs < 2 ^ 32 \<Longrightarrow> de (ser (bs, n)) = Some (bs, n)"
    and named_nonempty: "ser z \<noteq> []"

sublocale named_codec \<subseteq> test_u32: keyed_value "test_u32_ops ser de" tu_data
  by unfold_locales
     (simp_all add: test_u32_ops_def test_u32_into_def test_u32_from_def named_roundtrip named_nonempty
        test_u32_partial_cmp_def test_u32_cmp_def cmp_of_def)

sublocale named_codec \<subseteq> kv_test_u32: stored_values kv_store "(=)" "test_u32_ops ser de" tu_data
  by unfold_locales

definition std_ser_named :: "bytes \<times> u32 \<Rightarrow> bytes" where
  "std_ser_named z = u32_to_le (of_nat (length (fst z))) @ fst z @ u32_to_le (snd z)"

definition std_de_named :: "bytes \<Rightarrow> (bytes \<times> u32) option" where
  "std_de_named bs = do {
     len \<leftarrow> u32_from_le (take 4 bs);
     let rest = drop 4 bs;
     n \<leftarrow> u32_from_le (drop (unat len) rest);
     Some (take (unat len) rest, n)
   }"

interpretation std_named: named_codec std_ser_named std_de_named
  by unfold_locales (simp_all add: std_ser_named_def std_de_named_def unat_of_nat)

section \<open>The concrete operations\<close>

definition boy :: rust_string where "boy = string_of [98, 111, 121]"
definition cat :: rust_string where "cat = string_of [99, 97, 116]"
definition duck :: rust_string where "duck = string_of [100, 117, 99, 107]"
definition egg :: rust_string where "egg = string_of [101, 103, 103]"
definition fan :: rust_string where "fan = string_of [102, 97, 110]"
definition hammer :: rust_string where "hammer = string_of [104, 97, 109, 109, 101, 114]"

lemma word_bytes [simp]:
  "as_bytes boy = [98, 111, 121]" "as_bytes cat = [99, 97, 116]" "as_bytes duck = [100, 117, 99, 107]"
  "as_bytes egg = [101, 103, 103]" "as_bytes fan = [102, 97, 110]"
  "as_bytes hammer = [104, 97, 109, 109, 101, 114]"
  by (simp_all add: boy_def cat_def duck_def egg_def fan_def hammer_def)

text \<open>Insertions one after the other, each result unwrapped.\<close>

fun insert_each :: "'s nas \<Rightarrow> 'v vops \<Rightarrow> index_map \<Rightarrow> 'v list \<Rightarrow> 's \<Rightarrow> 's option" where
  "insert_each N P m [] s = Some s"
| "insert_each N P m (v # vs) s = do {
     (r, s) \<leftarrow> ih_insert N P m v s;
     _ \<leftarrow> unwrap r;
     insert_each N P m vs s
   }"

text \<open>The blocks of the test; \<open>kv.inner.len()\<close> is the number of entries of the map.\<close>

definition insert_elements :: "test_u32 vops \<Rightarrow> bytes bytemap \<Rightarrow> bytes bytemap option" where
  "insert_elements P kv = do {
     let heap = ih_new [] 32;
     kv \<leftarrow> insert_each kv_store P heap [TestU32 apple 5, TestU32 boy 25, TestU32 cat 12, TestU32 duck 17,
       TestU32 egg 36, TestU32 fan 100, TestU32 hammer 19] kv;
     (n, kv) \<leftarrow> im_length kv_store heap kv;
     _ \<leftarrow> assert (n = 7);
     _ \<leftarrow> assert (card (dom kv) = 1 + 7 * 2);
     Some kv
   }"

definition extract_elements :: "test_u32 vops \<Rightarrow> bytes bytemap \<Rightarrow> bytes bytemap option" where
  "extract_elements P kv = do {
     let heap = ih_new [] 32;
     (v, kv) \<leftarrow> ih_extract kv_store P heap kv;
     v \<leftarrow> v;
     _ \<leftarrow> assert (test_u32_eq v (TestU32 apple 5));
     (v, kv) \<leftarrow> ih_extract kv_store P heap kv;
     v \<leftarrow> v;
     _ \<leftarrow> assert (test_u32_eq v (TestU32 cat 12));
     (v, kv) \<leftarrow> ih_extract kv_store P heap kv;
     v \<leftarrow> v;
     _ \<leftarrow> assert (test_u32_eq v (TestU32 duck 17));
     (n, kv) \<leftarrow> im_length kv_store heap kv;
     _ \<leftarrow> assert (n = 4);
     _ \<leftarrow> assert (card (dom kv) = 1 + 4 * 2);
     Some kv
   }"

definition change_keys :: "test_u32 vops \<Rightarrow> bytes bytemap \<Rightarrow> bytes bytemap option" where
  "change_keys P kv = do {
     let heap = ih_new [] 32;
     (_, kv) \<leftarrow> ih_change_key kv_store P heap (TestU32 egg 17) kv;
     (v, kv) \<leftarrow> im_get kv_store P heap 0 kv;
     v \<leftarrow> v;
     _ \<leftarrow> assert (test_u32_eq v (TestU32 egg 17));
     (v, kv) \<leftarrow> im_get_by kv_store P heap (as_bytes egg) kv;
     v \<leftarrow> v;
     _ \<leftarrow> assert (tu_data v = 17);
     (n, kv) \<leftarrow> im_length kv_store heap kv;
     _ \<leftarrow> assert (n = 4);
     (values, kv) \<leftarrow> ih_unordered_values kv_store P heap kv;
     _ \<leftarrow> assert (values \<noteq> []);
     _ \<leftarrow> assert (test_u32_eq (values ! 0) (TestU32 egg 17));
     _ \<leftarrow> assert (card (dom kv) = 1 + 4 * 2);
     let heap = ih_new [] 32;
     (_, kv) \<leftarrow> ih_change_key kv_store P heap (TestU32 egg 20) kv;
     (v, kv) \<leftarrow> im_get kv_store P heap 0 kv;
     v \<leftarrow> v;
     _ \<leftarrow> assert (test_u32_eq v (TestU32 hammer 19));
     (v, kv) \<leftarrow> im_get_by kv_store P heap (as_bytes egg) kv;
     v \<leftarrow> v;
     _ \<leftarrow> assert (tu_data v = 20);
     (n, kv) \<leftarrow> im_length kv_store heap kv;
     _ \<leftarrow> assert (n = 4);
     (values, kv) \<leftarrow> ih_unordered_values kv_store P heap kv;
     _ \<leftarrow> assert (values \<noteq> []);
     _ \<leftarrow> assert (test_u32_eq (values ! 0) (TestU32 hammer 19));
     _ \<leftarrow> assert (card (dom kv) = 1 + 4 * 2);
     Some kv
   }"

text \<open>One block of the removals: the key, and the numbers of values it leaves.\<close>

definition remove_element :: "test_u32 vops \<Rightarrow> rust_string \<Rightarrow> nat \<Rightarrow> bytes bytemap \<Rightarrow> bytes bytemap option" where
  "remove_element P key n kv = do {
     let heap = ih_new [] 32;
     (_, kv) \<leftarrow> ih_remove_item kv_store P heap (as_bytes key) kv;
     (values, kv) \<leftarrow> ih_unordered_values kv_store P heap kv;
     _ \<leftarrow> assert (length values = n);
     _ \<leftarrow> assert (card (dom kv) = 1 + n * 2);
     Some kv
   }"

definition clear_all :: "test_u32 vops \<Rightarrow> bytes bytemap \<Rightarrow> bytes bytemap option" where
  "clear_all P kv = do {
     let heap = ih_new [] 32;
     (_, kv) \<leftarrow> im_clear kv_store P heap kv;
     (n, kv) \<leftarrow> im_length kv_store heap kv;
     _ \<leftarrow> assert (n = 0);
     _ \<leftarrow> assert (card (dom kv) = 1);
     Some kv
   }"

text \<open>The values of the loop over \<open>i..j\<close>, numbered and weighing \<open>k * i\<close>.\<close>

definition weights :: "nat \<Rightarrow> nat \<Rightarrow> nat \<Rightarrow> test_u32 list" where
  "weights k i j = map (\<lambda>i. TestU32 (to_string i) (of_nat (k * i))) [i..<j]"

definition full_heap :: "test_u32 vops \<Rightarrow> bytes bytemap \<Rightarrow> bytes bytemap option" where
  "full_heap P kv = do {
     let heap = ih_new [] 65535;
     kv \<leftarrow> insert_each kv_store P heap (weights 1 1 65536) kv;
     (n, kv) \<leftarrow> im_length kv_store heap kv;
     _ \<leftarrow> assert (n = 65535);
     (r, kv) \<leftarrow> ih_insert kv_store P heap (TestU32 (to_string 0) 0) kv;
     _ \<leftarrow> assert (isl r);
     (n, kv) \<leftarrow> im_length kv_store heap kv;
     _ \<leftarrow> assert (n = 65535);
     _ \<leftarrow> assert (card (dom kv) = 1 + 65535 * 2);
     Some kv
   }"

definition insert_extract_full :: "test_u32 vops \<Rightarrow> bytes bytemap \<Rightarrow> unit option" where
  "insert_extract_full P kv = do {
     let heap = ih_new [] 65535;
     (result, kv) \<leftarrow> ih_insert_extract kv_store P heap (TestU32 (to_string 0) 0) kv;
     _ \<leftarrow> assert (isl result);
     (n, kv) \<leftarrow> im_length kv_store heap kv;
     _ \<leftarrow> assert (n = 65535);
     (result, kv) \<leftarrow> ih_insert_extract kv_store P heap (TestU32 (to_string 65536) 65536) kv;
     result \<leftarrow> unwrap result;
     result \<leftarrow> result;
     _ \<leftarrow> assert (tu_name result = to_string 1);
     _ \<leftarrow> assert (tu_data result = 1);
     (n, kv) \<leftarrow> im_length kv_store heap kv;
     _ \<leftarrow> assert (n = 65535);
     assert (card (dom kv) = 1 + 65535 * 2)
   }"

definition test_binary_heap :: "test_u32 vops \<Rightarrow> unit option" where
  "test_binary_heap P = do {
     let kv = Map.empty;
     kv \<leftarrow> insert_elements P kv;
     kv \<leftarrow> extract_elements P kv;
     kv \<leftarrow> change_keys P kv;
     kv \<leftarrow> remove_element P not_exist 4 kv;
     kv \<leftarrow> remove_element P duck 4 kv;
     kv \<leftarrow> remove_element P egg 3 kv;
     kv \<leftarrow> remove_element P fan 2 kv;
     kv \<leftarrow> clear_all P kv;
     kv \<leftarrow> full_heap P kv;
     insert_extract_full P kv
   }"

section \<open>They pass\<close>

lemma ih_new_simps [simp]:
  "domain (ih_new d c) = d" "capacity (ih_new d c) = c"
  by (simp_all add: ih_new_def)

lemma only_heap_empty: "unat c < 2 ^ 31 \<Longrightarrow> im_ok P (ih_new [] c) [] Map.empty \<and> heap prio []"
  by (simp add: im_ok_def im_rep_empty heap_def)

text \<open>Another handle on the same store, with another capacity.\<close>

lemma only_heap_capacity:
  assumes "only_heap P prio (ih_new [] c) K s" "size K \<le> unat c'" "unat c' < 2 ^ 31"
  shows "only_heap P prio (ih_new [] c') K s"
proof -
  obtain xs where "ih_ok P prio (ih_new [] c) xs s" "only_map P (ih_new [] c) xs s" "mset xs = K"
    using assms(1) by (auto elim: only_heapE)
  then show ?thesis using assms(2,3) unfolding only_heap_def only_map_def ih_ok_def im_ok_def by auto
qed

context keyed_value
begin

lemma insert_each_ok:
  "only_heap P prio m K s \<Longrightarrow> distinct (map (vkey P) vs) \<Longrightarrow>
   vkey P ` set vs \<inter> vkey P ` set_mset K = {} \<Longrightarrow> size K + length vs \<le> unat (capacity m) \<Longrightarrow>
     \<exists>s'. insert_each kv_store P m vs s = Some s' \<and> only_heap P prio m (K + mset vs) s'"
proof (induction vs arbitrary: K s)
  case (Cons v vs)
  obtain s1 where 1: "ih_insert kv_store P m v s = Some (Inr (), s1)" "only_heap P prio m (add_mset v K) s1"
    using only_heap_insert [OF Cons.prems(1)] Cons.prems(3,4) by force
  obtain s2 where "insert_each kv_store P m vs s1 = Some s2" "only_heap P prio m (add_mset v K + mset vs) s2"
    using Cons.IH [OF 1(2)] Cons.prems(2-4) by force
  then show ?case using 1(1) by auto
qed auto

text \<open>The first insertions, into an empty store.\<close>

lemma insert_first:
  assumes "distinct (map (vkey P) vs)" "length vs \<le> unat c" "vs \<noteq> []" "unat c < 2 ^ 31"
  shows "\<exists>s'. insert_each kv_store P (ih_new [] c) vs Map.empty = Some s' \<and>
     only_heap P prio (ih_new [] c) (mset vs) s'"
proof -
  let ?m = "ih_new [] c"
  obtain v ws where vs: "vs = v # ws" using assms(3) by (cases vs) auto
  have 0: "ih_ok P prio ?m [] Map.empty" using only_heap_empty [OF assms(4)] assms(4) by (simp add: ih_ok_def)
  obtain s1 zs where z: "ih_insert kv_store P ?m v Map.empty = Some (Inr (), s1)" "ih_ok P prio ?m zs s1"
    "mset zs = {#v#}" "same_but (domain ?m) Map.empty s1"
    using kv_insert [OF 0, of v] assms(2) vs by auto
  have 1: "only_heap P prio ?m {#v#} s1" using only_heapI [OF z(2) same_but_refl z(4,3)] by simp
  obtain s2 where "insert_each kv_store P ?m ws s1 = Some s2" "only_heap P prio ?m ({#v#} + mset ws) s2"
    using insert_each_ok [OF 1, of ws] assms(1,2) vs by force
  then show ?thesis using z(1) by (auto simp: vs)
qed

end

text \<open>The values of the small heap.\<close>

definition small_heap :: "test_u32 multiset" where
  "small_heap = {#TestU32 boy 25, TestU32 egg 36, TestU32 fan 100, TestU32 hammer 19#}"

lemma words_distinct [simp]:
  "boy \<noteq> egg" "boy \<noteq> fan" "boy \<noteq> hammer" "egg \<noteq> fan" "egg \<noteq> hammer" "fan \<noteq> hammer"
  by (rule notI, drule arg_cong [of _ _ as_bytes], simp)+

context named_codec
begin

abbreviation "ops \<equiv> test_u32_ops ser de"
abbreviation "holds_heap c \<equiv> only_heap ops tu_data (ih_new [] c)"

lemma insert_elements_passes:
  "\<exists>s. insert_elements ops Map.empty = Some s \<and>
     holds_heap 32 (add_mset (TestU32 apple 5) (add_mset (TestU32 cat 12) (add_mset (TestU32 duck 17) small_heap))) s"
proof -
  let ?vs = "[TestU32 apple 5, TestU32 boy 25, TestU32 cat 12, TestU32 duck 17,
       TestU32 egg 36, TestU32 fan 100, TestU32 hammer 19]"
  let ?K = "add_mset (TestU32 apple 5) (add_mset (TestU32 cat 12) (add_mset (TestU32 duck 17) small_heap))"
  have K: "mset ?vs = ?K" by (simp add: small_heap_def)
  obtain s where s: "insert_each kv_store ops (ih_new [] 32) ?vs Map.empty = Some s" "holds_heap 32 ?K s"
    using test_u32.insert_first [of ?vs 32] unfolding K by auto
  have n: "size ?K = 7" by (simp add: small_heap_def)
  have "insert_elements ops Map.empty = Some s"
    using s(1) only_heap_length [OF s(2)] only_heap_card [OF s(2)] unfolding n
    by (simp add: insert_elements_def Let_def del: insert_each.simps)
  then show ?thesis using s(2) by blast
qed

lemma extract_elements_passes:
  assumes H: "holds_heap 32
    (add_mset (TestU32 apple 5) (add_mset (TestU32 cat 12) (add_mset (TestU32 duck 17) small_heap))) s"
  shows "\<exists>s'. extract_elements ops s = Some s' \<and> holds_heap 32 small_heap s'"
proof -
  obtain s1 where 1: "ih_extract kv_store ops (ih_new [] 32) s = Some (Some (TestU32 apple 5), s1)"
    "holds_heap 32 (add_mset (TestU32 cat 12) (add_mset (TestU32 duck 17) small_heap)) s1"
    using test_u32.only_heap_extract [OF H] by (auto simp: small_heap_def)
  obtain s2 where 2: "ih_extract kv_store ops (ih_new [] 32) s1 = Some (Some (TestU32 cat 12), s2)"
    "holds_heap 32 (add_mset (TestU32 duck 17) small_heap) s2"
    using test_u32.only_heap_extract [OF 1(2)] by (auto simp: small_heap_def)
  obtain s3 where 3: "ih_extract kv_store ops (ih_new [] 32) s2 = Some (Some (TestU32 duck 17), s3)"
    "holds_heap 32 small_heap s3"
    using test_u32.only_heap_extract [OF 2(2)] by (auto simp: small_heap_def)
  have n: "size small_heap = 4" by (simp add: small_heap_def)
  have "extract_elements ops s = Some s3"
    using 1(1) 2(1) 3(1) only_heap_length [OF 3(2)] only_heap_card [OF 3(2)] unfolding n
    by (simp add: extract_elements_def test_u32_eq_def)
  then show ?thesis using 3(2) by blast
qed

text \<open>What the test checks after a change of the key \<open>egg\<close>.\<close>

lemma checks:
  assumes H: "holds_heap 32 K s" and K: "K = add_mset v K'" "\<forall>w \<in># K'. tu_data v < tu_data w" and e: "e \<in># K"
  shows "im_get kv_store ops (ih_new [] 32) 0 s = Some (Some v, s)"
    and "im_get_by kv_store ops (ih_new [] 32) (as_bytes (tu_name e)) s = Some (Some e, s)"
    and "\<exists>vs. ih_unordered_values kv_store ops (ih_new [] 32) s = Some (vs, s) \<and> vs \<noteq> [] \<and> vs ! 0 = v"
proof -
  show "im_get kv_store ops (ih_new [] 32) 0 s = Some (Some v, s)"
    by (rule test_u32.only_heap_get_first [OF H [unfolded K(1)] K(2)])
  show "im_get_by kv_store ops (ih_new [] 32) (as_bytes (tu_name e)) s = Some (Some e, s)"
    using test_u32.only_heap_get_by(1) [OF H e] by simp
  show "\<exists>vs. ih_unordered_values kv_store ops (ih_new [] 32) s = Some (vs, s) \<and> vs \<noteq> [] \<and> vs ! 0 = v"
    using test_u32.only_heap_values [OF H] K by force
qed

lemma change_keys_passes:
  assumes H: "holds_heap 32 small_heap s"
  shows "\<exists>s'. change_keys ops s = Some s' \<and>
    holds_heap 32 {#TestU32 egg 20, TestU32 boy 25, TestU32 fan 100, TestU32 hammer 19#} s'"
proof -
  let ?r = "{#TestU32 boy 25, TestU32 fan 100, TestU32 hammer 19#}"
  have "holds_heap 32 (add_mset (TestU32 egg 36) ?r) s" using H by (simp add: small_heap_def add_mset_commute)
  from test_u32.only_heap_change_key [OF this, of "TestU32 egg 17"] obtain s1 where
    1: "ih_change_key kv_store ops (ih_new [] 32) (TestU32 egg 17) s = Some ((), s1)"
      "holds_heap 32 (add_mset (TestU32 egg 17) ?r) s1"
    by auto
  from test_u32.only_heap_change_key [OF 1(2), of "TestU32 egg 20"] obtain s2 where
    2: "ih_change_key kv_store ops (ih_new [] 32) (TestU32 egg 20) s1 = Some ((), s2)"
      "holds_heap 32 (add_mset (TestU32 egg 20) ?r) s2"
    by auto
  note c1 = checks [OF 1(2) refl, of "TestU32 egg 17"]
  note c2 = checks [OF 2(2), of "TestU32 hammer 19" "{#TestU32 boy 25, TestU32 fan 100, TestU32 egg 20#}" "TestU32 egg 20"]
  obtain vs ws where "ih_unordered_values kv_store ops (ih_new [] 32) s1 = Some (vs, s1)" "vs \<noteq> []"
    "vs ! 0 = TestU32 egg 17" "ih_unordered_values kv_store ops (ih_new [] 32) s2 = Some (ws, s2)" "ws \<noteq> []"
    "ws ! 0 = TestU32 hammer 19"
    using c1(3) c2(3) by (auto simp: add_mset_commute)
  then show ?thesis
    using 1(1) 2 c1(1,2) c2(1,2) only_heap_length [OF 1(2)] only_heap_length [OF 2(2)]
      only_heap_card [OF 1(2)] only_heap_card [OF 2(2)]
    by (simp add: change_keys_def test_u32_eq_def add_mset_commute del: word_bytes)
qed

lemma remove_element_none:
  assumes H: "holds_heap 32 K s" and k: "as_bytes key \<notin> (\<lambda>v. as_bytes (tu_name v)) ` set_mset K"
    and n: "n = size K"
  shows "remove_element ops key n s = Some s"
proof -
  have "ih_remove_item kv_store ops (ih_new [] 32) (as_bytes key) s = Some ((), s)"
    using test_u32.only_heap_remove_none [OF H] k by simp
  moreover obtain vs where "ih_unordered_values kv_store ops (ih_new [] 32) s = Some (vs, s)" "length vs = size K"
    using test_u32.only_heap_values [OF H] by blast
  ultimately show ?thesis using only_heap_card [OF H] n by (simp add: remove_element_def)
qed

lemma remove_element_passes:
  assumes H: "holds_heap 32 (add_mset v K) s" and K: "K \<noteq> {#}" "n = size K"
  shows "\<exists>s'. remove_element ops (tu_name v) n s = Some s' \<and> holds_heap 32 K s'"
proof -
  obtain s' where s': "ih_remove_item kv_store ops (ih_new [] 32) (as_bytes (tu_name v)) s = Some ((), s')"
    "holds_heap 32 K s'"
    using test_u32.only_heap_remove [OF H K(1)] by auto
  obtain vs where "ih_unordered_values kv_store ops (ih_new [] 32) s' = Some (vs, s')" "length vs = size K"
    using test_u32.only_heap_values [OF s'(2)] by blast
  then show ?thesis using s' only_heap_card [OF s'(2)] K(2) by (simp add: remove_element_def)
qed

lemma clear_all_passes:
  assumes H: "holds_heap 32 K s"
  shows "\<exists>s'. clear_all ops s = Some s' \<and> holds_heap 32 {#} s'"
  using test_u32.only_heap_clear [OF H] only_heap_length only_heap_card
  by (fastforce simp: clear_all_def)

end

section \<open>The full heap\<close>

lemma length_weights [simp]: "length (weights k i j) = j - i"
  by (simp add: weights_def)

lemma weights_empty [simp]: "weights k i j = [] \<longleftrightarrow> j \<le> i"
  by (auto simp: weights_def)

lemma weights_keys:
  "j \<le> 4294967295 \<Longrightarrow> distinct (map (\<lambda>v. as_bytes (tu_name v)) (weights k i j))"
  "j \<le> 4294967295 \<Longrightarrow> as_bytes (tu_name v) = decimal n \<Longrightarrow> v \<in> set (weights k i j) \<Longrightarrow> i \<le> n \<and> n < j"
  by (auto simp: weights_def distinct_map inj_on_def)

lemma weights_data:
  "v \<in> set (weights k i j) \<Longrightarrow> k * j < 4294967296 \<Longrightarrow>
     \<exists>n. i \<le> n \<and> n < j \<and> tu_name v = to_string n \<and> unat (tu_data v) = k * n"
proof -
  assume v: "v \<in> set (weights k i j)" and b: "k * j < 4294967296"
  then obtain n where n: "i \<le> n" "n < j" "v = TestU32 (to_string n) (of_nat (k * n))"
    by (auto simp: weights_def)
  have "k * n < 4294967296" using b mult_le_mono2 [OF less_imp_le [OF n(2)], of k] by linarith
  then have "unat (of_nat (k * n) :: u32) = k * n" by (subst unat_of_nat) simp
  then show ?thesis using n by auto
qed

lemma weights_Cons: "i < j \<Longrightarrow> weights k i j = TestU32 (to_string i) (of_nat (k * i)) # weights k (Suc i) j"
  by (simp add: weights_def upt_conv_Cons)

context keyed_value
begin

lemma only_heap_insert_extract_full:
  assumes H: "only_heap P prio m (add_mset w K) s" and w: "\<forall>x \<in># K. prio w < prio x"
    and n: "size K + 1 = unat (capacity m)"
  shows "prio v < prio w \<Longrightarrow> ih_insert_extract kv_store P m v s = Some (Inl IndexHeapOperationError, s)"
    and "\<not> prio v < prio w \<Longrightarrow> vkey P v \<notin> vkey P ` set_mset K \<Longrightarrow>
      \<exists>s'. ih_insert_extract kv_store P m v s = Some (Inr (Some w), s') \<and> only_heap P prio m (add_mset v K) s'"
proof -
  obtain xs where xs: "ih_ok P prio m xs s" "only_map P m xs s" "mset xs = add_mset w K"
    "same_but (domain m) Map.empty s"
    using H by (rule only_heapE)
  note f = least_first [OF xs(1,3) w]
  have "length xs = unat (capacity m)" using n xs(3) by (metis Suc_eq_plus1 size_add_mset size_mset)
  note ie = kv_insert_extract_full [OF xs(1) this f(1), of v, unfolded f(2)]
  show "ih_insert_extract kv_store P m v s = Some (Inl IndexHeapOperationError, s)" if "prio v < prio w"
    using ie that by simp
  show "\<exists>s'. ih_insert_extract kv_store P m v s = Some (Inr (Some w), s') \<and> only_heap P prio m (add_mset v K) s'"
    if c: "\<not> prio v < prio w" "vkey P v \<notin> vkey P ` set_mset K"
  proof -
    obtain s' zs where z: "ih_insert_extract kv_store P m v s = Some (Inr (Some w), s')" "ih_ok P prio m zs s'"
      "mset zs = add_mset v K" "same_but (domain m) s s'"
      using ie c xs(3) by auto
    then show ?thesis using only_heapI [OF z(2) xs(4) z(4,3)] by simp
  qed
qed

end

context named_codec
begin

lemma full_heap_passes:
  assumes H: "holds_heap 32 {#} s"
  shows "\<exists>s'. full_heap ops s = Some s' \<and> holds_heap 65535 (mset (weights 1 1 65536)) s'"
proof -
  have 0: "holds_heap 65535 {#} s" by (rule only_heap_capacity [OF H]) simp_all
  obtain s1 where 1: "insert_each kv_store ops (ih_new [] 65535) (weights 1 1 65536) s = Some s1"
    "holds_heap 65535 (mset (weights 1 1 65536)) s1"
    using test_u32.insert_each_ok [OF 0, of "weights 1 1 65536"] weights_keys(1) [of 65536 1 1]
    by (auto simp del: One_nat_def)
  then show ?thesis
    using only_heap_length [OF 1(2)] only_heap_card [OF 1(2)]
      test_u32.only_heap_insert_full [OF 1(2), of "TestU32 (to_string 0) 0"]
    by (simp add: full_heap_def Let_def del: One_nat_def)
qed

lemma insert_extract_full_passes:
  assumes H: "holds_heap 65535 (mset (weights 1 1 65536)) s"
  shows "insert_extract_full ops s = Some ()"
proof -
  let ?w = "TestU32 (to_string 1) 1" and ?K = "mset (weights 1 2 65536)"
  let ?m = "ih_new [] 65535" and ?big = "TestU32 (to_string 65536) 65536"
  have "weights 1 1 65536 = ?w # weights 1 2 65536"
    using weights_Cons [of 1 65536 1] by (simp add: numeral_2_eq_2)
  then have 0: "holds_heap 65535 (add_mset ?w ?K) s" using H by simp
  have least: "\<forall>x \<in># ?K. tu_data ?w < tu_data x"
    using weights_data [of _ 1 2 65536] by (fastforce simp: word_less_nat_alt)
  note ie = test_u32.only_heap_insert_extract_full [OF 0 least]
  have small: "ih_insert_extract kv_store ops ?m (TestU32 (to_string 0) 0) s = Some (Inl IndexHeapOperationError, s)"
    by (rule ie(1)) simp_all
  have "vkey ops ?big \<notin> vkey ops ` set_mset ?K"
    using weights_keys(2) [of 65536 _ 65536 1 2] by fastforce
  then obtain s' where s': "ih_insert_extract kv_store ops ?m ?big s = Some (Inr (Some ?w), s')"
    "holds_heap 65535 (add_mset ?big ?K) s'"
    using ie(2) [of ?big] by auto
  show ?thesis
    using small s'(1) only_heap_length [OF 0] only_heap_length [OF s'(2)] only_heap_card [OF s'(2)]
    by (simp add: insert_extract_full_def Let_def)
qed

lemma test_binary_heap_passes: "test_binary_heap ops = Some ()"
proof -
  obtain s1 where 1: "insert_elements ops Map.empty = Some s1" "holds_heap 32
     (add_mset (TestU32 apple 5) (add_mset (TestU32 cat 12) (add_mset (TestU32 duck 17) small_heap))) s1"
    using insert_elements_passes by blast
  obtain s2 where 2: "extract_elements ops s1 = Some s2" "holds_heap 32 small_heap s2"
    using extract_elements_passes [OF 1(2)] by blast
  obtain s3 where 3: "change_keys ops s2 = Some s3"
    "holds_heap 32 {#TestU32 egg 20, TestU32 boy 25, TestU32 fan 100, TestU32 hammer 19#} s3"
    using change_keys_passes [OF 2(2)] by blast
  have none: "remove_element ops not_exist 4 s3 = Some s3" "remove_element ops duck 4 s3 = Some s3"
    using remove_element_none [OF 3(2), of not_exist 4] remove_element_none [OF 3(2), of duck 4] by simp_all
  obtain s4 where 4: "remove_element ops egg 3 s3 = Some s4"
    "holds_heap 32 {#TestU32 boy 25, TestU32 fan 100, TestU32 hammer 19#} s4"
    using remove_element_passes [OF 3(2), of 3] by auto
  have "holds_heap 32 (add_mset (TestU32 fan 100) {#TestU32 boy 25, TestU32 hammer 19#}) s4"
    using 4(2) by (simp add: add_mset_commute)
  from remove_element_passes [OF this, of 2] obtain s5 where
    5: "remove_element ops fan 2 s4 = Some s5" "holds_heap 32 {#TestU32 boy 25, TestU32 hammer 19#} s5"
    by auto
  obtain s6 where 6: "clear_all ops s5 = Some s6" "holds_heap 32 {#} s6"
    using clear_all_passes [OF 5(2)] by blast
  obtain s7 where 7: "full_heap ops s6 = Some s7" "holds_heap 65535 (mset (weights 1 1 65536)) s7"
    using full_heap_passes [OF 6(2)] by blast
  show ?thesis
    using 1(1) 2(1) 3(1) none 4(1) 5(1) 6(1) 7(1) insert_extract_full_passes [OF 7(2)]
    by (simp add: test_binary_heap_def)
qed

end

section \<open>The iterations\<close>

text \<open>
  \<open>rand::random\<close> is a parameter: \<open>rand n\<close> is the number drawn when \<open>n\<close> items are left, each
  once.  \<open>Vec::remove\<close> takes out the item at an index.
\<close>

lemma one_removed:
  assumes "items \<noteq> []"
  shows "r mod length items + (length items - Suc (r mod length items)) < length items"
proof -
  have "r mod length items < length items" using assms by simp
  then show ?thesis by linarith
qed

function insert_random :: "'s nas \<Rightarrow> 'v vops \<Rightarrow> index_map \<Rightarrow> (nat \<Rightarrow> nat) \<Rightarrow> 'v list \<Rightarrow> 's \<Rightarrow> 's option" where
  "insert_random N P m rand items s =
     (if items = [] then Some s
      else do {
        let i = rand (length items) mod length items;
        (r, s) \<leftarrow> ih_insert N P m (items ! i) s;
        _ \<leftarrow> unwrap r;
        insert_random N P m rand (take i items @ drop (Suc i) items) s
      })"
  by auto
termination
  by (relation "measure (\<lambda>(_, _, _, _, items, _). length items)") (auto intro: one_removed)

declare insert_random.simps [simp del]

text \<open>The items: \<open>i * 2\<close> is checked.\<close>

fun random_items :: "nat list \<Rightarrow> test_u32 list option" where
  "random_items [] = Some []"
| "random_items (i # is) = do {
     data \<leftarrow> u32_mul (of_nat i) 2;
     items \<leftarrow> random_items is;
     Some (TestU32 (to_string i) data # items)
   }"

definition random_heap :: "test_u32 vops \<Rightarrow> (nat \<Rightarrow> nat) \<Rightarrow> u32 \<Rightarrow> u32 \<Rightarrow> bytes bytemap \<Rightarrow>
    (index_map \<times> bytes bytemap) option" where
  "random_heap P rand start end' kv = do {
     c \<leftarrow> u32_sub end' start;
     let heap = ih_new [] c;
     items \<leftarrow> random_items [unat start..<unat end'];
     kv \<leftarrow> insert_random kv_store P heap rand items kv;
     Some (heap, kv)
   }"

definition check_unchanged_items :: "test_u32 list \<Rightarrow> test_u32 list \<Rightarrow> bytes option \<Rightarrow> unit option" where
  "check_unchanged_items old_items new_items except =
     (let old_set = fold (\<lambda>item old_set.
            if except = Some (as_bytes (tu_name item)) then old_set
            else old_set(as_bytes (tu_name item) \<mapsto> item)) old_items Map.empty
      in assert (list_all (\<lambda>item.
           case old_set (as_bytes (tu_name item)) of
             Some old_item \<Rightarrow> tu_data old_item = tu_data item
           | None \<Rightarrow> True) new_items))"

definition insert_iteration :: "test_u32 vops \<Rightarrow> (nat \<Rightarrow> nat) \<Rightarrow> u32 \<Rightarrow> unit option" where
  "insert_iteration P rand t = do {
     let kv = Map.empty;
     (heap, kv) \<leftarrow> random_heap P rand 1 129 kv;
     (n, kv) \<leftarrow> im_length kv_store heap kv;
     _ \<leftarrow> assert (n = 128);
     (old_items, kv) \<leftarrow> ih_unordered_values kv_store P heap kv;
     let name = string_of ([105, 95] @ decimal (unat t));
     data \<leftarrow> u32_mul t 2;
     data \<leftarrow> u32_sub data 1;
     (result, kv) \<leftarrow> ih_insert kv_store P heap (TestU32 name data) kv;
     kv \<leftarrow> (if isl result then Some kv
       else do {
         (v, kv) \<leftarrow> im_get_by kv_store P heap (as_bytes name) kv;
         _ \<leftarrow> assert (v \<noteq> None);
         Some kv
       });
     (n, kv) \<leftarrow> im_length kv_store heap kv;
     _ \<leftarrow> assert (n = 128);
     (new_items, kv) \<leftarrow> ih_unordered_values kv_store P heap kv;
     _ \<leftarrow> check_order kv_store P heap kv;
     check_unchanged_items old_items new_items None
   }"

definition remove_iteration :: "test_u32 vops \<Rightarrow> (nat \<Rightarrow> nat) \<Rightarrow> nat \<Rightarrow> unit option" where
  "remove_iteration P rand t = do {
     let kv = Map.empty;
     (heap, kv) \<leftarrow> random_heap P rand 1 129 kv;
     (n, kv) \<leftarrow> im_length kv_store heap kv;
     _ \<leftarrow> assert (n = 128);
     (old_items, kv) \<leftarrow> ih_unordered_values kv_store P heap kv;
     (_, kv) \<leftarrow> ih_remove_item kv_store P heap (as_bytes (to_string t)) kv;
     (v, kv) \<leftarrow> im_get_by kv_store P heap (as_bytes (to_string t)) kv;
     _ \<leftarrow> assert (v = None);
     (n, kv) \<leftarrow> im_length kv_store heap kv;
     _ \<leftarrow> assert (n = 127);
     (new_items, kv) \<leftarrow> ih_unordered_values kv_store P heap kv;
     _ \<leftarrow> check_order kv_store P heap kv;
     check_unchanged_items old_items new_items None
   }"

text \<open>\<open>key\<close> and \<open>value\<close> are the two numbers drawn after the heap was filled.\<close>

definition change_iteration :: "test_u32 vops \<Rightarrow> (nat \<Rightarrow> nat) \<Rightarrow> nat \<Rightarrow> nat \<Rightarrow> unit option" where
  "change_iteration P rand key value = do {
     let kv = Map.empty;
     (heap, kv) \<leftarrow> random_heap P rand 100 228 kv;
     (n, kv) \<leftarrow> im_length kv_store heap kv;
     _ \<leftarrow> assert (n = 128);
     (old_items, kv) \<leftarrow> ih_unordered_values kv_store P heap kv;
     let random_key = key mod 128 + 100;
     let random_value = value mod 500;
     let random_value = (if random_value \<ge> 100 \<and> random_value \<le> 228 * 2 \<and> random_value mod 2 = 0
       then random_value + 1 else random_value);
     (_, kv) \<leftarrow> ih_change_key kv_store P heap (TestU32 (to_string random_key) (of_nat random_value)) kv;
     (v, kv) \<leftarrow> im_get_by kv_store P heap (as_bytes (to_string random_key)) kv;
     _ \<leftarrow> assert (v \<noteq> None);
     (n, kv) \<leftarrow> im_length kv_store heap kv;
     _ \<leftarrow> assert (n = 128);
     (new_items, kv) \<leftarrow> ih_unordered_values kv_store P heap kv;
     _ \<leftarrow> check_order kv_store P heap kv;
     check_unchanged_items old_items new_items (Some (as_bytes (to_string random_key)))
   }"

fun for_each :: "('a \<Rightarrow> unit option) \<Rightarrow> 'a list \<Rightarrow> unit option" where
  "for_each f [] = Some ()"
| "for_each f (x # xs) = do { _ \<leftarrow> f x; for_each f xs }"

definition random_tests :: "test_u32 vops \<Rightarrow> (nat \<Rightarrow> nat \<Rightarrow> nat \<Rightarrow> nat) \<Rightarrow> (nat \<Rightarrow> nat) \<Rightarrow> (nat \<Rightarrow> nat) \<Rightarrow>
    unit option" where
  "random_tests P rand key value = do {
     _ \<leftarrow> for_each (\<lambda>t. insert_iteration P (rand 0 t) (of_nat t)) [1..<130];
     _ \<leftarrow> for_each (\<lambda>t. remove_iteration P (rand 1 t) t) [1..<129];
     for_each (\<lambda>t. change_iteration P (rand 2 t) (key t) (value t)) [0..<20]
   }"

section \<open>They pass\<close>

text \<open>Random insertion is insertion in some order.\<close>

lemma insert_random_some_order:
  "\<exists>vs. mset vs = mset items \<and> insert_random N P m rand items s = insert_each N P m vs s"
proof (induction N P m rand items s rule: insert_random.induct)
  case (1 N P m rand items s)
  show ?case
  proof (cases "items = []")
    case False
    define i where "i = rand (length items) mod length items"
    let ?rest = "take i items @ drop (Suc i) items"
    have i: "i < length items" using False by (simp add: i_def)
    have m: "mset (items ! i # ?rest) = mset items"
      using arg_cong [OF id_take_nth_drop [OF i], of mset] by simp
    have step: "insert_random N P m rand items s = do {
        (r, s) \<leftarrow> ih_insert N P m (items ! i) s;
        _ \<leftarrow> unwrap r;
        insert_random N P m rand ?rest s }"
      using False by (simp add: insert_random.simps [of N P m rand items] i_def Let_def)
    show ?thesis
    proof (cases "\<exists>s'. ih_insert N P m (items ! i) s = Some (Inr (), s')")
      case True
      then obtain s' where s': "ih_insert N P m (items ! i) s = Some (Inr (), s')" by blast
      obtain vs where vs: "mset vs = mset ?rest" "insert_random N P m rand ?rest s' = insert_each N P m vs s'"
        using 1 [OF False i_def s' refl, of "()"] by auto
      then show ?thesis using m by (intro exI [of _ "items ! i # vs"]) (simp add: step s')
    next
      case False
      then show ?thesis
        using m by (intro exI [of _ "items ! i # ?rest"], cases "ih_insert N P m (items ! i) s")
          (auto simp: step unwrap_def split: sum.splits)
    qed
  next
    case True
    then show ?thesis by (intro exI [of _ "[]"]) (simp add: insert_random.simps [of N P m rand])
  qed
qed

lemma random_items_ok:
  "\<forall>i \<in> set is. 2 * i < 4294967296 \<Longrightarrow>
     random_items is = Some (map (\<lambda>i. TestU32 (to_string i) (of_nat (2 * i))) is)"
proof (induction "is")
  case (Cons i "is")
  have "u32_mul (of_nat i) (of_nat 2) = Some (of_nat (i * 2))" by (rule u32_mul_of_nat) (use Cons.prems in auto)
  then show ?case using Cons by (simp add: mult.commute)
qed simp

lemma random_items_weights:
  "2 * j < 4294967296 \<Longrightarrow> random_items [i..<j] = Some (weights 2 i j)"
  unfolding weights_def by (rule random_items_ok) auto

lemma weights_distinct_data:
  assumes "2 * j < 4294967296"
  shows "distinct (map tu_data (weights 2 i j))"
proof -
  have "inj_on (\<lambda>n. of_nat (2 * n) :: u32) (set [i..<j])"
    using assms by (intro inj_onI) (simp add: of_nat_u32_inj flip: of_nat_mult)
  then show ?thesis by (simp add: weights_def distinct_map o_def)
qed

text \<open>No two items have the same key, and \<open>check_unchanged_items\<close> compares those of the same key.\<close>

lemma old_set_Some:
  "fold (\<lambda>item old_set. if except = Some (as_bytes (tu_name item)) then old_set
      else old_set(as_bytes (tu_name item) \<mapsto> item)) items m k = Some v \<Longrightarrow>
   m k = Some v \<or> v \<in> set items \<and> as_bytes (tu_name v) = k \<and> except \<noteq> Some k"
  by (induction items arbitrary: m) (fastforce split: if_splits)+

lemma check_unchanged_items_ok:
  assumes "\<And>v w. v \<in> set old_items \<Longrightarrow> w \<in> set new_items \<Longrightarrow> as_bytes (tu_name v) = as_bytes (tu_name w) \<Longrightarrow>
    except \<noteq> Some (as_bytes (tu_name w)) \<Longrightarrow> tu_data v = tu_data w"
  shows "check_unchanged_items old_items new_items except = Some ()"
proof -
  define old_set where "old_set = fold (\<lambda>item old_set.
      if except = Some (as_bytes (tu_name item)) then old_set
      else old_set(as_bytes (tu_name item) \<mapsto> item)) old_items Map.empty"
  have "tu_data v = tu_data w" if "w \<in> set new_items" "old_set (as_bytes (tu_name w)) = Some v" for v w
    using old_set_Some [OF that(2) [unfolded old_set_def]] assms [of v w] that(1) by auto
  then have "list_all (\<lambda>item. case old_set (as_bytes (tu_name item)) of
      Some old_item \<Rightarrow> tu_data old_item = tu_data item | None \<Rightarrow> True) new_items"
    by (simp add: list_all_iff split: option.split)
  then show ?thesis by (simp add: check_unchanged_items_def old_set_def)
qed

context named_codec
begin

lemma random_heap_ok:
  assumes "i < j" "2 * j < 4294967296"
  shows "\<exists>s. random_heap ops rand (of_nat i) (of_nat j) Map.empty = Some (ih_new [] (of_nat (j - i)), s) \<and>
     holds_heap (of_nat (j - i)) (mset (weights 2 i j)) s"
proof -
  let ?c = "of_nat (j - i) :: u32"
  have u: "unat (of_nat i :: u32) = i" "unat (of_nat j :: u32) = j" "unat ?c = j - i"
    by (rule unat_of_nat_u32; use assms in simp)+
  have c: "u32_sub (of_nat j) (of_nat i) = Some ?c" by (rule u32_sub_of_nat) (use assms in simp_all)
  obtain vs where vs: "mset vs = mset (weights 2 i j)"
    "insert_random kv_store ops (ih_new [] ?c) rand (weights 2 i j) Map.empty =
       insert_each kv_store ops (ih_new [] ?c) vs Map.empty"
    using insert_random_some_order [of "weights 2 i j" kv_store ops "ih_new [] ?c" rand Map.empty] by blast
  have d: "distinct (map (vkey ops) vs)"
    using weights_keys(1) [of j 2 i] assms(2) vs(1) by (simp add: mset_eq_imp_distinct_iff [of "map _ vs" "map _ (weights 2 i j)"])
  have n: "length vs = j - i" using vs(1) by (metis length_weights size_mset)
  obtain s where "insert_each kv_store ops (ih_new [] ?c) vs Map.empty = Some s" "holds_heap ?c (mset vs) s"
    using test_u32.insert_first [OF d, of ?c] n u(3) assms by force
  then show ?thesis
    using c vs u random_items_weights [OF assms(2)] by (auto simp: random_heap_def Let_def)
qed

text \<open>The end of each iteration: the checks on the old and the new values.\<close>

lemma iteration_end:
  assumes H: "holds_heap c K s" and K: "K \<noteq> {#}" "\<And>xs. mset xs = K \<Longrightarrow> distinct (map tu_data xs)"
  shows "\<exists>vs r. ih_unordered_values kv_store ops (ih_new [] c) s = Some (vs, s) \<and> mset vs = K \<and>
     check_order kv_store ops (ih_new [] c) s = Some r"
proof -
  obtain xs where xs: "ih_ok ops tu_data (ih_new [] c) xs s" "mset xs = K" using H by (auto elim: only_heapE)
  obtain f l s' where "check_order kv_store ops (ih_new [] c) s = Some ((f, l), s')"
    using kv_test_u32.check_order_ok [OF refl xs(1)] K xs(2) by fastforce
  then show ?thesis using test_u32.only_heap_values [OF H] by blast
qed

text \<open>Items of the random heap are told apart by their keys.\<close>

lemma weights_same_key:
  assumes "v \<in> set (weights 2 i j)" "w \<in> set (weights 2 i j)" "as_bytes (tu_name v) = as_bytes (tu_name w)"
    and "2 * j < 4294967296"
  shows "v = w"
proof -
  have "inj_on (\<lambda>v. as_bytes (tu_name v)) (set (weights 2 i j))"
    using weights_keys(1) [of j 2 i] assms(4) by (simp add: distinct_map)
  then show ?thesis using assms(1-3) by (simp add: inj_on_def)
qed

lemma unchanged_weights:
  assumes "set vs \<subseteq> set (weights 2 i j)" "set us \<subseteq> set (weights 2 i j)" "2 * j < 4294967296"
  shows "check_unchanged_items vs us except = Some ()"
proof (rule check_unchanged_items_ok)
  fix v w assume "v \<in> set vs" "w \<in> set us" "as_bytes (tu_name v) = as_bytes (tu_name w)"
  then have "v = w" using weights_same_key [of v i j w] assms by blast
  then show "tu_data v = tu_data w" by simp
qed

lemma weights_values:
  assumes "mset vs = mset (weights 2 i j)" "2 * j < 4294967296"
  shows "distinct (map tu_data vs)"
  using weights_distinct_data [OF assms(2), of i] assms(1)
  by (simp add: mset_eq_imp_distinct_iff [of "map _ vs" "map _ (weights 2 i j)"])

lemma insert_iteration_passes:
  assumes "0 < unat t" "unat t < 130"
  shows "insert_iteration ops rand t = Some ()"
proof -
  let ?m = "ih_new [] 128" and ?K = "mset (weights 2 1 129)"
  obtain s where s: "random_heap ops rand 1 129 Map.empty = Some (?m, s)" and H: "holds_heap 128 ?K s"
    using random_heap_ok [of 1 129 rand] by auto
  obtain d d' where d: "u32_mul t 2 = Some d" "u32_sub d 1 = Some d'"
  proof -
    have m: "u32_mul t 2 = Some (t * 2)" using assms(2) by (simp add: u32_mul_def)
    have "unat (t * 2) = unat t * 2" using u32_mul_SomeD [OF m] by simp
    then have "u32_sub (t * 2) 1 = Some (t * 2 - 1)" using assms(1) by (simp add: u32_sub_def word_le_nat_alt)
    with m show ?thesis by (rule that)
  qed
  have full: "ih_insert kv_store ops ?m v s = Some (Inl IndexHeapOperationError, s)" for v
    by (rule test_u32.only_heap_insert_full [OF H]) simp
  obtain vs r where e: "ih_unordered_values kv_store ops ?m s = Some (vs, s)" "mset vs = ?K"
    "check_order kv_store ops ?m s = Some r"
  proof -
    have "?K \<noteq> {#}" by simp
    then show ?thesis using iteration_end [OF H] weights_values [of _ 1 129] that by auto
  qed
  have "set vs = set (weights 2 1 129)" using e(2) by (metis set_mset_mset)
  then have "check_unchanged_items vs vs None = Some ()"
    by (intro unchanged_weights [of _ 1 129]) auto
  then show ?thesis
    using s d full e(1,3) only_heap_length [OF H]
    by (simp add: insert_iteration_def Let_def del: One_nat_def)
qed

text \<open>One item of the heap, and the others.\<close>

lemma weights_split:
  assumes t: "i \<le> t" "t < j" and j: "2 * j < 4294967296"
  defines "v \<equiv> TestU32 (to_string t) (of_nat (2 * t))"
  obtains ws where "mset (weights 2 i j) = add_mset v (mset ws)" "distinct (map tu_data (v # ws))"
    "as_bytes (to_string t) \<notin> (\<lambda>v. as_bytes (tu_name v)) ` set ws" "set ws \<subseteq> set (weights 2 i j)"
    "length ws = j - i - 1"
proof -
  let ?ws = "remove1 v (weights 2 i j)"
  have v: "v \<in> set (weights 2 i j)" using t by (simp add: v_def weights_def)
  have m: "mset (weights 2 i j) = add_mset v (mset ?ws)" using v by simp
  have d: "distinct (map tu_data (v # ?ws))" by (rule weights_values [OF _ j]) (use m in simp)
  have "distinct (weights 2 i j)" using weights_distinct_data [OF j] by (simp add: distinct_map)
  then have "v \<notin> set ?ws" by simp
  then have k: "as_bytes (to_string t) \<notin> (\<lambda>v. as_bytes (tu_name v)) ` set ?ws"
    using weights_same_key [OF v _ _ j] by (auto simp: v_def dest: notin_set_remove1)
  have l: "length ?ws = j - i - 1" using v by (simp add: length_remove1)
  show ?thesis by (rule that [OF m d k set_remove1_subset l])
qed

lemma remove_iteration_passes:
  assumes "0 < t" "t < 129"
  shows "remove_iteration ops rand t = Some ()"
proof -
  let ?m = "ih_new [] 128" and ?K = "mset (weights 2 1 129)" and ?v = "TestU32 (to_string t) (of_nat (2 * t))"
  obtain s where s: "random_heap ops rand 1 129 Map.empty = Some (?m, s)" and H: "holds_heap 128 ?K s"
    using random_heap_ok [of 1 129 rand] by auto
  obtain ws where ws: "?K = add_mset ?v (mset ws)" "distinct (map tu_data (?v # ws))"
    "as_bytes (to_string t) \<notin> (\<lambda>v. as_bytes (tu_name v)) ` set ws" "set ws \<subseteq> set (weights 2 1 129)"
    "length ws = 127"
    using weights_split [of 1 t 129] assms by auto
  have ne: "mset ws \<noteq> {#}" using ws(5) by auto
  obtain s1 where 1: "ih_remove_item kv_store ops ?m (as_bytes (to_string t)) s = Some ((), s1)"
    "holds_heap 128 (mset ws) s1"
    using test_u32.only_heap_remove [OF H [unfolded ws(1)] ne] by auto
  have none: "im_get_by kv_store ops ?m (as_bytes (to_string t)) s1 = Some (None, s1)"
    using test_u32.only_heap_get_by(2) [OF 1(2)] ws(3) by simp
  obtain vs where vs: "ih_unordered_values kv_store ops ?m s = Some (vs, s)" "mset vs = ?K"
    using test_u32.only_heap_values [OF H] by blast
  have "distinct (map tu_data xs)" if "mset xs = mset ws" for xs
    using ws(2) that by (simp add: mset_eq_imp_distinct_iff [of "map _ xs" "map _ ws"])
  from iteration_end [OF 1(2) ne this] obtain us r where
    us: "ih_unordered_values kv_store ops ?m s1 = Some (us, s1)" "mset us = mset ws"
    "check_order kv_store ops ?m s1 = Some r"
    by blast
  have "set vs = set (weights 2 1 129)" "set us = set ws" using vs(2) us(2) by (metis set_mset_mset)+
  then have "check_unchanged_items vs us None = Some ()"
    using ws(4) by (intro unchanged_weights [of _ 1 129]) auto
  then show ?thesis
    using s 1(1) none vs(1) us(1,3) only_heap_length [OF H] only_heap_length [OF 1(2)] ws(5)
    by (simp add: remove_iteration_def Let_def del: One_nat_def)
qed

text \<open>The new priority of an iteration is none of the heap.\<close>

lemma new_priority_fresh:
  fixes q :: nat
  assumes q: "q < 500"
  defines "r \<equiv> (if q \<ge> 100 \<and> q \<le> 228 * 2 \<and> q mod 2 = 0 then q + 1 else q)"
    and "W \<equiv> set (weights 2 100 228)"
  shows "x \<in> W \<Longrightarrow> (of_nat r :: u32) \<noteq> tu_data x"
proof -
  assume "x \<in> W"
  then obtain n where n: "100 \<le> n" "n < 228" "unat (tu_data x) = 2 * n"
    using weights_data [of x 2 100 228] by (auto simp: W_def)
  have "r \<noteq> 2 * n"
  proof (cases "q \<ge> 100 \<and> q \<le> 228 * 2 \<and> q mod 2 = 0")
    case True
    then have "r = q + 1" "q mod 2 = 0" by (simp_all add: r_def)
    then show ?thesis by presburger
  next
    case False
    then have "r = q" by (simp add: r_def)
    then show ?thesis using False n(1,2) by auto
  qed
  moreover have "unat (of_nat r :: u32) = r" by (rule unat_of_nat_u32) (use q in \<open>simp add: r_def\<close>)
  ultimately show ?thesis using n(3) by metis
qed

lemma change_iteration_passes: "change_iteration ops rand key value = Some ()"
proof -
  let ?m = "ih_new [] 128" and ?K = "mset (weights 2 100 228)"
  define t where "t = key mod 128 + 100"
  define q where "q = value mod 500"
  define r where "r = (if q \<ge> 100 \<and> q \<le> 228 * 2 \<and> q mod 2 = 0 then q + 1 else q)"
  have t: "100 \<le> t" "t < 228" by (simp_all add: t_def)
  have q: "q < 500" by (simp add: q_def)
  let ?v = "TestU32 (to_string t) (of_nat r)" and ?w = "TestU32 (to_string t) (of_nat (2 * t))"
  obtain s where s: "random_heap ops rand 100 228 Map.empty = Some (?m, s)" and H: "holds_heap 128 ?K s"
    using random_heap_ok [of 100 228 rand] by auto
  obtain ws where ws: "?K = add_mset ?w (mset ws)" "distinct (map tu_data (?w # ws))"
    "as_bytes (to_string t) \<notin> (\<lambda>v. as_bytes (tu_name v)) ` set ws" "set ws \<subseteq> set (weights 2 100 228)"
    "length ws = 127"
    using weights_split [of 100 t 228] t by auto
  have new: "tu_data ?v \<noteq> tu_data x" if "x \<in> set (weights 2 100 228)" for x
    using new_priority_fresh [OF q that] by (simp add: r_def)
  have "?w \<in> set (weights 2 100 228)" using ws(1) by (metis set_mset_mset union_single_eq_member)
  then have "tu_data ?v \<noteq> tu_data ?w" by (rule new)
  then obtain s1 where 1: "ih_change_key kv_store ops ?m ?v s = Some ((), s1)" "holds_heap 128 (add_mset ?v (mset ws)) s1"
    using test_u32.only_heap_change_key [OF H [unfolded ws(1)], of ?v] by auto
  have there: "im_get_by kv_store ops ?m (as_bytes (to_string t)) s1 = Some (Some ?v, s1)"
    using test_u32.only_heap_get_by(1) [OF 1(2), of ?v] by simp
  obtain vs where vs: "ih_unordered_values kv_store ops ?m s = Some (vs, s)" "mset vs = ?K"
    using test_u32.only_heap_values [OF H] by blast
  have "distinct (map tu_data (?v # ws))" using ws(2,4) new by auto
  then have "distinct (map tu_data xs)" if m: "mset xs = add_mset ?v (mset ws)" for xs
    using distinct_map_add_mset [OF m, of tu_data] by simp
  from iteration_end [OF 1(2) _ this] obtain us x where
    us: "ih_unordered_values kv_store ops ?m s1 = Some (us, s1)" "mset us = add_mset ?v (mset ws)"
    "check_order kv_store ops ?m s1 = Some x"
    by auto
  have "set vs = set (weights 2 100 228)" "set us = insert ?v (set ws)"
    using vs(2) us(2) by (metis set_mset_mset set_mset_add_mset_insert)+
  then have "check_unchanged_items vs us (Some (as_bytes (to_string t))) = Some ()"
  proof (intro check_unchanged_items_ok)
    fix x y assume a: "set vs = set (weights 2 100 228)" "set us = insert ?v (set ws)" "x \<in> set vs" "y \<in> set us"
      "as_bytes (tu_name x) = as_bytes (tu_name y)" "Some (as_bytes (to_string t)) \<noteq> Some (as_bytes (tu_name y))"
    then have "y \<in> set (weights 2 100 228)" using ws(4) by auto
    then have "x = y" using weights_same_key [of x 100 228 y] a by simp
    then show "tu_data x = tu_data y" by simp
  qed
  then show ?thesis
    unfolding change_iteration_def Let_def t_def [symmetric] q_def [symmetric] r_def [symmetric]
    using s 1(1) there vs(1) us(1,3) only_heap_length [OF H] only_heap_length [OF 1(2)] ws(5) by simp
qed

end

lemma for_each_Some: "(\<And>x. x \<in> set xs \<Longrightarrow> f x = Some ()) \<Longrightarrow> for_each f xs = Some ()"
  by (induction xs) auto

lemma random_heap_tests_pass:
  assumes C: "named_codec ser de"
  shows "random_tests (test_u32_ops ser de) rand key value = Some ()"
proof -
  have "for_each (\<lambda>t. insert_iteration (test_u32_ops ser de) (rand 0 t) (of_nat t)) [1..<130] = Some ()"
    using unat_of_nat_u32 by (intro for_each_Some named_codec.insert_iteration_passes [OF C]) auto
  moreover have "for_each (\<lambda>t. remove_iteration (test_u32_ops ser de) (rand 1 t) t) [1..<129] = Some ()"
    by (intro for_each_Some named_codec.remove_iteration_passes [OF C]) auto
  moreover have "for_each (\<lambda>t. change_iteration (test_u32_ops ser de) (rand 2 t) (key t) (value t)) [0..<20] = Some ()"
    by (intro for_each_Some named_codec.change_iteration_passes [OF C])
  ultimately show ?thesis by (simp only: random_tests_def bind.bind_lunit)
qed

section \<open>Properties\<close>

text \<open>
  C31: The unit tests of the index map and of the heap pass with every codec that reads back what
  it wrote; no \<open>unwrap\<close> fails and every assertion holds, those on the number of entries left in
  the store included.  The index map is filled up to 65535 values and refuses one more.  On the
  heap, seven values are inserted, the three least are extracted in order, a key is decreased
  and increased, values are removed or not found, the heap is cleared, filled with 65535 values
  and refuses one more, and \<open>insert_extract\<close> runs on it.  The iterations on random heaps pass
  for all random numbers: whatever the order in which the heap was filled, and whichever key is
  removed or changed to whatever value, the values come out in strictly increasing order, no key
  twice, and no other item has changed.
\<close>

theorem index_tests_pass:
  assumes S: "bytes_codec ser de" and C: "named_codec ser' de'"
  shows "test_index_map ser de = Some () \<and> test_binary_heap (test_u32_ops ser' de') = Some () \<and>
    random_tests (test_u32_ops ser' de') rand key value = Some ()"
  by (intro conjI bytes_codec.test_index_map_passes [OF S] named_codec.test_binary_heap_passes [OF C]
      random_heap_tests_pass [OF C])

theorem index_tests_pass_witness:
  "test_index_map std_ser_bytes std_de_bytes = Some () \<and>
   test_binary_heap (test_u32_ops std_ser_named std_de_named) = Some () \<and>
   random_tests (test_u32_ops std_ser_named std_de_named) (\<lambda>i t n. 7 * i + t * n) (\<lambda>t. 3 * t)
     (\<lambda>t. 101 * t) = Some ()"
  by (rule index_tests_pass [OF std_bytes.bytes_codec_axioms std_named.named_codec_axioms])

end
