(* ===== verification/Stake_Test.thy ===== *)
theory Stake_Test
  imports Values Test_Logic
begin

text \<open>
  The unit test of stakes (\<open>test_stake\<close> of \<open>stake.rs\<close>), translated and shown to pass with every
  borsh codec.
\<close>

text \<open>The comparison operators that \<open>PartialOrd\<close> provides, and the field behind \<open>inner\<close>.\<close>

definition v_le :: "'v vops \<Rightarrow> 'v \<Rightarrow> 'v \<Rightarrow> bool" where
  "v_le P a b \<longleftrightarrow> vpartial_cmp P a b = Some Less \<or> vpartial_cmp P a b = Some Equal"

definition v_ge :: "'v vops \<Rightarrow> 'v \<Rightarrow> 'v \<Rightarrow> bool" where
  "v_ge P a b \<longleftrightarrow> vpartial_cmp P a b = Some Greater \<or> vpartial_cmp P a b = Some Equal"

definition set_inner_power :: "u64 \<Rightarrow> stake_value \<Rightarrow> stake_value" where
  "set_inner_power n v = StakeValue (Stake (owner (inner_stake v)) n)"

text \<open>The sum of the test is 101, so its overflow check is not written out.\<close>

definition test_stake :: "borsh_lib \<Rightarrow> unit option" where
  "test_stake B = do {
     let P = stake_value_ops B;
     let pool_1 = StakeValue (Stake (b32_fill 2) 100);
     let pool_2 = StakeValue (Stake (b32_fill 3) 99);
     _ \<leftarrow> assert (vkey P pool_1 \<noteq> vkey P pool_2);
     _ \<leftarrow> assert (v_gt P pool_1 pool_2);
     _ \<leftarrow> assert (stake_value_cmp pool_1 pool_2 = Greater);
     _ \<leftarrow> assert (\<not> stake_value_eq pool_1 pool_2);
     _ \<leftarrow> assert (\<not> v_le P pool_1 pool_2);
     let pool_2 = set_inner_power (stake_power (inner_stake pool_1)) pool_2;
     _ \<leftarrow> assert (stake_value_eq pool_1 pool_2);
     _ \<leftarrow> assert (\<not> (\<not> stake_value_eq pool_1 pool_2));
     _ \<leftarrow> assert (v_ge P pool_1 pool_2);
     _ \<leftarrow> assert (v_le P pool_1 pool_2);
     let pool_2 = set_inner_power (stake_power (inner_stake pool_1) + 1) pool_2;
     _ \<leftarrow> assert (v_lt P pool_1 pool_2);
     _ \<leftarrow> assert (stake_value_cmp pool_1 pool_2 = Less);
     _ \<leftarrow> assert (\<not> stake_value_eq pool_1 pool_2);
     _ \<leftarrow> assert (\<not> v_ge P pool_1 pool_2);
     let bytes_1 = stake_value_into B pool_1;
     let bytes_2 = stake_value_into B pool_2;
     pool_1 \<leftarrow> stake_value_from B bytes_1;
     pool_2 \<leftarrow> stake_value_from B bytes_2;
     _ \<leftarrow> assert (v_lt P pool_1 pool_2);
     assert (stake_value_cmp pool_1 pool_2 = Less)
   }"

lemma stake_value_comparisons:
  "v_le (stake_value_ops B) v w \<longleftrightarrow> stake_power (inner_stake v) \<le> stake_power (inner_stake w)"
  "v_ge (stake_value_ops B) v w \<longleftrightarrow> stake_power (inner_stake w) \<le> stake_power (inner_stake v)"
  "v_lt (stake_value_ops B) v w \<longleftrightarrow> stake_power (inner_stake v) < stake_power (inner_stake w)"
  "v_gt (stake_value_ops B) v w \<longleftrightarrow> stake_power (inner_stake w) < stake_power (inner_stake v)"
  by (auto simp: v_le_def v_ge_def v_lt_def v_gt_def stake_value_ops_def stake_value_partial_cmp_def cmp_of_def)

theorem stake_test_passes:
  assumes "borsh_codec B"
  shows "test_stake B = Some ()"
proof -
  have from_into: "stake_value_from B (stake_value_into B v) = Some v" for v
    using borsh_codec.stake_roundtrip [OF assms] by (simp add: stake_value_from_def stake_value_into_def)
  show ?thesis
    by (simp add: test_stake_def Let_def stake_value_comparisons from_into set_inner_power_def
        stake_value_cmp_def stake_value_eq_def cmp_of_def)
qed

theorem stake_test_passes_witness: "test_stake borsh_std = Some ()"
  by (rule stake_test_passes [OF std.borsh_codec_axioms])

end
