(* ===== verification/Spec2Isabelle.thy ===== *)
theory Spec2Isabelle
  imports Integration_Test World_Tests Benchmark Index_Heap_Test Stake_Test
begin

text \<open>
  The world state of ParallelChain (\<open>pchain-world-state\<close>): accounts and their storages in
  Merkle Patricia tries over a key-value database, and the data structures of the network
  account (pools, stakes, deposits and the validator sets) laid out in the storage of one
  account.  The development models every operation of the crate on its own data, and proves
  what each component promises and how they work together.

  \<^bold>\<open>The program.\<close>  A \<open>WorldState\<close> owns an accounts trie and the storage tries opened so far.  A
  trie (\<open>Mpt\<close>) wraps a \<open>KeyInstrumentedDB\<close>, which builds physical keys from the version and a
  prefix, reads through to the database and collects inserts and deletes; the trie algorithm
  is that of the \<open>trie_db\<close> library, which reads and writes nodes through the \<open>HashDB\<close>
  implementation of \<open>Mpt\<close>.  \<open>close\<close> returns the collected changes and the root hash; the
  caller applies the changes to the database and opens a new world state at that root.
  Version 1 states are upgraded to version 2.  The network account is reached through the trait
  \<open>NetworkAccountStorage\<close>: index maps and heaps store values under keys they build, and
  dictionaries lay out the fields of pools and deposits.

  \<^bold>\<open>Theories and sources.\<close>  Files are under \<open>src/src/\<close>, those of the network account under
  \<open>src/src/network_account_storage/\<close>.

  \<^item> \<open>Prelude\<close>: bytes, 32-byte arrays, little-endian numbers, checked \<open>u32\<close> arithmetic, hash maps
    as association lists with an arbitrary order of visit.
  \<^item> \<open>Version_Errors\<close>: \<open>version.rs\<close>, \<open>error.rs\<close>.
  \<^item> \<open>Key_Db\<close>: \<open>db.rs\<close>; the record \<open>kdb\<close>, reachability without and with the upgrade
    (\<open>kdb_reach\<close>, \<open>kdb_life\<close>) and the invariants, and how changes of several wrappers are applied
    together.
  \<^item> \<open>Trie_Lib\<close>: the trie library as the record \<open>trie_lib\<close> of its functions and the locale
    \<open>trie_contract\<close>, with its extension \<open>merkle_trie\<close> by a collision-free hash; \<open>Flat_Trie\<close>: a concrete
    library that keeps both, for the witnesses.
  \<^item> \<open>Mpt\<close>: \<open>mpt.rs\<close>; \<open>Mpt_Tests\<close>: its unit tests and the life of one trie over the database.
  \<^item> \<open>Accounts_Trie\<close>: \<open>accounts_trie.rs\<close>; \<open>Storage_Trie\<close>: \<open>storage_trie.rs\<close>;
    \<open>World_State\<close>: \<open>world_state.rs\<close>, its opening and upgrade; \<open>World_Close\<close>: its closing, and when
    the changes of its tries do not meet (\<open>separate\<close>); \<open>Node_Paths\<close> and \<open>World_V1\<close>: in version 1 they
    do not; \<open>Flat_World\<close>: over the concrete library they never do.
  \<^item> \<open>Nas\<close>: the trait of \<open>network_account.rs\<close>, with the locale \<open>network_account_storage\<close> and
    the simulation \<open>sim\<close>; \<open>Values\<close>: \<open>stake.rs\<close> and the value types of \<open>pool.rs\<close>, with the
    locale \<open>keyed_value\<close>; \<open>Stake_Test\<close>: the unit test of \<open>stake.rs\<close>.
  \<^item> \<open>Index_Map\<close>: \<open>index_map.rs\<close>; \<open>Heap_List\<close>: heaps as plain lists, the reference of
    \<open>Index_Heap\<close>: \<open>index_heap.rs\<close>; \<open>Heap_Runs\<close>: loops over a heap; \<open>Index_Map_Test\<close> and
    \<open>Index_Heap_Test\<close>: the unit tests of the two files.
  \<^item> \<open>Pool\<close>: \<open>pool.rs\<close>; \<open>Deposit\<close>: \<open>deposit.rs\<close>; \<open>Network_Account\<close>: \<open>network_account.rs\<close> and
    \<open>constants.rs\<close>.
  \<^item> \<open>Network_World\<close>: \<open>StorageWorldState\<close> of \<open>src/tests/tests.rs\<close>, the network account inside
    a world state; \<open>Network_Run\<close>: sequences of operations on the network account; \<open>World_Calls\<close>,
    \<open>World_Run\<close> and \<open>World_Life\<close>: sequences of operations on a world state, with commits and the
    upgrade, their specification, and that they refine it.
  \<^item> \<open>Network_Tests\<close>, \<open>World_Tests\<close> and \<open>World_Scripts\<close>: the unit tests of \<open>tests.rs\<close>, on the network
    account, on the fields of an account, and on storages; \<open>Integration_Test\<close>: \<open>integration_test.rs\<close>.
  \<^item> \<open>Benchmark\<close>: the workloads and benchmarks of \<open>benches/benchmark.rs\<close>; RocksDB, the temporary
    directory and the other crates they call are the record \<open>bench_lib\<close>.
  \<^item> \<open>Test_Logic\<close>: \<open>unwrap\<close> and assertions of the translated tests.

  \<^bold>\<open>Conventions.\<close>  A Rust type is a record or datatype, a method a definition that takes the
  value and returns it updated.  A \<open>Result\<close> is a sum with the error on the left; a panic (an
  \<open>unwrap\<close> of \<open>None\<close> or \<open>Err\<close>, an overflow of checked arithmetic, a failed assertion) is the
  value \<open>None\<close> of an outer option.  Integers are words of their width; \<open>u32\<close> additions that the
  code makes are checked as in a debug build, and shown not to overflow for capacities below
  2 to the 31.  Type parameters (the version, the sizes of pools and sets) are arguments.  A
  reference returned by \<open>storage_trie_mut\<close> or \<open>account_trie_mut\<close> is the part itself, and an edit
  through it is written back.

  \<^bold>\<open>Contracts.\<close>  What lies outside the crate is a parameter: the trie library with
  \<open>trie_contract\<close> (over node stores that hold a trie, its reads answer from the content, its edits
  produce a store that holds the edited content and touch nodes of the old and the new trie only),
  \<open>merkle_trie\<close> (nodes of one hash at different paths have the same entries below them), borsh and the serialisation of \<open>pchain_types\<close> with
  \<open>borsh_codec\<close>, \<open>bytes_codec\<close> and \<open>named_codec\<close> (values are read back from their bytes,
  which are not empty), the database as a function, RocksDB and the temporary directory of the benchmarks with
  \<open>bench_contract\<close> (databases by path, batches applied in order), and the random numbers of the tests
  and benchmarks.  Each
  contract has a concrete instance, on which every witness evaluates.

  \<^bold>\<open>What is shown.\<close>

  \<^item> Of the database wrapper: it behaves as a map, no key is both inserted and deleted, the
    keys it collects are those of its prefix and version, to which an upgrade adds the version 2 form, its
    changes applied to the database are invisible to readers, version 2 keyspaces are disjoint,
    and node keys of version 1 meet only where the accounts trie and a storage trie have nodes of
    one hash, at paths that differ by the address; the visibility byte of their keys rules such nodes
    out, so that no trie of a version 1 world state changes a node of another one (\<open>v1_tries_separate\<close>).
  \<^item> Of the tries: \<open>Mpt\<close> simulates the node store that the library is specified against; every
    operation on \<open>Mpt\<close>, the accounts trie and the storage trie acts on a map; account keys decode,
    and it is shown which other keys the decoders accept; upgrading keeps everything; refused edits
    report their error and keep the root, except those of \<open>batch_remove\<close>, which are discarded.
  \<^item> Of the world state: opening, editing, closing and reopening, and upgrading preserve the
    accounts and the storages (\<open>ws_rel\<close>); \<open>world_run\<close> extends this to all sequences of
    operations, commits and the upgrade, and \<open>world_well_typed\<close> shows that what they store has the
    type of its field.  The first closing after the upgrade is covered when the tries are separate: no
    trie changed a physical key of a node of another one.
  \<^item> Of the network account's structures: on every lawful store the index map is a list of
    values with distinct keys, the heap a multiset from which \<open>extract\<close> takes a least value; the
    loops of the heap end within a logarithmic number of rounds; extraction sorts.
  \<^item> Of the network account: it represents one record \<open>network\<close> (\<open>represents\<close>), each operation
    changes one of its parts, all sequences of operations run without a panic as the specification
    says (\<open>network_run\<close>) and within the size limits (\<open>network_within_limits\<close>); the storage
    trie of the network address is a lawful store, so this holds inside a world state.
  \<^item> Of the benchmarks: they run without a panic, and what they write is what they iterate.
  \<^item> Of the unit tests: translated as programs, they pass for all trie libraries, codecs,
    addresses and random numbers.

  \<^bold>\<open>Loops and fuel.\<close>  The heapify loops are functions with a termination proof, the loops over
  index ranges are structural.  The order check of the tests runs until the heap is empty and is
  a partial function, shown to return.  Only the decoder of the concrete trie library has fuel, the
  length of the node it decodes, of which each entry takes at least one byte.

  \<^bold>\<open>Not modelled.\<close>  The algorithms of \<open>trie_db\<close> and \<open>reference_trie\<close> and the hash function, which
  are not part of the crate; the module declarations of \<open>lib.rs\<close> and \<open>mod.rs\<close>; the times that the benchmarks measure and the means they
  print.  That tries are separate is shown for
  changes of one version and for the concrete library; for the first closing after the upgrade it is a
  hypothesis on runs (\<open>commits_separate\<close>), since a version 2 key can be the version 1 key of a node
  of another trie, where addresses are shifted by a byte.  Concurrency does not occur: the operations take exclusive
  references.
\<close>

section \<open>The network account in a world state\<close>

text \<open>
  C8: The storage trie of the network address implements \<open>NetworkAccountStorage\<close>: on a world
  state whose network account holds the map \<open>\<sigma>\<close>, reads answer from it and writes update it,
  without a panic, while the storage of every other account, all user accounts, the version
  and the database stay the same.
\<close>

theorem network_on_world_state:
  assumes C: "trie_contract E M" and R: "world_rep M K V d S U w \<sigma>" and v: "v \<noteq> []"
  shows "(\<exists>w'. nas_get (storage_world_state E) w k = Some (\<sigma> k, w') \<and> world_rep M K V d S U w' \<sigma>) \<and>
    (\<exists>w'. nas_contains (storage_world_state E) w k = Some (\<sigma> k \<noteq> None, w') \<and>
       world_rep M K V d S U w' \<sigma>) \<and>
    (\<exists>w'. nas_set (storage_world_state E) w k v = Some ((), w') \<and>
       world_rep M K V d S U w' (\<sigma>(k \<mapsto> v))) \<and>
    (\<exists>w'. nas_delete (storage_world_state E) w k = Some ((), w') \<and>
       world_rep M K V d S U w' (\<sigma>(k := None)))"
proof -
  note L = storage_world_state_lawful [OF C, of K V d S U]
  show ?thesis
    by (intro conjI network_account_storage.get_law [OF L R] network_account_storage.contains_law [OF L R]
        network_account_storage.set_law [OF L R v] network_account_storage.delete_law [OF L R])
qed

theorem network_on_world_state_witness:
  "\<exists>w'. nas_set (storage_world_state flat_lib) (ws_new flat_lib V2 Map.empty) [5] [1] = Some ((), w')"
proof -
  obtain \<sigma> where "world_rep flat_model (V2 = V2) V2 Map.empty (\<lambda>_. Map.empty) (user_account V2 Map.empty)
      (ws_new flat_lib V2 Map.empty) \<sigma>"
    using new_world_represents [OF flat_contract, where V = V2 and B = borsh_std and n = 64 and m = 128]
    by (blast elim: representsE)
  from network_on_world_state [OF flat_contract this, of "[1]" "[5]"] show ?thesis by auto
qed

end
